(* ===== verification/Prelude.thy ===== *)
theory Prelude
  imports Main "HOL-Library.Word" "HOL-Library.AList"
begin

text \<open>
  Shared vocabulary of the development: the machine types of the C++ code, the collections of
  simplification rules the component theories fill, and the generic facts on lists, words and
  decimal strings that more than one component needs.
\<close>

unbundle bit_operations_syntax

section \<open>Machine types\<close>

type_synonym byte = "8 word"
type_synonym u32 = "32 word"
type_synonym u64 = "64 word"
type_synonym u128 = "128 word"

named_theorems codec_simps "lengths and round trips of the byte codecs"
named_theorems ledger_simps "reads, writes and totals of an account map"
named_theorems chain_simps "reads of a chain after one of its operations"

section \<open>Lists\<close>

lemma take_append_exact [simp]: "length xs = n \<Longrightarrow> take n (xs @ ys) = xs"
  by simp

lemma drop_append_exact [simp]: "length xs = n \<Longrightarrow> drop n (xs @ ys) = ys"
  by simp

lemma length_concat_const:
  "(\<And>x. x \<in> set xs \<Longrightarrow> length (f x) = k) \<Longrightarrow> length (concat (map f xs)) = k * length xs"
  by (induction xs) auto

lemma append_eq_fixed_length:
  "length xs = length ys \<Longrightarrow> xs @ us = ys @ vs \<longleftrightarrow> xs = ys \<and> us = vs"
  by simp

lemma concat_map_inj_fixed_width:
  assumes "\<And>x. x \<in> set xs \<union> set ys \<Longrightarrow> length (f x) = k" "0 < k"
    and "\<And>x y. x \<in> set xs \<Longrightarrow> y \<in> set ys \<Longrightarrow> f x = f y \<Longrightarrow> x = y"
    and "concat (map f xs) = concat (map f ys)"
  shows "xs = ys"
  using assms
proof (induction xs arbitrary: ys)
  case Nil
  then show ?case by (cases ys) (auto dest: arg_cong [where f = length])
next
  case (Cons x xs)
  note prems = Cons.prems
  from prems(1,2,4) obtain y ys' where ys: "ys = y # ys'"
    by (cases ys) (auto dest: arg_cong [where f = length])
  from prems(1,4) ys have "f x = f y" "concat (map f xs) = concat (map f ys')"
    by (auto simp: append_eq_append_conv)
  with prems ys Cons.IH [of ys'] show ?case by simp
qed

text \<open>Lists in the same order of distinct keys are determined by their elements.\<close>

lemma seq_sorted_unique:
  fixes f :: "'a \<Rightarrow> 'b::linorder"
  assumes "sorted_wrt (<) (map f xs)" "sorted_wrt (<) (map f ys)" "set xs = set ys"
  shows "xs = ys"
proof -
  have inj: "inj_on f (set xs \<union> set ys)" using assms(2,3) by (simp add: strict_sorted_iff distinct_map)
  show ?thesis
    by (rule map_sorted_distinct_set_unique [OF inj]) (use assms in \<open>simp_all add: strict_sorted_iff\<close>)
qed

text \<open>The pieces of a record of fixed-width fields.\<close>

fun fields :: "nat list \<Rightarrow> 'a list \<Rightarrow> 'a list list" where
  "fields [] xs = []"
| "fields (w # ws) xs = take w xs # fields ws (drop w xs)"

lemma concat_fields: "sum_list ws = length xs \<Longrightarrow> concat (fields ws xs) = xs"
  by (induction ws arbitrary: xs) auto

section \<open>Big-endian bytes\<close>

text \<open>
  \<open>be_bytes n w\<close> are the low \<open>n\<close> bytes of \<open>w\<close>, most significant first; \<open>of_be\<close> reads such a
  list back by shifting in one byte after the other.
\<close>

definition be_bytes :: "nat \<Rightarrow> 'a::len word \<Rightarrow> byte list" where
  "be_bytes n w = map (\<lambda>i. ucast (drop_bit (8 * (n - 1 - i)) w)) [0..<n]"

definition of_be :: "byte list \<Rightarrow> 'a::len word" where
  "of_be bs = fold (\<lambda>b v. push_bit 8 v OR ucast b) bs 0"

abbreviation be64 :: "u64 \<Rightarrow> byte list" where
  "be64 \<equiv> be_bytes 8"

lemma length_be_bytes [simp, codec_simps]: "length (be_bytes n w) = n"
  by (simp add: be_bytes_def)

lemma of_be_snoc: "of_be (bs @ [b]) = push_bit 8 (of_be bs) OR ucast b"
  by (simp add: of_be_def)

lemma bit_shift_in:
  "bit (push_bit 8 v OR ucast (b :: byte) :: 'a::len word) n \<longleftrightarrow>
   n < LENGTH('a) \<and> (if n < 8 then bit b n else bit v (n - 8))"
  by (auto simp: bit_simps dest: bit_imp_le_length)

lemma bit_of_be:
  "8 * length bs \<le> LENGTH('a::len) \<Longrightarrow>
   bit (of_be bs :: 'a word) n \<longleftrightarrow> n < 8 * length bs \<and> bit (rev bs ! (n div 8)) (n mod 8)"
proof (induction bs arbitrary: n rule: rev_induct)
  case Nil
  then show ?case by (simp add: of_be_def)
next
  case (snoc b bs)
  show ?case
  proof (cases "n < 8")
    case True
    with snoc.prems show ?thesis by (simp add: of_be_snoc bit_shift_in)
  next
    case False
    then obtain m where n: "n = m + 8" by (metis le_add_diff_inverse2 not_less)
    have "8 * length bs \<le> LENGTH('a)" using snoc.prems by simp
    note IH = snoc.IH [OF this, of m]
    have "bit (of_be (bs @ [b]) :: 'a word) n \<longleftrightarrow> m + 8 < LENGTH('a) \<and> bit (of_be bs :: 'a word) m"
      by (simp add: of_be_snoc bit_shift_in n)
    also have "\<dots> \<longleftrightarrow> n < 8 * length (bs @ [b]) \<and> bit (rev bs ! (m div 8)) (m mod 8)"
      using IH snoc.prems n by auto
    finally show ?thesis by (simp add: n div_add_self2)
  qed
qed

lemma of_be_be_bytes [codec_simps]:
  "LENGTH('a) = 8 * n \<Longrightarrow> of_be (be_bytes n w) = (w :: 'a::len word)"
proof (rule bit_word_eqI)
  fix k
  assume len: "LENGTH('a) = 8 * n" and k: "k < LENGTH('a)"
  then have "k div 8 < n" by (simp add: less_mult_imp_div_less mult.commute)
  then have "rev (be_bytes n w) ! (k div 8) = ucast (drop_bit (8 * (k div 8)) w)"
    by (simp add: be_bytes_def rev_nth)
  with len k show "bit (of_be (be_bytes n w) :: 'a word) k = bit w k"
    by (simp add: bit_of_be bit_simps)
qed

lemma be_bytes_of_be [codec_simps]:
  assumes "LENGTH('a::len) = 8 * n" "length bs = n"
  shows "be_bytes n (of_be bs :: 'a word) = bs"
proof (rule nth_equalityI)
  fix i assume "i < length (be_bytes n (of_be bs :: 'a word))"
  then have i: "i < n" by simp
  show "be_bytes n (of_be bs :: 'a word) ! i = bs ! i"
  proof (rule bit_word_eqI)
    fix k assume k: "k < LENGTH(8)"
    have "8 * (n - 1 - i) + k < 8 * n" using i k by simp
    moreover have "rev bs ! (n - 1 - i) = bs ! i" using i assms(2) by (simp add: rev_nth)
    ultimately show "bit (be_bytes n (of_be bs :: 'a word) ! i) k = bit (bs ! i) k"
      using i k assms by (simp add: be_bytes_def bit_of_be bit_simps)
  qed
qed (use assms in simp)

section \<open>Unsigned decimal strings (\<^verbatim>\<open>std::to_string\<close>, \<^verbatim>\<open>strtoull\<close>)\<close>

definition digit_char :: "nat \<Rightarrow> char" where
  "digit_char d = char_of (48 + d)"

definition is_digit :: "char \<Rightarrow> bool" where
  "is_digit c \<longleftrightarrow> 48 \<le> (of_char c :: nat) \<and> (of_char c :: nat) \<le> 57"

definition digit_val :: "char \<Rightarrow> nat" where
  "digit_val c = of_char c - 48"

fun to_string :: "nat \<Rightarrow> string" where
  "to_string n = (if n < 10 then [digit_char n] else to_string (n div 10) @ [digit_char (n mod 10)])"

declare to_string.simps [simp del]

text \<open>The value of a run of decimal digits, most significant first.\<close>

definition dec_val :: "string \<Rightarrow> nat" where
  "dec_val s = fold (\<lambda>c v. v * 10 + digit_val c) s 0"

lemma dec_val_append_digit: "dec_val (s @ [c]) = dec_val s * 10 + digit_val c"
  by (simp add: dec_val_def)

lemma digit_val_char [simp]: "d < 10 \<Longrightarrow> digit_val (digit_char d) = d"
  by (simp add: digit_val_def digit_char_def take_bit_nat_def of_char_of)

lemma is_digit_char [simp]: "d < 10 \<Longrightarrow> is_digit (digit_char d)"
  by (simp add: is_digit_def digit_char_def take_bit_nat_def of_char_of)

lemma dec_val_to_string [simp]: "dec_val (to_string n) = n"
proof (induction n rule: to_string.induct)
  case (1 n)
  show ?case
  proof (cases "n < 10")
    case True
    then show ?thesis by (subst to_string.simps) (simp add: dec_val_def)
  next
    case False
    with "1.IH" show ?thesis by (subst to_string.simps) (simp add: dec_val_append_digit)
  qed
qed

lemma to_string_digits: "c \<in> set (to_string n) \<Longrightarrow> is_digit c"
proof (induction n rule: to_string.induct)
  case (1 n)
  then show ?case by (subst (asm) to_string.simps) (auto split: if_splits)
qed

lemma to_string_nonempty [simp]: "to_string n \<noteq> []"
  by (subst to_string.simps) simp

lemma to_string_inj: "to_string m = to_string n \<Longrightarrow> m = n"
  by (metis dec_val_to_string)

text \<open>A timestamp that is later than the tip's, unless the tip's is the last one.\<close>

lemma less_max_succ: "unat (t :: u64) + 1 < 2 ^ 64 \<Longrightarrow> t < max n (t + 1)"
proof -
  assume "unat t + 1 < 2 ^ 64"
  then have "t < t + 1" by (simp add: word_less_nat_alt unat_add_lem [THEN iffD1])
  then show ?thesis by (simp only: less_max_iff_disj) simp
qed

end
