(* ===== verification/Codec.thy ===== *)
theory Codec
  imports Prelude
begin

text \<open>
  The interface the byte and text codecs share.  \<open>encoding\<close> is an encoder with a decoder that
  recovers every well-formed value; \<open>fixed_codec\<close> adds that the encoding is canonical (the decoder
  accepts nothing but encodings) and of one width.  The components that hash, frame or store
  encoded values use the facts proved here once, through an interpretation on their own functions.
\<close>

locale encoding =
  fixes enc :: "'a \<Rightarrow> 'b list"
    and dec :: "'b list \<Rightarrow> 'a option"
    and wf :: "'a \<Rightarrow> bool"
  assumes dec_enc: "wf x \<Longrightarrow> dec (enc x) = Some x"
begin

lemma enc_inj: "wf x \<Longrightarrow> wf y \<Longrightarrow> enc x = enc y \<Longrightarrow> x = y"
  by (metis dec_enc option.inject)

end

locale fixed_codec = encoding enc dec wf
  for enc :: "'a \<Rightarrow> 'b list" and dec :: "'b list \<Rightarrow> 'a option" and wf :: "'a \<Rightarrow> bool" +
  fixes width :: nat
  assumes enc_dec: "dec bs = Some x \<Longrightarrow> wf x \<and> enc x = bs"
    and enc_width: "wf x \<Longrightarrow> length (enc x) = width"
    and width_pos: "0 < width"
begin

lemma dec_iff: "dec bs = Some x \<longleftrightarrow> wf x \<and> bs = enc x"
  using dec_enc enc_dec by blast

lemma dec_width: "dec bs = Some x \<Longrightarrow> length bs = width"
  by (auto simp: dec_iff enc_width)

lemma dec_inj: "dec bs = Some x \<Longrightarrow> dec cs = Some x \<Longrightarrow> bs = cs"
  by (auto simp: dec_iff)

lemma concat_enc_length: "list_all wf xs \<Longrightarrow> length (concat (map enc xs)) = width * length xs"
  by (induction xs) (auto simp: enc_width)

lemma concat_enc_inj:
  assumes "list_all wf xs" "list_all wf ys" "concat (map enc xs) = concat (map enc ys)"
  shows "xs = ys"
proof (rule concat_map_inj_fixed_width [OF _ width_pos _ assms(3)])
  show "length (enc x) = width" if "x \<in> set xs \<union> set ys" for x
    using assms(1,2) that by (auto simp: enc_width list_all_iff)
  show "x = y" if "x \<in> set xs" "y \<in> set ys" "enc x = enc y" for x y
    using assms(1,2) that by (auto simp: list_all_iff intro: enc_inj)
qed

end

end
