(* ===== verification/Sha256.thy ===== *)
theory Sha256
  imports Prelude
begin

text \<open>
  The vendored SHA-256 (\<^verbatim>\<open>third_party/sha256/sha256.c\<close>) and the C++ facade over it
  (\<^verbatim>\<open>src/crypto/sha256.cpp\<close>): the streaming context, the compression function, padding, and
  the one-shot and streaming digests.  The lemmas show that the digest does not depend on the
  uninitialised part of the context, that absorbing chunks one after another is absorbing their
  concatenation, and that the streaming code computes the block-wise hash of the padded message.
\<close>

section \<open>The compression function\<close>

definition ROTRIGHT :: "u32 \<Rightarrow> nat \<Rightarrow> u32" where
  "ROTRIGHT a b = drop_bit b a OR push_bit (32 - b) a"

definition CH :: "u32 \<Rightarrow> u32 \<Rightarrow> u32 \<Rightarrow> u32" where
  "CH x y z = (x AND y) XOR (NOT x AND z)"

definition MAJ :: "u32 \<Rightarrow> u32 \<Rightarrow> u32 \<Rightarrow> u32" where
  "MAJ x y z = (x AND y) XOR (x AND z) XOR (y AND z)"

definition EP0 :: "u32 \<Rightarrow> u32" where
  "EP0 x = ROTRIGHT x 2 XOR ROTRIGHT x 13 XOR ROTRIGHT x 22"

definition EP1 :: "u32 \<Rightarrow> u32" where
  "EP1 x = ROTRIGHT x 6 XOR ROTRIGHT x 11 XOR ROTRIGHT x 25"

definition SIG0 :: "u32 \<Rightarrow> u32" where
  "SIG0 x = ROTRIGHT x 7 XOR ROTRIGHT x 18 XOR drop_bit 3 x"

definition SIG1 :: "u32 \<Rightarrow> u32" where
  "SIG1 x = ROTRIGHT x 17 XOR ROTRIGHT x 19 XOR drop_bit 10 x"

definition sha256_k :: "u32 list" where
  "sha256_k = concat [
    [0x428a2f98, 0x71374491, 0xb5c0fbcf, 0xe9b5dba5, 0x3956c25b, 0x59f111f1, 0x923f82a4, 0xab1c5ed5],
    [0xd807aa98, 0x12835b01, 0x243185be, 0x550c7dc3, 0x72be5d74, 0x80deb1fe, 0x9bdc06a7, 0xc19bf174],
    [0xe49b69c1, 0xefbe4786, 0x0fc19dc6, 0x240ca1cc, 0x2de92c6f, 0x4a7484aa, 0x5cb0a9dc, 0x76f988da],
    [0x983e5152, 0xa831c66d, 0xb00327c8, 0xbf597fc7, 0xc6e00bf3, 0xd5a79147, 0x06ca6351, 0x14292967],
    [0x27b70a85, 0x2e1b2138, 0x4d2c6dfc, 0x53380d13, 0x650a7354, 0x766a0abb, 0x81c2c92e, 0x92722c85],
    [0xa2bfe8a1, 0xa81a664b, 0xc24b8b70, 0xc76c51a3, 0xd192e819, 0xd6990624, 0xf40e3585, 0x106aa070],
    [0x19a4c116, 0x1e376c08, 0x2748774c, 0x34b0bcb5, 0x391c0cb3, 0x4ed8aa4a, 0x5b9cca4f, 0x682e6ff3],
    [0x748f82ee, 0x78a5636f, 0x84c87814, 0x8cc70208, 0x90befffa, 0xa4506ceb, 0xbef9a3f7, 0xc67178f2]]"

text \<open>The first sixteen schedule words: big-endian groups of four bytes of the block.\<close>

definition be_word :: "byte \<Rightarrow> byte \<Rightarrow> byte \<Rightarrow> byte \<Rightarrow> u32" where
  "be_word b0 b1 b2 b3 =
     push_bit 24 (ucast b0) OR push_bit 16 (ucast b1) OR push_bit 8 (ucast b2) OR ucast b3"

fun load_words :: "byte list \<Rightarrow> u32 list" where
  "load_words (b0 # b1 # b2 # b3 # bs) = be_word b0 b1 b2 b3 # load_words bs"
| "load_words _ = []"

text \<open>The loop \<open>for (; i < 64; ++i)\<close>: the index \<open>i\<close> is the number of words computed so far.\<close>

fun extend_words :: "nat \<Rightarrow> u32 list \<Rightarrow> u32 list" where
  "extend_words 0 m = m"
| "extend_words (Suc n) m = extend_words n (m @
     [let i = length m in SIG1 (m ! (i - 2)) + m ! (i - 7) + SIG0 (m ! (i - 15)) + m ! (i - 16)])"

datatype work_vars = WV u32 u32 u32 u32 u32 u32 u32 u32

fun sha256_round :: "u32 \<times> u32 \<Rightarrow> work_vars \<Rightarrow> work_vars" where
  "sha256_round (ki, mi) (WV a b c d e f g h) =
     (let t1 = h + EP1 e + CH e f g + ki + mi;
          t2 = EP0 a + MAJ a b c
      in WV (t1 + t2) a b c (d + t1) e f g)"

fun work_of :: "u32 list \<Rightarrow> work_vars" where
  "work_of s = WV (s ! 0) (s ! 1) (s ! 2) (s ! 3) (s ! 4) (s ! 5) (s ! 6) (s ! 7)"

fun add_work :: "u32 list \<Rightarrow> work_vars \<Rightarrow> u32 list" where
  "add_work s (WV a b c d e f g h) =
     [s ! 0 + a, s ! 1 + b, s ! 2 + c, s ! 3 + d, s ! 4 + e, s ! 5 + f, s ! 6 + g, s ! 7 + h]"

definition compress :: "u32 list \<Rightarrow> byte list \<Rightarrow> u32 list" where
  "compress s blk =
     add_work s (fold sha256_round (zip sha256_k (extend_words 48 (load_words blk))) (work_of s))"

section \<open>The streaming context\<close>

record sha256_ctx =
  ctx_data :: "byte list"
  ctx_datalen :: u32
  ctx_bitlen :: u64
  ctx_state :: "u32 list"

definition sha256_iv :: "u32 list" where
  "sha256_iv = [0x6a09e667, 0xbb67ae85, 0x3c6ef372, 0xa54ff53a,
                0x510e527f, 0x9b05688c, 0x1f83d9ab, 0x5be0cd19]"

text \<open>
  \<^verbatim>\<open>sha256_init\<close> does not touch \<open>data\<close>: the facade hands it uninitialised memory, so the
  context before the call is an argument.
\<close>

definition sha256_init :: "sha256_ctx \<Rightarrow> sha256_ctx" where
  "sha256_init c = c\<lparr>ctx_datalen := 0, ctx_bitlen := 0, ctx_state := sha256_iv\<rparr>"

definition sha256_transform :: "sha256_ctx \<Rightarrow> sha256_ctx" where
  "sha256_transform c = c\<lparr>ctx_state := compress (ctx_state c) (ctx_data c)\<rparr>"

definition sha256_absorb :: "byte \<Rightarrow> sha256_ctx \<Rightarrow> sha256_ctx" where
  "sha256_absorb b c =
     (let c1 = c\<lparr>ctx_data := (ctx_data c)[unat (ctx_datalen c) := b],
                 ctx_datalen := ctx_datalen c + 1\<rparr>
      in if ctx_datalen c1 = 64
         then (sha256_transform c1)\<lparr>ctx_bitlen := ctx_bitlen c1 + 512, ctx_datalen := 0\<rparr>
         else c1)"

definition sha256_update :: "sha256_ctx \<Rightarrow> byte list \<Rightarrow> sha256_ctx" where
  "sha256_update c bs = fold sha256_absorb bs c"

text \<open>The padding loops \<open>while (i < n) data[i++] = 0x00\<close>: \<open>k\<close> steps from index \<open>i\<close>.\<close>

fun fill_zero :: "nat \<Rightarrow> nat \<Rightarrow> byte list \<Rightarrow> byte list" where
  "fill_zero i 0 d = d"
| "fill_zero i (Suc k) d = fill_zero (Suc i) k (d[i := 0])"

definition be64_tail :: "u64 \<Rightarrow> byte list \<Rightarrow> byte list" where
  "be64_tail n d = d[63 := ucast n, 62 := ucast (drop_bit 8 n), 61 := ucast (drop_bit 16 n),
     60 := ucast (drop_bit 24 n), 59 := ucast (drop_bit 32 n), 58 := ucast (drop_bit 40 n),
     57 := ucast (drop_bit 48 n), 56 := ucast (drop_bit 56 n)]"

definition sha256_pad :: "sha256_ctx \<Rightarrow> sha256_ctx" where
  "sha256_pad c =
     (let i = unat (ctx_datalen c);
          d = (ctx_data c)[i := 0x80]
      in if ctx_datalen c < 56
         then c\<lparr>ctx_data := fill_zero (Suc i) (56 - Suc i) d\<rparr>
         else let c1 = sha256_transform (c\<lparr>ctx_data := fill_zero (Suc i) (64 - Suc i) d\<rparr>)
              in c1\<lparr>ctx_data := fill_zero 0 56 (ctx_data c1)\<rparr>)"

definition emit_word :: "u32 \<Rightarrow> byte list" where
  "emit_word w = map (\<lambda>i. ucast (drop_bit (24 - i * 8) w AND 0xff)) [0..<4]"

definition sha256_final :: "sha256_ctx \<Rightarrow> byte list" where
  "sha256_final c =
     (let c1 = sha256_pad c;
          n = ctx_bitlen c1 + ucast (ctx_datalen c1) * 8;
          c2 = sha256_transform (c1\<lparr>ctx_bitlen := n, ctx_data := be64_tail n (ctx_data c1)\<rparr>)
      in concat (map emit_word (take 8 (ctx_state c2))))"

section \<open>The facade\<close>

text \<open>
  \<open>digest_from c data\<close> is the one-shot digest run on the uninitialised context \<open>c\<close>; the digest
  functions fix one such context, and \<open>digest_from_eq\<close> below shows that any other gives the same
  result.  \<open>sha256_stream\<close> is the class \<^verbatim>\<open>Sha256\<close>: construct, update with each chunk, final.
\<close>

definition blank_ctx :: sha256_ctx where
  "blank_ctx = \<lparr>ctx_data = replicate 64 0, ctx_datalen = 0, ctx_bitlen = 0,
                ctx_state = replicate 8 0\<rparr>"

definition digest_from :: "sha256_ctx \<Rightarrow> byte list \<Rightarrow> byte list" where
  "digest_from c data =
     (let c1 = sha256_init c
      in sha256_final (if data \<noteq> [] then sha256_update c1 data else c1))"

definition sha256 :: "byte list \<Rightarrow> byte list" where
  "sha256 data = digest_from blank_ctx data"

definition Sha256_update :: "sha256_ctx \<Rightarrow> byte list \<Rightarrow> sha256_ctx" where
  "Sha256_update c chunk = (if chunk \<noteq> [] then sha256_update c chunk else c)"

definition sha256_stream :: "byte list list \<Rightarrow> byte list" where
  "sha256_stream chunks =
     sha256_final (fold (\<lambda>ch c. Sha256_update c ch) chunks (sha256_init blank_ctx))"

definition sha256d :: "byte list \<Rightarrow> byte list" where
  "sha256d data = (let first = sha256 data in sha256 first)"

section \<open>Reference: the block-wise hash of the padded message\<close>

definition pad_zeros :: "nat \<Rightarrow> nat" where
  "pad_zeros n = (119 - n mod 64) mod 64"

definition sha_padding :: "byte list \<Rightarrow> byte list" where
  "sha_padding msg = msg @ 0x80 # replicate (pad_zeros (length msg)) 0 @ be64 (of_nat (8 * length msg))"

function hash_blocks :: "u32 list \<Rightarrow> byte list \<Rightarrow> u32 list" where
  "hash_blocks s bs =
     (if length bs < 64 then s else hash_blocks (compress s (take 64 bs)) (drop 64 bs))"
  by pat_completeness auto
termination
  by (relation "measure (\<lambda>(s, bs). length bs)") auto

declare hash_blocks.simps [simp del]

definition sha256_spec :: "byte list \<Rightarrow> byte list" where
  "sha256_spec msg = concat (map emit_word (hash_blocks sha256_iv (sha_padding msg)))"

section \<open>Absorbing\<close>

lemma sha256_update_Nil [simp]: "sha256_update c [] = c"
  by (simp add: sha256_update_def)

lemma sha256_update_append: "sha256_update c (xs @ ys) = sha256_update (sha256_update c xs) ys"
  by (simp add: sha256_update_def)

lemma Sha256_update_eq [simp]: "Sha256_update c ch = sha256_update c ch"
  by (simp add: Sha256_update_def)

lemma fold_Sha256_update:
  "fold (\<lambda>ch c. Sha256_update c ch) chunks c = sha256_update c (concat chunks)"
  by (induction chunks arbitrary: c) (auto simp: sha256_update_append)

lemma length_compress [simp]: "length (compress s blk) = 8"
  by (cases "fold sha256_round (zip sha256_k (extend_words 48 (load_words blk))) (work_of s)")
    (simp add: compress_def)

lemma hash_blocks_short [simp]: "length bs < 64 \<Longrightarrow> hash_blocks s bs = s"
  by (subst hash_blocks.simps) simp

lemma length_hash_blocks: "length s = 8 \<Longrightarrow> length (hash_blocks s bs) = 8"
proof (induction s bs rule: hash_blocks.induct)
  case (1 s bs)
  then show ?case by (simp add: hash_blocks.simps [of s bs])
qed

lemma hash_blocks_append:
  "length xs = 64 * k \<Longrightarrow> hash_blocks s (xs @ ys) = hash_blocks (hash_blocks s xs) ys"
proof (induction k arbitrary: s xs)
  case 0
  then show ?case by simp
next
  case (Suc k)
  from Suc.prems have len: "length (drop 64 xs) = 64 * k" "\<not> length xs < 64" by auto
  then show ?case
    using Suc.IH [OF len(1), of "compress s (take 64 xs)"]
    by (simp add: hash_blocks.simps [of s "xs @ ys"] hash_blocks.simps [of s xs])
qed

lemma hash_blocks_one: "length xs = 64 \<Longrightarrow> hash_blocks s xs = compress s xs"
  by (simp add: hash_blocks.simps [of s xs])

section \<open>The streaming code computes the reference\<close>

definition sha_inv :: "sha256_ctx \<Rightarrow> byte list \<Rightarrow> byte list \<Rightarrow> bool" where
  "sha_inv c full rest \<longleftrightarrow>
     64 dvd length full \<and> length rest < 64 \<and> length (ctx_data c) = 64 \<and>
     ctx_datalen c = of_nat (length rest) \<and> take (length rest) (ctx_data c) = rest \<and>
     ctx_bitlen c = of_nat (8 * length full) \<and> ctx_state c = hash_blocks sha256_iv full"

lemma unat_datalen: "r < 64 \<Longrightarrow> unat (of_nat r :: u32) = r"
  by (simp add: unat_of_nat)

lemma datalen_next: "r < 64 \<Longrightarrow> (1 + of_nat r = (64 :: u32)) \<longleftrightarrow> r = 63"
  using word_of_nat_eq_iff [where ?'a = 32, of "Suc r" 64] by (simp add: take_bit_nat_def)

lemma sha_inv_init: "length (ctx_data c) = 64 \<Longrightarrow> sha_inv (sha256_init c) [] []"
  by (simp add: sha_inv_def sha256_init_def)

lemma take_update_snoc: "n < length xs \<Longrightarrow> take (Suc n) (xs[n := y]) = take n xs @ [y]"
  by (simp add: take_Suc_conv_app_nth)

lemma sha_inv_absorb_part:
  assumes "sha_inv c full rest" "length rest \<noteq> 63"
  shows "sha_inv (sha256_absorb b c) full (rest @ [b])"
  using assms datalen_next [of "length rest"]
  by (auto simp: sha_inv_def sha256_absorb_def Let_def unat_datalen take_update_snoc add.commute)

lemma sha_inv_absorb_full:
  assumes "sha_inv c full rest" "length rest = 63"
  shows "sha_inv (sha256_absorb b c) (full @ rest @ [b]) []"
proof -
  note inv = assms(1) [unfolded sha_inv_def]
  have "(ctx_data c)[63 := b] = take 64 ((ctx_data c)[63 := b])"
    using inv by simp
  also have "\<dots> = rest @ [b]"
    using inv assms(2) take_update_snoc [of 63 "ctx_data c" b] by simp
  finally have data: "(ctx_data c)[63 := b] = rest @ [b]" .
  from inv obtain k where k: "length full = 64 * k" by (auto elim: dvdE)
  have "hash_blocks sha256_iv (full @ rest @ [b]) = compress (ctx_state c) (rest @ [b])"
    using inv assms(2) hash_blocks_append [OF k, of sha256_iv "rest @ [b]"]
    by (simp add: hash_blocks_one)
  moreover from inv assms(2) have "unat (ctx_datalen c) = 63" "ctx_datalen c + 1 = 64"
    by simp_all
  ultimately show ?thesis
    using inv assms(2) data
    by (simp add: sha_inv_def sha256_absorb_def sha256_transform_def Let_def add.commute)
qed

lemma sha_inv_update:
  "sha_inv c full rest \<Longrightarrow>
   \<exists>full' rest'. full' @ rest' = full @ rest @ bs \<and> sha_inv (sha256_update c bs) full' rest'"
proof (induction bs arbitrary: c full rest)
  case Nil
  then show ?case by auto
next
  case (Cons b bs)
  have step: "sha256_update c (b # bs) = sha256_update (sha256_absorb b c) bs"
    by (simp add: sha256_update_def)
  show ?case
  proof (cases "length rest = 63")
    case True
    from Cons.IH [OF sha_inv_absorb_full [OF Cons.prems True, of b]] show ?thesis
      by (simp add: step)
  next
    case False
    from Cons.IH [OF sha_inv_absorb_part [OF Cons.prems False, of b]] show ?thesis
      by (simp add: step)
  qed
qed

section \<open>Padding\<close>

lemma fill_zero_eq:
  "i + k \<le> length d \<Longrightarrow> fill_zero i k d = take i d @ replicate k 0 @ drop (i + k) d"
proof (induction k arbitrary: i d)
  case 0
  then show ?case by simp
next
  case (Suc k)
  then have "i < length d" by simp
  with Suc show ?case by (simp add: take_update_snoc)
qed

lemma list8: "length ys = 8 \<Longrightarrow> \<exists>a b c d e f g h. ys = [a, b, c, d, e, f, g, h]"
  by (auto simp: numeral_eq_Suc length_Suc_conv)

lemma be64_tail_eq:
  assumes "length d = 64"
  shows "be64_tail n d = take 56 d @ be64 n"
proof -
  have "length (drop 56 d) = 8" using assms by simp
  then obtain a b c e f g h i where "drop 56 d = [a, b, c, e, f, g, h, i]"
    using list8 by blast
  then have d: "d = take 56 d @ [a, b, c, e, f, g, h, i]" by (metis append_take_drop_id)
  have upd: "be64_tail n (xs @ [a, b, c, e, f, g, h, i]) = xs @ be64 n" if "length xs = 56" for xs
    using that by (simp add: be64_tail_def be_bytes_def list_update_append upt_rec)
  show ?thesis using upd [of "take 56 d"] d assms by simp
qed

lemma pad_zeros_add: "64 dvd a \<Longrightarrow> pad_zeros (a + r) = pad_zeros r"
  by (auto simp: pad_zeros_def elim!: dvdE)

lemma pad_zeros_short: "r < 56 \<Longrightarrow> pad_zeros r = 55 - r"
  by (simp add: pad_zeros_def mod_if)

lemma pad_zeros_long: "56 \<le> r \<Longrightarrow> r < 64 \<Longrightarrow> pad_zeros r = (63 - r) + 56"
  by (simp add: pad_zeros_def mod_if)

lemma sha_inv_bitlen:
  "sha_inv c full rest \<Longrightarrow>
   ctx_bitlen c + ucast (ctx_datalen c) * 8 = of_nat (8 * length (full @ rest))"
proof -
  assume inv: "sha_inv c full rest"
  then have "(ucast (ctx_datalen c) :: u64) = of_nat (length rest)"
    by (simp add: sha_inv_def unsigned_of_nat take_bit_nat_def)
  with inv show ?thesis by (simp add: sha_inv_def algebra_simps)
qed

lemma pad_data:
  assumes "length (ctx_data c) = 64" "r < m" "m \<le> 64" "take r (ctx_data c) = rest" "length rest = r"
  shows "take m (fill_zero (Suc r) (m - Suc r) ((ctx_data c)[r := 0x80])) =
         rest @ 0x80 # replicate (m - Suc r) 0"
proof -
  have "take (Suc r) ((ctx_data c)[r := 0x80]) = rest @ [0x80]"
    using assms by (simp add: take_update_snoc)
  then show ?thesis using assms by (simp add: fill_zero_eq take_Cons' Suc_diff_Suc)
qed

lemma sha256_final_short:
  assumes inv: "sha_inv c full rest" and r: "length rest < 56"
  shows "sha256_final c = concat (map emit_word (hash_blocks sha256_iv (sha_padding (full @ rest))))"
proof -
  let ?n = "of_nat (8 * length (full @ rest)) :: u64"
  let ?blk = "rest @ 0x80 # replicate (55 - length rest) 0 @ be64 ?n"
  note i = inv [unfolded sha_inv_def]
  from r have lt: "ctx_datalen c < 56" and un: "unat (ctx_datalen c) = length rest"
    using i by (simp_all add: word_less_nat_alt unat_datalen)
  let ?d = "fill_zero (Suc (length rest)) (55 - length rest) ((ctx_data c)[length rest := 0x80])"
  have "take 56 ?d = rest @ 0x80 # replicate (55 - length rest) 0"
    using i r pad_data [of c "length rest" 56 rest] by simp
  moreover have "length ?d = 64"
    using i r by (simp add: fill_zero_eq)
  ultimately have blk: "be64_tail ?n ?d = ?blk" by (simp add: be64_tail_eq)
  have len: "length ?blk = 64" using r by simp
  from i obtain k where k: "length full = 64 * k" by (auto elim: dvdE)
  have pad: "sha_padding (full @ rest) = full @ ?blk"
    using i r by (simp add: sha_padding_def pad_zeros_add pad_zeros_short)
  have "hash_blocks sha256_iv (full @ ?blk) = compress (ctx_state c) ?blk"
    using i hash_blocks_append [OF k] hash_blocks_one [OF len] by simp
  then show ?thesis
    using lt un blk sha_inv_bitlen [OF inv] unfolding pad
    by (simp add: sha256_final_def sha256_pad_def sha256_transform_def Let_def)
qed

lemma sha256_final_long:
  assumes inv: "sha_inv c full rest" and r: "56 \<le> length rest"
  shows "sha256_final c = concat (map emit_word (hash_blocks sha256_iv (sha_padding (full @ rest))))"
proof -
  let ?n = "of_nat (8 * length (full @ rest)) :: u64"
  let ?b1 = "rest @ 0x80 # replicate (63 - length rest) 0"
  let ?b2 = "replicate 56 0 @ be64 ?n"
  note i = inv [unfolded sha_inv_def]
  from r have lt: "\<not> ctx_datalen c < 56" and un: "unat (ctx_datalen c) = length rest"
    using i by (simp_all add: word_less_nat_alt unat_datalen)
  let ?d = "fill_zero (Suc (length rest)) (63 - length rest) ((ctx_data c)[length rest := 0x80])"
  have d: "?d = ?b1"
    using i r pad_data [of c "length rest" 64 rest] by (simp add: fill_zero_eq)
  have len: "length ?b1 = 64 * 1" "length ?b2 = 64" using i r by auto
  have blk: "be64_tail ?n (fill_zero 0 56 ?b1) = ?b2"
    using len by (simp add: fill_zero_eq be64_tail_eq)
  from i obtain k where k: "length full = 64 * k" by (auto elim: dvdE)
  have pad: "sha_padding (full @ rest) = full @ ?b1 @ ?b2"
    using i r by (simp add: sha_padding_def pad_zeros_add pad_zeros_long flip: replicate_add)
  have "hash_blocks sha256_iv (full @ ?b1 @ ?b2) = compress (compress (ctx_state c) ?b1) ?b2"
    using i hash_blocks_append [OF k] hash_blocks_append [OF len(1)] hash_blocks_one len by simp
  then show ?thesis
    using lt un blk d sha_inv_bitlen [OF inv] unfolding pad
    by (simp add: sha256_final_def sha256_pad_def sha256_transform_def Let_def)
qed

lemma digest_from_update: "digest_from c data = sha256_final (sha256_update (sha256_init c) data)"
  by (simp add: digest_from_def Let_def)

lemma digest_from_spec: "length (ctx_data c) = 64 \<Longrightarrow> digest_from c data = sha256_spec data"
proof -
  assume "length (ctx_data c) = 64"
  from sha_inv_update [OF sha_inv_init [OF this], of data] obtain full rest
    where "full @ rest = data" "sha_inv (sha256_update (sha256_init c) data) full rest" by auto
  then show ?thesis
    using sha256_final_short sha256_final_long [OF _ leI]
    by (cases "length rest < 56") (auto simp: sha256_spec_def digest_from_update)
qed

lemma sha256_eq_spec: "sha256 data = sha256_spec data"
  by (simp add: sha256_def digest_from_spec blank_ctx_def)

lemma length_sha256 [simp, codec_simps]: "length (sha256 data) = 32"
  by (simp add: sha256_eq_spec sha256_spec_def length_hash_blocks sha256_iv_def emit_word_def
      length_concat_const [where k = 4])

lemma sha256_stream_concat: "sha256_stream chunks = sha256 (concat chunks)"
  using fold_Sha256_update [of chunks]
  by (simp add: sha256_stream_def sha256_def digest_from_update)
end
