(* ===== verification/Canonical.thy ===== *)
theory Canonical
  imports Codec Sha256
begin

text \<open>
  The canonical data model and its serializer (\<^verbatim>\<open>serialize/types.hpp\<close>, \<^verbatim>\<open>serialize/canonical.cpp\<close>):
  transactions, block headers and blocks, the fixed-width big-endian byte form that is hashed and
  signed, the decoders, and the derived values txid, txnsHash and blockHash.

  A fixed-width \<^verbatim>\<open>std::array<Byte, N>\<close> is a byte list; its width, which the C++ type carries, is
  the well-formedness of the record that holds it.  The writers keep the output buffer and the
  running offset as the code does, and the lemmas show that the offset ends exactly at the size of
  the buffer.
\<close>

section \<open>Records\<close>

definition kTxnSize :: nat where "kTxnSize = 153"
definition kHeaderSize :: nat where "kHeaderSize = 88"
definition kSignedPayloadSize :: nat where "kSignedPayloadSize = 89"
definition kTxnVersion :: byte where "kTxnVersion = 0x01"

record txn =
  tx_ver :: byte
  tx_from :: "byte list"
  tx_to :: "byte list"
  tx_amount :: u64
  tx_nonce :: u64
  tx_pubkey :: "byte list"
  tx_sig :: "byte list"

record block_header =
  bh_index :: u64
  bh_timestamp :: u64
  bh_prevHash :: "byte list"
  bh_txnsHash :: "byte list"
  bh_nonce :: u64

record block =
  blk_header :: block_header
  blk_txns :: "txn list"

text \<open>The widths of the array members.\<close>

definition txn_widths :: "txn \<Rightarrow> bool" where
  "txn_widths t \<longleftrightarrow> length (tx_from t) = 20 \<and> length (tx_to t) = 20 \<and>
     length (tx_pubkey t) = 32 \<and> length (tx_sig t) = 64"

definition header_widths :: "block_header \<Rightarrow> bool" where
  "header_widths h \<longleftrightarrow> length (bh_prevHash h) = 32 \<and> length (bh_txnsHash h) = 32"

definition block_widths :: "block \<Rightarrow> bool" where
  "block_widths b \<longleftrightarrow> header_widths (blk_header b) \<and> list_all txn_widths (blk_txns b)"

section \<open>Writing into and reading from the buffer\<close>

type_synonym cursor = "byte list \<times> nat"

fun put_u8 :: "byte \<Rightarrow> cursor \<Rightarrow> cursor" where
  "put_u8 v (p, off) = (p[off := v], off + 1)"

definition put_u64 :: "u64 \<Rightarrow> cursor \<Rightarrow> cursor" where
  "put_u64 v = fold (\<lambda>i (p, off). (p[off := ucast (drop_bit (i * 8) v AND 0xFF)], off + 1))
                 [7, 6, 5, 4, 3, 2, 1, 0]"

definition put_arr :: "byte list \<Rightarrow> cursor \<Rightarrow> cursor" where
  "put_arr a = fold (\<lambda>x (p, off). (p[off := x], off + 1)) a"

definition get_u64 :: "byte list \<Rightarrow> nat \<Rightarrow> u64 \<times> nat" where
  "get_u64 p off = fold (\<lambda>_ (v, off). (push_bit 8 v OR ucast (p ! off), off + 1)) [0..<8] (0, off)"

definition get_arr :: "nat \<Rightarrow> byte list \<Rightarrow> nat \<Rightarrow> byte list \<times> nat" where
  "get_arr n p off = fold (\<lambda>_ (a, off). (a @ [p ! off], off + 1)) [0..<n] ([], off)"

section \<open>Canonical form\<close>

definition serialize_txn_at :: "txn \<Rightarrow> cursor \<Rightarrow> cursor" where
  "serialize_txn_at tx out =
     (let out = put_u8 (tx_ver tx) out;
          out = put_arr (tx_from tx) out;
          out = put_arr (tx_to tx) out;
          out = put_u64 (tx_amount tx) out;
          out = put_u64 (tx_nonce tx) out;
          out = put_arr (tx_pubkey tx) out
      in put_arr (tx_sig tx) out)"

definition serialize_txn :: "txn \<Rightarrow> byte list" where
  "serialize_txn tx = fst (serialize_txn_at tx (replicate kTxnSize 0, 0))"

definition serialize_header_at :: "block_header \<Rightarrow> cursor \<Rightarrow> cursor" where
  "serialize_header_at h out =
     (let out = put_u64 (bh_index h) out;
          out = put_u64 (bh_timestamp h) out;
          out = put_arr (bh_prevHash h) out;
          out = put_arr (bh_txnsHash h) out
      in put_u64 (bh_nonce h) out)"

definition serialize_header :: "block_header \<Rightarrow> byte list" where
  "serialize_header h = fst (serialize_header_at h (replicate kHeaderSize 0, 0))"

definition deserialize_txn :: "byte list \<Rightarrow> txn option" where
  "deserialize_txn bytes =
     (if length bytes \<noteq> kTxnSize then None
      else if bytes ! 0 \<noteq> kTxnVersion then None
      else let off = 0;
               ver = bytes ! off; off = off + 1;
               (from, off) = get_arr 20 bytes off;
               (to, off) = get_arr 20 bytes off;
               (amount, off) = get_u64 bytes off;
               (nonce, off) = get_u64 bytes off;
               (pubkey, off) = get_arr 32 bytes off;
               (sig, off) = get_arr 64 bytes off
           in Some \<lparr>tx_ver = ver, tx_from = from, tx_to = to, tx_amount = amount,
                    tx_nonce = nonce, tx_pubkey = pubkey, tx_sig = sig\<rparr>)"

definition deserialize_header :: "byte list \<Rightarrow> block_header option" where
  "deserialize_header bytes =
     (if length bytes \<noteq> kHeaderSize then None
      else let off = 0;
               (index, off) = get_u64 bytes off;
               (timestamp, off) = get_u64 bytes off;
               (prevHash, off) = get_arr 32 bytes off;
               (txnsHash, off) = get_arr 32 bytes off;
               (nonce, off) = get_u64 bytes off
           in Some \<lparr>bh_index = index, bh_timestamp = timestamp, bh_prevHash = prevHash,
                    bh_txnsHash = txnsHash, bh_nonce = nonce\<rparr>)"

section \<open>Derived values\<close>

definition signed_payload :: "txn \<Rightarrow> byte list" where
  "signed_payload tx = (let full = serialize_txn tx in map (\<lambda>i. full ! i) [0..<kSignedPayloadSize])"

definition txid :: "txn \<Rightarrow> byte list" where
  "txid tx = sha256 (serialize_txn tx)"

definition txns_hash :: "txn list \<Rightarrow> byte list" where
  "txns_hash txns =
     sha256_final (fold (\<lambda>t h. Sha256_update h (serialize_txn t)) txns (sha256_init blank_ctx))"

definition block_hash :: "block_header \<Rightarrow> byte list" where
  "block_hash h = sha256 (serialize_header h)"

definition computeTxnsHash :: "block \<Rightarrow> byte list" where
  "computeTxnsHash b = txns_hash (blk_txns b)"

section \<open>The writers append\<close>

lemma fold_write:
  "off + length bs \<le> length p \<Longrightarrow>
   fold (\<lambda>x (p, off). (p[off := f x], off + 1)) bs (p, off) =
     (take off p @ map f bs @ drop (off + length bs) p, off + length bs)"
proof (induction bs arbitrary: p off)
  case Nil
  then show ?case by simp
next
  case (Cons b bs)
  then show ?case by (simp add: take_update_snoc)
qed

lemma be64_shifts: "map (\<lambda>i. ucast (drop_bit (i * 8) v AND 0xFF)) [7, 6, 5, 4, 3, 2, 1, 0] = be64 v"
proof -
  have mask: "(0xFF :: u64) = mask 8" by (simp add: mask_eq_exp_minus_1)
  have "ucast (w AND 0xFF) = (ucast w :: byte)" for w :: u64
    unfolding mask by (intro bit_word_eqI) (auto simp: bit_simps)
  then show ?thesis by (simp add: be_bytes_def upt_rec)
qed

definition fill :: "byte list \<Rightarrow> nat \<Rightarrow> cursor" where
  "fill done n = (done @ replicate (n - length done) 0, length done)"

lemma put_arr_fill: "length done + length a \<le> n \<Longrightarrow> put_arr a (fill done n) = fill (done @ a) n"
  using fold_write [of "length done" a "done @ replicate (n - length done) 0" "\<lambda>x. x"]
  by (simp add: put_arr_def fill_def)

lemma put_u8_fill: "length done < n \<Longrightarrow> put_u8 v (fill done n) = fill (done @ [v]) n"
  using put_arr_fill [of "done" "[v]" n] by (simp add: put_arr_def fill_def)

lemma put_u64_fill: "length done + 8 \<le> n \<Longrightarrow> put_u64 v (fill done n) = fill (done @ be64 v) n"
  using fold_write [of "length done" "[7, 6, 5, 4, 3, 2, 1, 0]" "done @ replicate (n - length done) 0"
      "\<lambda>i. ucast (drop_bit (i * 8) v AND 0xFF)"] be64_shifts [of v]
  by (simp only: put_u64_def fill_def) (simp add: fill_def)

lemmas put_fill = put_arr_fill put_u8_fill put_u64_fill

lemma serialize_txn_at_fill:
  "txn_widths t \<Longrightarrow> serialize_txn_at t (replicate kTxnSize 0, 0) =
   fill (tx_ver t # tx_from t @ tx_to t @ be64 (tx_amount t) @ be64 (tx_nonce t) @
         tx_pubkey t @ tx_sig t) kTxnSize"
proof -
  assume "txn_widths t"
  moreover have "(replicate kTxnSize 0, 0) = fill [] kTxnSize" by (simp add: fill_def)
  ultimately show ?thesis
    by (simp add: serialize_txn_at_def put_fill txn_widths_def kTxnSize_def Let_def del: put_u8.simps)
qed

lemma serialize_header_at_fill:
  "header_widths h \<Longrightarrow> serialize_header_at h (replicate kHeaderSize 0, 0) =
   fill (be64 (bh_index h) @ be64 (bh_timestamp h) @ bh_prevHash h @ bh_txnsHash h @
         be64 (bh_nonce h)) kHeaderSize"
proof -
  assume "header_widths h"
  moreover have "(replicate kHeaderSize 0, 0) = fill [] kHeaderSize" by (simp add: fill_def)
  ultimately show ?thesis
    by (simp add: serialize_header_at_def put_fill header_widths_def kHeaderSize_def Let_def)
qed

lemma serialize_txn_eq:
  "txn_widths t \<Longrightarrow> serialize_txn t =
   tx_ver t # tx_from t @ tx_to t @ be64 (tx_amount t) @ be64 (tx_nonce t) @ tx_pubkey t @ tx_sig t"
  by (simp add: serialize_txn_def serialize_txn_at_fill)
    (simp add: fill_def txn_widths_def kTxnSize_def)

lemma serialize_header_eq:
  "header_widths h \<Longrightarrow> serialize_header h =
   be64 (bh_index h) @ be64 (bh_timestamp h) @ bh_prevHash h @ bh_txnsHash h @ be64 (bh_nonce h)"
  by (simp add: serialize_header_def serialize_header_at_fill)
    (simp add: fill_def header_widths_def kHeaderSize_def)

lemma length_serialize_txn [codec_simps]: "txn_widths t \<Longrightarrow> length (serialize_txn t) = kTxnSize"
  by (simp add: serialize_txn_eq txn_widths_def kTxnSize_def)

section \<open>The readers split\<close>

lemma get_arr_eq [simp]:
  "off + n \<le> length p \<Longrightarrow> get_arr n p off = (take n (drop off p), off + n)"
proof (induction n)
  case 0
  then show ?case by (simp add: get_arr_def)
next
  case (Suc n)
  then show ?case
    by (simp add: get_arr_def take_Suc_conv_app_nth)
qed

lemma get_u64_eq [simp]:
  assumes "off + 8 \<le> length p"
  shows "get_u64 p off = (of_be (take 8 (drop off p)), off + 8)"
proof -
  have "fold (\<lambda>_ (v, off). (push_bit 8 v OR ucast (p ! off), off + 1)) [0..<n] (0, off) =
      (of_be (take n (drop off p)) :: u64, off + n)" if "n \<le> 8" for n
    using that assms
    by (induction n) (simp_all add: of_be_def take_Suc_conv_app_nth)
  from this [of 8] show ?thesis by (simp add: get_u64_def)
qed

definition wf_txn :: "txn \<Rightarrow> bool" where
  "wf_txn t \<longleftrightarrow> txn_widths t \<and> tx_ver t = kTxnVersion"

interpretation txn_codec: fixed_codec serialize_txn deserialize_txn wf_txn kTxnSize
proof unfold_locales
  fix t assume wf: "wf_txn t"
  then show "length (serialize_txn t) = kTxnSize"
    by (simp add: wf_txn_def length_serialize_txn)
  from wf show "deserialize_txn (serialize_txn t) = Some t"
    by (simp add: deserialize_txn_def serialize_txn_eq wf_txn_def txn_widths_def kTxnSize_def
        Let_def of_be_be_bytes)
next
  fix bs t assume dec: "deserialize_txn bs = Some t"
  then have len: "length bs = 153" and ver: "bs ! 0 = kTxnVersion"
    and t: "t = \<lparr>tx_ver = bs ! 0, tx_from = take 20 (drop 1 bs), tx_to = take 20 (drop 21 bs),
      tx_amount = of_be (take 8 (drop 41 bs)), tx_nonce = of_be (take 8 (drop 49 bs)),
      tx_pubkey = take 32 (drop 57 bs), tx_sig = take 64 (drop 89 bs)\<rparr>"
    by (auto simp: deserialize_txn_def kTxnSize_def Let_def split: if_splits)
  from len ver have wf: "wf_txn t" by (simp add: t wf_txn_def txn_widths_def)
  have "bs = take 1 bs @ take 20 (drop 1 bs) @ take 20 (drop 21 bs) @ take 8 (drop 41 bs) @
      take 8 (drop 49 bs) @ take 32 (drop 57 bs) @ take 64 (drop 89 bs)"
    using concat_fields [of "[1, 20, 20, 8, 8, 32, 64]" bs] len by simp
  moreover have "take 1 bs = [bs ! 0]" using len by (cases bs) auto
  ultimately have "bs = bs ! 0 # take 20 (drop 1 bs) @ take 20 (drop 21 bs) @ take 8 (drop 41 bs) @
      take 8 (drop 49 bs) @ take 32 (drop 57 bs) @ take 64 (drop 89 bs)" by simp
  with wf len show "wf_txn t \<and> serialize_txn t = bs"
    by (simp add: serialize_txn_eq wf_txn_def) (simp add: t be_bytes_of_be)
qed (simp add: kTxnSize_def)

interpretation header_codec: fixed_codec serialize_header deserialize_header header_widths kHeaderSize
proof unfold_locales
  fix h assume wf: "header_widths h"
  then show "length (serialize_header h) = kHeaderSize"
    by (simp add: serialize_header_eq header_widths_def kHeaderSize_def)
  from wf show "deserialize_header (serialize_header h) = Some h"
    by (simp add: deserialize_header_def serialize_header_eq header_widths_def kHeaderSize_def
        Let_def of_be_be_bytes)
next
  fix bs h assume dec: "deserialize_header bs = Some h"
  then have len: "length bs = 88"
    and h: "h = \<lparr>bh_index = of_be (take 8 bs), bh_timestamp = of_be (take 8 (drop 8 bs)),
      bh_prevHash = take 32 (drop 16 bs), bh_txnsHash = take 32 (drop 48 bs),
      bh_nonce = of_be (take 8 (drop 80 bs))\<rparr>"
    by (auto simp: deserialize_header_def kHeaderSize_def Let_def split: if_splits)
  from len have wf: "header_widths h" by (simp add: h header_widths_def)
  have "bs = take 8 bs @ take 8 (drop 8 bs) @ take 32 (drop 16 bs) @ take 32 (drop 48 bs) @
      take 8 (drop 80 bs)"
    using concat_fields [of "[8, 8, 32, 32, 8]" bs] len by simp
  with wf len show "header_widths h \<and> serialize_header h = bs"
    by (simp add: serialize_header_eq) (simp add: h be_bytes_of_be)
qed (simp add: kHeaderSize_def)

section \<open>Properties of the derived values\<close>

lemma signed_payload_eq:
  "txn_widths t \<Longrightarrow> signed_payload t =
   tx_ver t # tx_from t @ tx_to t @ be64 (tx_amount t) @ be64 (tx_nonce t) @ tx_pubkey t"
proof -
  assume t: "txn_widths t"
  then have "signed_payload t = take 89 (serialize_txn t)"
    using length_serialize_txn [OF t]
    by (intro nth_equalityI)
      (simp_all add: signed_payload_def Let_def kSignedPayloadSize_def kTxnSize_def)
  with t show ?thesis by (simp add: serialize_txn_eq txn_widths_def)
qed

lemma signed_payload_cong:
  "signed_payload (t\<lparr>tx_sig := s\<rparr>) = signed_payload t" if "length s = length (tx_sig t)" "txn_widths t"
  using that by (simp add: signed_payload_eq txn_widths_def)

lemma txns_hash_eq: "txns_hash txns = sha256 (concat (map serialize_txn txns))"
proof -
  have "fold (\<lambda>t h. Sha256_update h (serialize_txn t)) txns c =
      sha256_update c (concat (map serialize_txn txns))" for c
    by (induction txns arbitrary: c) (simp_all add: sha256_update_append)
  then show ?thesis by (simp add: txns_hash_def sha256_def digest_from_update)
qed

lemma length_block_hash [simp, codec_simps]: "length (block_hash h) = 32"
  by (simp add: block_hash_def)

lemma length_txns_hash [simp, codec_simps]: "length (txns_hash ts) = 32"
  by (simp add: txns_hash_eq)

lemma length_txid [simp, codec_simps]: "length (txid t) = 32"
  by (simp add: txid_def)

end
