(* ===== verification/Hashutil.thy ===== *)
theory Hashutil
  imports Prelude
begin

text \<open>
  The hex codec and the proof-of-work arithmetic of \<^verbatim>\<open>crypto/hashutil\<close>: lowercase hex with a
  fixed-width decoder, leading zero bits of a digest, the difficulty test and the work of a block.
  The lemmas give the round trips of the codec, read the difficulty test as a bound on the digest
  taken as a big-endian integer, and compute the work of a block.
\<close>

section \<open>Hex\<close>

definition kHex :: string where
  "kHex = ''0123456789abcdef''"

fun to_hex :: "byte list \<Rightarrow> string" where
  "to_hex [] = []"
| "to_hex (b # bs) = kHex ! unat (drop_bit 4 b) # kHex ! unat (b AND 0x0F) # to_hex bs"

definition hex_nib :: "char \<Rightarrow> nat option" where
  "hex_nib ch =
     (let c = (of_char ch :: nat)
      in if of_char CHR ''0'' \<le> c \<and> c \<le> of_char CHR ''9'' then Some (c - of_char CHR ''0'')
         else if of_char CHR ''a'' \<le> c \<and> c \<le> of_char CHR ''f'' then Some (c - of_char CHR ''a'' + 10)
         else if of_char CHR ''A'' \<le> c \<and> c \<le> of_char CHR ''F'' then Some (c - of_char CHR ''A'' + 10)
         else None)"

fun from_hex_loop :: "string \<Rightarrow> byte list option" where
  "from_hex_loop (h # l # cs) =
     (case hex_nib h of None \<Rightarrow> None
      | Some hi \<Rightarrow> (case hex_nib l of None \<Rightarrow> None
                   | Some lo \<Rightarrow> map_option (\<lambda>bs. word_of_nat (push_bit 4 hi OR lo) # bs)
                                  (from_hex_loop cs)))"
| "from_hex_loop _ = Some []"

text \<open>\<open>from_hex n\<close> is the template instance for \<^verbatim>\<open>std::array<Byte, n>\<close>.\<close>

definition from_hex :: "nat \<Rightarrow> string \<Rightarrow> byte list option" where
  "from_hex n hex = (if length hex \<noteq> 2 * n then None else from_hex_loop hex)"

definition hex_lower :: "char \<Rightarrow> char" where
  "hex_lower ch = (if of_char CHR ''A'' \<le> (of_char ch :: nat) \<and> of_char ch \<le> (of_char CHR ''F'' :: nat)
                   then char_of (of_char ch + (32 :: nat)) else ch)"

lemma length_to_hex [simp, codec_simps]: "length (to_hex bs) = 2 * length bs"
  by (induction bs) auto

lemma less16_cases:
  "(k :: nat) < 16 \<Longrightarrow> k = 0 \<or> k = 1 \<or> k = 2 \<or> k = 3 \<or> k = 4 \<or> k = 5 \<or> k = 6 \<or> k = 7 \<or>
     k = 8 \<or> k = 9 \<or> k = 10 \<or> k = 11 \<or> k = 12 \<or> k = 13 \<or> k = 14 \<or> k = 15"
  by presburger

lemma hex_nib_kHex: "k < 16 \<Longrightarrow> hex_nib (kHex ! k) = Some k"
  by (drule less16_cases) (auto simp: kHex_def hex_nib_def)

lemma nibble_mask: "(0x0F :: byte) = mask 4"
  by (simp add: mask_eq_exp_minus_1)

lemma nibbles_bound: "unat (drop_bit 4 (b :: byte)) < 16" "unat (b AND 0x0F) < 16"
proof -
  have "unat b < 256" using unsigned_less [where ?'a = nat, of b] by simp
  then show "unat (drop_bit 4 b) < 16"
    by (simp add: unat_drop_bit_eq drop_bit_eq_div [where ?'a = nat] del: drop_bit_eq_div)
  show "unat (b AND 0x0F) < 16"
    using word_and_le1 [of b "0x0F"] by (simp add: word_le_nat_alt)
qed

lemma to_hex_chars: "c \<in> set (to_hex bs) \<Longrightarrow> \<exists>k<16. c = kHex ! k"
  by (induction bs) (use nibbles_bound in auto)

lemma nibbles_join: "word_of_nat (push_bit 4 (unat (drop_bit 4 b)) OR unat (b AND 0x0F)) = (b :: byte)"
  unfolding nibble_mask
  by (rule bit_word_eqI) (auto simp: bit_simps not_less)

lemma from_hex_loop_to_hex: "from_hex_loop (to_hex bs) = Some bs"
  by (induction bs) (simp_all add: hex_nib_kHex nibbles_bound nibbles_join)

lemma from_hex_to_hex_raw: "from_hex (length bs) (to_hex bs) = Some bs"
  by (simp add: from_hex_def from_hex_loop_to_hex)

lemma from_hex_to_hex [simp]: "length bs = n \<Longrightarrow> from_hex n (to_hex bs) = Some bs"
  using from_hex_to_hex_raw by blast

lemma from_hex_loop_length: "from_hex_loop s = Some bs \<Longrightarrow> length bs = length s div 2"
  by (induction s arbitrary: bs rule: from_hex_loop.induct) (auto split: option.splits)

lemma from_hex_length: "from_hex n s = Some bs \<Longrightarrow> length bs = n"
  by (auto simp: from_hex_def from_hex_loop_length split: if_splits)

text \<open>What the decoder accepts is the encoding of what it returns, up to the case of the letters.\<close>

lemma kHex_lower:
  "\<forall>n\<in>set [48..<58]. n - 48 < 16 \<and> kHex ! (n - 48) = hex_lower (char_of n)"
  "\<forall>n\<in>set [97..<103]. n - 97 + 10 < 16 \<and> kHex ! (n - 97 + 10) = hex_lower (char_of n)"
  "\<forall>n\<in>set [65..<71]. n - 65 + 10 < 16 \<and> kHex ! (n - 65 + 10) = hex_lower (char_of n)"
  by (simp_all add: upt_rec hex_lower_def kHex_def char_of_def bit_Suc_0_iff)

lemma hex_nib_lower:
  assumes "hex_nib c = Some k"
  shows "k < 16 \<and> kHex ! k = hex_lower c"
proof -
  define n where "n = (of_char c :: nat)"
  have c: "c = char_of n" by (simp add: n_def)
  have "n \<in> set [48..<58] \<and> k = n - 48 \<or> n \<in> set [97..<103] \<and> k = n - 97 + 10
      \<or> n \<in> set [65..<71] \<and> k = n - 65 + 10"
    unfolding set_upt atLeastLessThan_iff using assms
    by (auto simp: hex_nib_def Let_def n_def split: if_splits)
  then show ?thesis
    unfolding c using kHex_lower by blast
qed

lemma nibbles_split:
  assumes "hi < 16" "lo < 16"
  shows "unat (drop_bit 4 (word_of_nat (push_bit 4 hi OR lo) :: byte)) = hi"
    and "unat ((word_of_nat (push_bit 4 hi OR lo) :: byte) AND 0x0F) = lo"
proof -
  have hi: "take_bit 4 hi = hi" and lo: "take_bit 4 lo = lo"
    using assms by (simp_all add: take_bit_nat_eq_self_iff)
  have bits: "bit hi n \<Longrightarrow> n < 4" "bit lo n \<Longrightarrow> n < 4" for n
    by (metis hi bit_take_bit_iff) (metis lo bit_take_bit_iff)
  show "unat (drop_bit 4 (word_of_nat (push_bit 4 hi OR lo) :: byte)) = hi"
    by (rule bit_eqI) (auto simp: bit_simps dest: bits)
  show "unat ((word_of_nat (push_bit 4 hi OR lo) :: byte) AND 0x0F) = lo"
    unfolding nibble_mask by (rule bit_eqI) (auto simp: bit_simps dest: bits)
qed

lemma from_hex_loop_inverse:
  "from_hex_loop s = Some bs \<Longrightarrow> even (length s) \<Longrightarrow> to_hex bs = map hex_lower s"
proof (induction s arbitrary: bs rule: from_hex_loop.induct)
  case (1 h l cs)
  then obtain hi lo bs' where *: "hex_nib h = Some hi" "hex_nib l = Some lo"
    "from_hex_loop cs = Some bs'" "bs = word_of_nat (push_bit 4 hi OR lo) # bs'"
    by (auto split: option.splits)
  with 1 show ?case
    using hex_nib_lower [OF *(1)] hex_nib_lower [OF *(2)] nibbles_split [of hi lo] by simp
qed auto

lemma from_hex_inverse: "from_hex n s = Some bs \<Longrightarrow> to_hex bs = map hex_lower s"
  by (auto simp: from_hex_def from_hex_loop_inverse split: if_splits)

section \<open>Leading zero bits and difficulty\<close>

text \<open>
  The bit loop of one byte runs from bit \<open>k - 1\<close> down to bit \<open>0\<close>; its result says whether the
  function returned from inside the loop.
\<close>

fun scan_bits :: "byte \<Rightarrow> nat \<Rightarrow> nat \<Rightarrow> nat \<times> bool" where
  "scan_bits b 0 count = (count, False)"
| "scan_bits b (Suc k) count = (if bit b k then (count, True) else scan_bits b k (count + 1))"

fun lz_loop :: "byte list \<Rightarrow> nat \<Rightarrow> nat" where
  "lz_loop [] count = count"
| "lz_loop (b # bs) count =
     (if b = 0 then lz_loop bs (count + 8)
      else let (c, returned) = scan_bits b 8 count in if returned then c else lz_loop bs c)"

definition leading_zero_bits :: "byte list \<Rightarrow> nat" where
  "leading_zero_bits hash = lz_loop hash 0"

definition meets_difficulty :: "byte list \<Rightarrow> u32 \<Rightarrow> bool" where
  "meets_difficulty hash D \<longleftrightarrow> D \<le> word_of_nat (leading_zero_bits hash)"

definition block_work :: "u32 \<Rightarrow> u128" where
  "block_work D = (if D \<ge> 128 then NOT 0 else push_bit (unat D) 1)"

text \<open>The digest as a big-endian integer.\<close>

fun be_val :: "byte list \<Rightarrow> nat" where
  "be_val [] = 0"
| "be_val (b # bs) = unat b * 256 ^ length bs + be_val bs"

lemma pow256: "(256 :: nat) ^ n = 2 ^ (8 * n)"
  by (simp add: power_mult)

lemma be_val_bound: "be_val bs < 2 ^ (8 * length bs)"
proof (induction bs)
  case (Cons b bs)
  have "unat b \<le> 255" using unsigned_less [where ?'a = nat, of b] by simp
  then have "unat b * 256 ^ length bs \<le> 255 * 256 ^ length bs" by (rule mult_le_mono1)
  with Cons have "be_val (b # bs) < 256 * 256 ^ length bs"
    unfolding be_val.simps pow256 [symmetric] by linarith
  then show ?case by (simp add: pow256 power_add)
qed simp

text \<open>The scan of a byte below \<open>2 ^ k\<close> counts the zero bits above its highest set bit.\<close>

lemma scan_bits_spec:
  assumes "unat b < 2 ^ k" "b \<noteq> 0"
  shows "\<exists>j<k. scan_bits b k c = (c + j, True) \<and> 2 ^ (k - Suc j) \<le> unat b \<and> unat b < 2 ^ (k - j)"
  using assms
proof (induction k arbitrary: c)
  case 0
  then show ?case by (simp add: unat_eq_zero)
next
  case (Suc k)
  show ?case
  proof (cases "bit b k")
    case True
    then have "bit (unat b) k" by (simp add: bit_unsigned_iff)
    then have "odd (unat b div 2 ^ k)" by (simp add: bit_iff_odd)
    then have "2 ^ k \<le> unat b" by (metis div_less even_zero not_le)
    with True Suc.prems show ?thesis by (intro exI [of _ 0]) simp
  next
    case False
    have "unat b < 2 ^ k"
    proof (rule ccontr)
      assume "\<not> unat b < 2 ^ k"
      with Suc.prems(1) have "unat b div 2 ^ k = 1"
        by (intro div_nat_eqI) simp_all
      then have "bit (unat b) k" by (simp add: bit_iff_odd)
      with False show False by (simp add: bit_unsigned_iff)
    qed
    from Suc.IH [OF this Suc.prems(2), of "c + 1"] obtain j where
      "j < k" "scan_bits b k (c + 1) = (c + 1 + j, True)"
      "2 ^ (k - Suc j) \<le> unat b" "unat b < 2 ^ (k - j)" by auto
    with False show ?thesis by (intro exI [of _ "Suc j"]) simp
  qed
qed

lemma lz_loop_spec:
  "\<exists>z. lz_loop bs c = c + z \<and> z \<le> 8 * length bs \<and> be_val bs < 2 ^ (8 * length bs - z) \<and>
       (z < 8 * length bs \<longrightarrow> 2 ^ (8 * length bs - Suc z) \<le> be_val bs)"
proof (induction bs arbitrary: c)
  case Nil
  then show ?case by simp
next
  case (Cons b bs)
  let ?n = "8 * length bs"
  show ?case
  proof (cases "b = 0")
    case True
    from Cons.IH [of "c + 8"] obtain z where "lz_loop bs (c + 8) = c + 8 + z" "z \<le> ?n"
      "be_val bs < 2 ^ (?n - z)" "z < ?n \<longrightarrow> 2 ^ (?n - Suc z) \<le> be_val bs" by auto
    with True show ?thesis by (intro exI [of _ "8 + z"]) simp
  next
    case False
    have "unat b < 2 ^ 8" using unsigned_less [where ?'a = nat, of b] by simp
    from scan_bits_spec [OF this False, of c] obtain j where j: "j < 8"
      "scan_bits b 8 c = (c + j, True)" "2 ^ (7 - j) \<le> unat b" "unat b < 2 ^ (8 - j)" by auto
    have exps: "8 + ?n - Suc j = (7 - j) + ?n" "8 + ?n - j = (8 - j) + ?n" using j(1) by auto
    have "be_val (b # bs) < (unat b + 1) * 2 ^ ?n"
      using be_val_bound [of bs] by (simp add: pow256)
    also have "\<dots> \<le> 2 ^ (8 - j) * 2 ^ ?n" using j(4) by (intro mult_le_mono1) simp
    finally have up: "be_val (b # bs) < 2 ^ (8 + ?n - j)"
      unfolding exps by (simp add: power_add)
    have "2 ^ (7 - j) * 2 ^ ?n \<le> unat b * 2 ^ ?n" using j(3) by (intro mult_le_mono1)
    then have lo: "2 ^ (8 + ?n - Suc j) \<le> be_val (b # bs)"
      unfolding exps power_add be_val.simps pow256 by linarith
    from j False up lo show ?thesis by (intro exI [of _ j]) simp
  qed
qed

lemma leading_zero_bits_le: "leading_zero_bits h \<le> 8 * length h"
  using lz_loop_spec [of h 0] by (auto simp: leading_zero_bits_def)

lemma leading_zero_bits_iff:
  assumes "D \<le> 8 * length h"
  shows "D \<le> leading_zero_bits h \<longleftrightarrow> be_val h < 2 ^ (8 * length h - D)"
proof -
  let ?n = "8 * length h"
  from lz_loop_spec [of h 0] obtain z where z: "leading_zero_bits h = z" "z \<le> ?n"
    "be_val h < 2 ^ (?n - z)" "z < ?n \<longrightarrow> 2 ^ (?n - Suc z) \<le> be_val h"
    by (auto simp: leading_zero_bits_def)
  show ?thesis
  proof
    assume "D \<le> leading_zero_bits h"
    then have "(2 :: nat) ^ (?n - z) \<le> 2 ^ (?n - D)"
      using z(1) by (intro power_increasing) auto
    with z(3) show "be_val h < 2 ^ (?n - D)" by (rule less_le_trans)
  next
    assume less: "be_val h < 2 ^ (?n - D)"
    show "D \<le> leading_zero_bits h"
    proof (rule ccontr)
      assume "\<not> D \<le> leading_zero_bits h"
      then have D: "Suc z \<le> D" using z(1) by simp
      then have "(2 :: nat) ^ (?n - D) \<le> 2 ^ (?n - Suc z)"
        by (intro power_increasing) auto
      with less z(4) D assms show False by simp
    qed
  qed
qed

lemma meets_difficulty_iff_lz:
  assumes "length h = 32"
  shows "meets_difficulty h D \<longleftrightarrow> unat D \<le> leading_zero_bits h"
  using leading_zero_bits_le [of h] assms
  by (simp add: meets_difficulty_def word_le_nat_alt unat_of_nat)

lemma meets_difficulty_0 [simp]: "meets_difficulty h 0"
  by (simp add: meets_difficulty_def)

lemma unat_exp_u128: "n < 128 \<Longrightarrow> unat (push_bit n 1 :: u128) = 2 ^ n"
  by (simp only: unsigned_push_bit_eq) (simp add: push_bit_eq_mult take_bit_nat_eq_self_iff)

lemma unat_block_work: "D < 128 \<Longrightarrow> unat (block_work D) = 2 ^ unat D"
  using unat_exp_u128 [of "unat D"] by (simp add: block_work_def word_less_nat_alt word_le_nat_alt)

end
