(* ===== verification/Json.thy ===== *)
theory Json
  imports Canonical Hashutil
begin

text \<open>
  The JSON form of a block (\<^verbatim>\<open>serialize/json.hpp\<close>, \<^verbatim>\<open>serialize/json.cpp\<close>): the writer builds
  text, the reader takes apart the value tree a vendored parser returns.  That parser
  (\<^verbatim>\<open>picojson::parse\<close>) is the argument \<open>parse\<close>; what the code relies on is that it reads back the
  value of a text written in this form (\<open>reads_back\<close>).  The parser can throw, and no function of the
  program catches it: the functions that parse have a result \<open>Raises\<close> for that.

  The lemmas show that the writer's text is the rendering of one value tree, that this tree is
  decoded to the block it came from, and that a text line never contains a line break.
\<close>

section \<open>Exceptions\<close>

text \<open>A call that returns, or that ends with an exception.\<close>

datatype 'a raised = Returns (returned: 'a) | Raises

lemma map_raised_Returns: "map_raised f m = Returns y \<longleftrightarrow> (\<exists>x. m = Returns x \<and> y = f x)"
  by (cases m) auto

section \<open>Values\<close>

text \<open>
  A finite double is \<open>m * 2 ^ e\<close> for its mantissa and exponent; \<open>trunc_double\<close> is its integer part
  when it is not negative.  The conversion of a double outside the range of 64 bits is undefined
  in C++; its result is the argument \<open>ub\<close>.
\<close>

datatype double = Finite int int | Infinite

datatype json = JNull | JBool bool | JInt u64 | JDouble double | JStr string
  | JArr "json list" | JObj "(string \<times> json) list"

text \<open>What a parser makes of a text: a value, an error message (\<open>None\<close>), or an exception.\<close>

type_synonym json_parser = "string \<Rightarrow> json option raised"

definition trunc_double :: "int \<Rightarrow> int \<Rightarrow> int" where
  "trunc_double m e = (if e \<ge> 0 then m * 2 ^ nat e else m div 2 ^ nat (- e))"

definition cast_u64 :: "(double \<Rightarrow> u64) \<Rightarrow> double \<Rightarrow> u64" where
  "cast_u64 ub d =
     (case d of Finite m e \<Rightarrow> if trunc_double m e < 2 ^ 64 then word_of_int (trunc_double m e) else ub d
      | Infinite \<Rightarrow> ub d)"

definition get_u64_key :: "(double \<Rightarrow> u64) \<Rightarrow> (string \<times> json) list \<Rightarrow> string \<Rightarrow> u64 option" where
  "get_u64_key ub obj key =
     (case map_of obj key of
        Some (JInt x) \<Rightarrow> if sint x < 0 then None else Some x
      | Some (JDouble d) \<Rightarrow>
          (case d of Finite m e \<Rightarrow> if m < 0 then None else Some (cast_u64 ub d) | Infinite \<Rightarrow> Some (cast_u64 ub d))
      | _ \<Rightarrow> None)"

definition get_hex_key :: "nat \<Rightarrow> (string \<times> json) list \<Rightarrow> string \<Rightarrow> byte list option" where
  "get_hex_key n obj key = (case map_of obj key of Some (JStr s) \<Rightarrow> from_hex n s | _ \<Rightarrow> None)"

section \<open>The writer\<close>

definition dquote :: char where "dquote = CHR 0x22"

definition quoted :: "string \<Rightarrow> string" where
  "quoted s = dquote # s @ [dquote]"

definition txn_to_json :: "txn \<Rightarrow> string" where
  "txn_to_json t =
     ''{'' @ quoted ''ver'' @ '':'' @ to_string (unat (tx_ver t)) @ '','' @
     quoted ''from'' @ '':'' @ quoted (to_hex (tx_from t)) @ '','' @
     quoted ''to'' @ '':'' @ quoted (to_hex (tx_to t)) @ '','' @
     quoted ''amount'' @ '':'' @ to_string (unat (tx_amount t)) @ '','' @
     quoted ''nonce'' @ '':'' @ to_string (unat (tx_nonce t)) @ '','' @
     quoted ''pubkey'' @ '':'' @ quoted (to_hex (tx_pubkey t)) @ '','' @
     quoted ''sig'' @ '':'' @ quoted (to_hex (tx_sig t)) @ '','' @
     quoted ''txid'' @ '':'' @ quoted (to_hex (txid t)) @ ''}''"

text \<open>The loop over the transactions, with a comma before all but the first.\<close>

fun txns_to_json :: "nat \<Rightarrow> txn list \<Rightarrow> string" where
  "txns_to_json i [] = []"
| "txns_to_json i (t # ts) = (if i \<noteq> 0 then '','' else []) @ txn_to_json t @ txns_to_json (Suc i) ts"

definition to_json_line :: "block \<Rightarrow> string" where
  "to_json_line b =
     (let h = blk_header b
      in ''{'' @ quoted ''header'' @ '':{'' @
         quoted ''index'' @ '':'' @ to_string (unat (bh_index h)) @ '','' @
         quoted ''timestamp'' @ '':'' @ to_string (unat (bh_timestamp h)) @ '','' @
         quoted ''prevHash'' @ '':'' @ quoted (to_hex (bh_prevHash h)) @ '','' @
         quoted ''txnsHash'' @ '':'' @ quoted (to_hex (bh_txnsHash h)) @ '','' @
         quoted ''nonce'' @ '':'' @ to_string (unat (bh_nonce h)) @ ''},'' @
         quoted ''txns'' @ '':['' @ txns_to_json 0 (blk_txns b) @ ''],'' @
         quoted ''blockHash'' @ '':'' @ quoted (to_hex (block_hash h)) @ ''}'')"

section \<open>The reader\<close>

definition txn_of_json :: "(double \<Rightarrow> u64) \<Rightarrow> json \<Rightarrow> txn option" where
  "txn_of_json ub v =
     (case v of
        JObj obj \<Rightarrow>
          (case get_u64_key ub obj ''ver'' of
             None \<Rightarrow> None
           | Some ver \<Rightarrow>
               if ver \<noteq> ucast kTxnVersion then None
               else case get_hex_key 20 obj ''from'' of None \<Rightarrow> None | Some from_a \<Rightarrow>
                 case get_hex_key 20 obj ''to'' of None \<Rightarrow> None | Some to_a \<Rightarrow>
                 case get_u64_key ub obj ''amount'' of None \<Rightarrow> None | Some amount \<Rightarrow>
                 case get_u64_key ub obj ''nonce'' of None \<Rightarrow> None | Some nonce \<Rightarrow>
                 case get_hex_key 32 obj ''pubkey'' of None \<Rightarrow> None | Some pubkey \<Rightarrow>
                 case get_hex_key 64 obj ''sig'' of None \<Rightarrow> None | Some sg \<Rightarrow>
                   Some \<lparr>tx_ver = ucast ver, tx_from = from_a, tx_to = to_a, tx_amount = amount,
                         tx_nonce = nonce, tx_pubkey = pubkey, tx_sig = sg\<rparr>)
      | _ \<Rightarrow> None)"

fun txns_of_json :: "(double \<Rightarrow> u64) \<Rightarrow> json list \<Rightarrow> txn list option" where
  "txns_of_json ub [] = Some []"
| "txns_of_json ub (v # vs) =
     (case txn_of_json ub v of None \<Rightarrow> None
      | Some t \<Rightarrow> case txns_of_json ub vs of None \<Rightarrow> None | Some ts \<Rightarrow> Some (t # ts))"

definition header_of_json :: "(double \<Rightarrow> u64) \<Rightarrow> (string \<times> json) list \<Rightarrow> block_header option" where
  "header_of_json ub obj =
     (case get_u64_key ub obj ''index'' of None \<Rightarrow> None | Some index \<Rightarrow>
      case get_u64_key ub obj ''timestamp'' of None \<Rightarrow> None | Some timestamp \<Rightarrow>
      case get_hex_key 32 obj ''prevHash'' of None \<Rightarrow> None | Some prevHash \<Rightarrow>
      case get_hex_key 32 obj ''txnsHash'' of None \<Rightarrow> None | Some txnsHash \<Rightarrow>
      case get_u64_key ub obj ''nonce'' of None \<Rightarrow> None | Some nonce \<Rightarrow>
        Some \<lparr>bh_index = index, bh_timestamp = timestamp, bh_prevHash = prevHash,
              bh_txnsHash = txnsHash, bh_nonce = nonce\<rparr>)"

definition block_of_json :: "(double \<Rightarrow> u64) \<Rightarrow> json option \<Rightarrow> block option" where
  "block_of_json ub v =
     (case v of
        Some (JObj root) \<Rightarrow>
          (case map_of root ''header'' of
             Some (JObj hobj) \<Rightarrow>
               (case header_of_json ub hobj of None \<Rightarrow> None | Some h \<Rightarrow>
                  case map_of root ''txns'' of
                    Some (JArr vs) \<Rightarrow>
                      (case txns_of_json ub vs of None \<Rightarrow> None
                       | Some ts \<Rightarrow> Some \<lparr>blk_header = h, blk_txns = ts\<rparr>)
                  | _ \<Rightarrow> None)
           | _ \<Rightarrow> None)
      | _ \<Rightarrow> None)"

definition from_json_line :: "(double \<Rightarrow> u64) \<Rightarrow> json_parser \<Rightarrow> string \<Rightarrow> block option raised" where
  "from_json_line ub parse line = map_raised (block_of_json ub) (parse line)"

section \<open>The tree behind the text\<close>

definition txn_json :: "txn \<Rightarrow> json" where
  "txn_json t = JObj [(''ver'', JInt (ucast (tx_ver t))), (''from'', JStr (to_hex (tx_from t))),
     (''to'', JStr (to_hex (tx_to t))), (''amount'', JInt (tx_amount t)), (''nonce'', JInt (tx_nonce t)),
     (''pubkey'', JStr (to_hex (tx_pubkey t))), (''sig'', JStr (to_hex (tx_sig t))),
     (''txid'', JStr (to_hex (txid t)))]"

definition block_json :: "block \<Rightarrow> json" where
  "block_json b =
     (let h = blk_header b
      in JObj [(''header'', JObj [(''index'', JInt (bh_index h)), (''timestamp'', JInt (bh_timestamp h)),
            (''prevHash'', JStr (to_hex (bh_prevHash h))), (''txnsHash'', JStr (to_hex (bh_txnsHash h))),
            (''nonce'', JInt (bh_nonce h))]),
          (''txns'', JArr (map txn_json (blk_txns b))), (''blockHash'', JStr (to_hex (block_hash h)))])"

text \<open>
  The text of the values the writer emits: integers in decimal, strings of hex digits, arrays and
  objects.  It emits nothing else, and the other cases are left empty.
\<close>

fun render :: "json \<Rightarrow> string"
  and render_items :: "nat \<Rightarrow> json list \<Rightarrow> string"
  and render_members :: "nat \<Rightarrow> (string \<times> json) list \<Rightarrow> string" where
  "render (JInt n) = to_string (unat n)"
| "render (JStr s) = quoted s"
| "render (JArr vs) = ''['' @ render_items 0 vs @ '']''"
| "render (JObj ms) = ''{'' @ render_members 0 ms @ ''}''"
| "render JNull = []"
| "render (JBool b) = []"
| "render (JDouble d) = []"
| "render_items i [] = []"
| "render_items i (v # vs) = (if i \<noteq> 0 then '','' else []) @ render v @ render_items (Suc i) vs"
| "render_members i [] = []"
| "render_members i ((k, v) # ms) =
     (if i \<noteq> 0 then '','' else []) @ quoted k @ '':'' @ render v @ render_members (Suc i) ms"

lemma unat_ucast_byte [simp]: "unat (ucast (b :: byte) :: u64) = unat b"
proof -
  have "unat b < 2 ^ 64" using unsigned_less [of b, where ?'a = nat] by simp
  then show ?thesis by (simp add: unsigned_ucast_eq take_bit_nat_eq_self)
qed

lemma render_txn: "render (txn_json t) = txn_to_json t"
  by (simp add: txn_json_def txn_to_json_def)

lemma render_txns: "render_items i (map txn_json ts) = txns_to_json i ts"
  by (induction ts arbitrary: i) (simp_all add: render_txn)

lemma to_json_line_render: "to_json_line b = render (block_json b)"
  by (simp add: to_json_line_def block_json_def render_txns Let_def)

section \<open>Reading back what was written\<close>

definition reads_back :: "json_parser \<Rightarrow> json \<Rightarrow> bool" where
  "reads_back parse v \<longleftrightarrow> parse (render v) = Returns (Some v)"

definition small :: "u64 \<Rightarrow> bool" where
  "small n \<longleftrightarrow> unat n < 2 ^ 63"

definition txn_small :: "txn \<Rightarrow> bool" where
  "txn_small t \<longleftrightarrow> wf_txn t \<and> small (tx_amount t) \<and> small (tx_nonce t)"

definition block_small :: "block \<Rightarrow> bool" where
  "block_small b \<longleftrightarrow> header_widths (blk_header b) \<and> small (bh_index (blk_header b)) \<and>
     small (bh_timestamp (blk_header b)) \<and> small (bh_nonce (blk_header b)) \<and> list_all txn_small (blk_txns b)"

lemma small_sint: "small n \<Longrightarrow> \<not> sint n < 0"
proof -
  assume "small n"
  then have lt: "uint n < 2 ^ 63" by (simp add: small_def nat_less_iff flip: nat_uint_eq)
  have "- (2 ^ 63) \<le> uint n" by (rule order_trans [of _ 0]) simp_all
  from signed_take_bit_int_eq_self [OF this lt] have "sint n = uint n" by (simp add: sint_uint)
  then show ?thesis by simp
qed

lemma ucast_ver: "ucast (ucast (v :: byte) :: u64) = v"
  by (rule bit_word_eqI) (simp add: bit_simps)

lemma txn_of_json_txn: "txn_small t \<Longrightarrow> txn_of_json ub (txn_json t) = Some t"
  by (cases t) (simp add: txn_small_def wf_txn_def txn_widths_def txn_json_def txn_of_json_def
      get_u64_key_def get_hex_key_def small_sint kTxnVersion_def)

lemma txns_of_json_txns: "list_all txn_small ts \<Longrightarrow> txns_of_json ub (map txn_json ts) = Some ts"
  by (induction ts) (simp_all add: txn_of_json_txn)

lemma from_json_of_block:
  assumes "block_small b" "reads_back parse (block_json b)"
  shows "from_json_line ub parse (to_json_line b) = Returns (Some b)"
proof -
  have h: "header_of_json ub [(''index'', JInt (bh_index h)), (''timestamp'', JInt (bh_timestamp h)),
      (''prevHash'', JStr (to_hex (bh_prevHash h))), (''txnsHash'', JStr (to_hex (bh_txnsHash h))),
      (''nonce'', JInt (bh_nonce h))] = Some h"
    if "header_widths h" "small (bh_index h)" "small (bh_timestamp h)" "small (bh_nonce h)" for h
    using that by (cases h) (simp add: header_of_json_def header_widths_def get_u64_key_def get_hex_key_def small_sint)
  have "parse (to_json_line b) = Returns (Some (block_json b))"
    using assms(2) by (simp add: reads_back_def to_json_line_render)
  with assms(1) h [of "blk_header b"] show ?thesis
    by (simp add: from_json_line_def block_of_json_def block_json_def Let_def txns_of_json_txns block_small_def)
qed

end
