(* ===== verification/Config.thy ===== *)
theory Config
  imports Json
begin

text \<open>
  The configuration of a node (\<^verbatim>\<open>node/node.hpp\<close>, \<^verbatim>\<open>node/node.cpp\<close>): built-in defaults, the
  overlay of a configuration file, the command line, the seal decision and the port.  Reading a
  file is the argument \<open>read\<close>, the JSON parser the argument \<open>parse\<close>, whose exception goes through.
\<close>

section \<open>Numbers on the command line\<close>

text \<open>
  \<^verbatim>\<open>strtoull\<close> and \<^verbatim>\<open>strtol\<close> in base 10: blanks, a sign, digits; saturated at the end of the range.
\<close>

definition is_blank :: "char \<Rightarrow> bool" where
  "is_blank c \<longleftrightarrow> c \<in> set [CHR 0x20, CHR 0x09, CHR 0x0A, CHR 0x0B, CHR 0x0C, CHR 0x0D]"

definition sign_digits :: "string \<Rightarrow> bool \<times> nat" where
  "sign_digits s =
     (let s = dropWhile is_blank s;
          (neg, ds) = (case s of c # cs \<Rightarrow> if c = CHR ''-'' then (True, cs) else if c = CHR ''+'' then (False, cs)
                         else (False, s) | [] \<Rightarrow> (False, []))
      in (neg, dec_val (takeWhile is_digit ds)))"

definition strtoull :: "string \<Rightarrow> u64" where
  "strtoull s =
     (case sign_digits s of (neg, n) \<Rightarrow>
        if n \<ge> 2 ^ 64 then - 1 else if neg then - word_of_nat n else word_of_nat n)"

definition strtol :: "string \<Rightarrow> int" where
  "strtol s =
     (case sign_digits s of (neg, n) \<Rightarrow>
        if neg then max (- int n) (- (2 ^ 63)) else min (int n) (2 ^ 63 - 1))"

text \<open>\<^verbatim>\<open>static_cast<int>\<close> of a wider integer.\<close>

definition to_int32 :: "int \<Rightarrow> int" where
  "to_int32 n = signed_take_bit 31 n"

section \<open>The configuration\<close>

record node_config =
  cfg_datadir :: string
  cfg_mine :: bool
  cfg_seal_cadence_ms :: u64
  cfg_seal_empty :: bool
  cfg_max_txns_per_block :: u64
  cfg_difficulty :: u32
  cfg_node_index :: int
  cfg_port_base :: int
  cfg_rpc_port :: int
  cfg_no_rpc :: bool
  cfg_no_p2p :: bool
  cfg_max_skew_s :: u64
  cfg_log_format :: string

definition default_config :: node_config where
  "default_config =
     \<lparr>cfg_datadir = ''./txchain-data'', cfg_mine = False, cfg_seal_cadence_ms = 5000,
      cfg_seal_empty = True, cfg_max_txns_per_block = 8, cfg_difficulty = 0, cfg_node_index = 0,
      cfg_port_base = 29000, cfg_rpc_port = 0, cfg_no_rpc = False, cfg_no_p2p = False,
      cfg_max_skew_s = 7200, cfg_log_format = ''json''\<rparr>"

definition kRpcPortOffset :: int where "kRpcPortOffset = 1000"

definition rpc_port_for :: "node_config \<Rightarrow> int" where
  "rpc_port_for cfg =
     (if cfg_rpc_port cfg \<noteq> 0 then cfg_rpc_port cfg
      else cfg_port_base cfg + kRpcPortOffset + cfg_node_index cfg)"

definition should_seal_now :: "node_config \<Rightarrow> u64 \<Rightarrow> u64 \<Rightarrow> bool" where
  "should_seal_now cfg elapsed_ms mempool_size =
     (if \<not> cfg_mine cfg then False
      else if mempool_size \<ge> cfg_max_txns_per_block cfg then True
      else if cfg_seal_cadence_ms cfg = 0 then False
      else elapsed_ms \<ge> cfg_seal_cadence_ms cfg)"

section \<open>The configuration file\<close>

definition file_bool :: "(string \<times> json) list \<Rightarrow> string \<Rightarrow> bool \<Rightarrow> bool" where
  "file_bool obj k out = (case map_of obj k of Some (JBool b) \<Rightarrow> b | _ \<Rightarrow> out)"

definition file_str :: "(string \<times> json) list \<Rightarrow> string \<Rightarrow> string \<Rightarrow> string" where
  "file_str obj k out = (case map_of obj k of Some (JStr s) \<Rightarrow> s | _ \<Rightarrow> out)"

definition file_u64 :: "(double \<Rightarrow> u64) \<Rightarrow> (string \<times> json) list \<Rightarrow> string \<Rightarrow> u64 \<Rightarrow> u64" where
  "file_u64 ub obj k out = (case get_u64_key ub obj k of Some n \<Rightarrow> n | None \<Rightarrow> out)"

definition overlay :: "(double \<Rightarrow> u64) \<Rightarrow> (string \<times> json) list \<Rightarrow> node_config \<Rightarrow> node_config" where
  "overlay ub obj cfg =
     cfg\<lparr>cfg_datadir := file_str obj ''datadir'' (cfg_datadir cfg),
         cfg_mine := file_bool obj ''mine'' (cfg_mine cfg),
         cfg_seal_empty := file_bool obj ''seal_empty'' (cfg_seal_empty cfg),
         cfg_no_rpc := file_bool obj ''no_rpc'' (cfg_no_rpc cfg),
         cfg_no_p2p := file_bool obj ''no_p2p'' (cfg_no_p2p cfg),
         cfg_seal_cadence_ms := file_u64 ub obj ''seal_cadence_ms'' (cfg_seal_cadence_ms cfg),
         cfg_max_skew_s := file_u64 ub obj ''max_skew_s'' (cfg_max_skew_s cfg),
         cfg_max_txns_per_block := file_u64 ub obj ''max_txns_per_block'' (cfg_max_txns_per_block cfg),
         cfg_difficulty := ucast (file_u64 ub obj ''difficulty'' (ucast (cfg_difficulty cfg))),
         cfg_node_index := to_int32 (uint (file_u64 ub obj ''node_index'' (word_of_int (cfg_node_index cfg)))),
         cfg_port_base := to_int32 (uint (file_u64 ub obj ''port_base'' (word_of_int (cfg_port_base cfg)))),
         cfg_log_format := file_str obj ''log_format'' (cfg_log_format cfg)\<rparr>"

definition apply_config_file :: "(double \<Rightarrow> u64) \<Rightarrow> json_parser \<Rightarrow> (string \<Rightarrow> string option) \<Rightarrow>
    string \<Rightarrow> node_config \<Rightarrow> node_config raised" where
  "apply_config_file ub parse read path cfg =
     (case read path of
        None \<Rightarrow> Returns cfg
      | Some content \<Rightarrow>
          map_raised (\<lambda>v. case v of Some (JObj obj) \<Rightarrow> overlay ub obj cfg | _ \<Rightarrow> cfg) (parse content))"

section \<open>The command line\<close>

definition truthy :: "string \<Rightarrow> bool" where
  "truthy v \<longleftrightarrow> v = ''true'' \<or> v = ''1''"

text \<open>The first pass reads every argument that has a successor, a flag's value included.\<close>

fun prescan :: "string list \<Rightarrow> node_config \<times> string \<Rightarrow> node_config \<times> string" where
  "prescan (a # v # args) (cfg, config_file) =
     prescan (v # args)
       (if a = ''--datadir'' then (cfg\<lparr>cfg_datadir := v\<rparr>, config_file)
        else if a = ''--config'' then (cfg, v) else (cfg, config_file))"
| "prescan _ s = s"

text \<open>The last pass; a flag with a value consumes the next argument, or reads an empty one.\<close>

definition takes_value :: "string \<Rightarrow> bool" where
  "takes_value a \<longleftrightarrow> a \<in> set [''--datadir'', ''--config'', ''--seal-cadence'', ''--seal-empty'',
     ''--max-txns-per-block'', ''--difficulty'', ''--node-index'', ''--port-base'', ''--rpc-port'',
     ''--max-skew'', ''--log-format'']"

definition set_flag :: "string \<Rightarrow> node_config \<Rightarrow> node_config" where
  "set_flag a cfg =
     (if a = ''--mine'' then cfg\<lparr>cfg_mine := True\<rparr>
      else if a = ''--no-rpc'' then cfg\<lparr>cfg_no_rpc := True\<rparr>
      else if a = ''--no-p2p'' then cfg\<lparr>cfg_no_p2p := True\<rparr> else cfg)"

definition set_value :: "string \<Rightarrow> string \<Rightarrow> node_config \<Rightarrow> node_config" where
  "set_value a v cfg =
     (if a = ''--datadir'' then cfg\<lparr>cfg_datadir := v\<rparr>
      else if a = ''--seal-cadence'' then cfg\<lparr>cfg_seal_cadence_ms := strtoull v\<rparr>
      else if a = ''--seal-empty'' then cfg\<lparr>cfg_seal_empty := truthy v\<rparr>
      else if a = ''--max-txns-per-block'' then cfg\<lparr>cfg_max_txns_per_block := strtoull v\<rparr>
      else if a = ''--difficulty'' then cfg\<lparr>cfg_difficulty := ucast (strtoull v)\<rparr>
      else if a = ''--node-index'' then cfg\<lparr>cfg_node_index := to_int32 (strtol v)\<rparr>
      else if a = ''--port-base'' then cfg\<lparr>cfg_port_base := to_int32 (strtol v)\<rparr>
      else if a = ''--rpc-port'' then cfg\<lparr>cfg_rpc_port := to_int32 (strtol v)\<rparr>
      else if a = ''--max-skew'' then cfg\<lparr>cfg_max_skew_s := strtoull v\<rparr>
      else if a = ''--log-format'' then cfg\<lparr>cfg_log_format := v\<rparr> else cfg)"

fun cli_loop :: "string list \<Rightarrow> node_config \<Rightarrow> node_config" where
  "cli_loop [] cfg = cfg"
| "cli_loop (a # args) cfg =
     (if takes_value a then
        (case args of [] \<Rightarrow> set_value a [] cfg | v # rest \<Rightarrow> cli_loop rest (set_value a v cfg))
      else cli_loop args (set_flag a cfg))"

definition resolve_config :: "(double \<Rightarrow> u64) \<Rightarrow> json_parser \<Rightarrow> (string \<Rightarrow> string option) \<Rightarrow>
    string list \<Rightarrow> node_config raised" where
  "resolve_config ub parse read argv =
     (let args = drop 1 argv;
          (cfg, config_file) = prescan args (default_config, [])
      in map_raised (cli_loop args) (apply_config_file ub parse read
           (if config_file = [] then cfg_datadir cfg @ ''/node.json'' else config_file) cfg))"

text \<open>
  The order of precedence: without flags the effective configuration is the file of the
  default data directory over the built-in defaults; a flag with a value overrides its field over
  both, whatever the file says; a configuration file named on the command line replaces the
  default one; and a file whose parse throws ends the start before the flags are read.
\<close>

theorem config_precedence:
  assumes "takes_value a" "a \<noteq> ''--datadir''" "a \<noteq> ''--config''" "v \<noteq> ''--datadir''" "v \<noteq> ''--config''"
    and "f \<noteq> ''--datadir''" "f \<noteq> ''--config''" "f \<noteq> []"
  shows "resolve_config ub parse read [prog] =
      apply_config_file ub parse read ''./txchain-data/node.json'' default_config \<and>
    resolve_config ub parse read [prog, a, v] =
      map_raised (set_value a v) (apply_config_file ub parse read ''./txchain-data/node.json'' default_config) \<and>
    resolve_config ub parse read [prog, ''--config'', f, a, v] =
      map_raised (set_value a v) (apply_config_file ub parse read f default_config) \<and>
    (parse content = Raises \<and> read f = Some content \<longrightarrow> resolve_config ub parse read [prog, ''--config'', f, a, v] = Raises)"
proof -
  have "takes_value ''--config''" by (simp add: takes_value_def)
  moreover have "set_value ''--config'' f cfg = cfg" for f cfg by (simp add: set_value_def)
  ultimately show ?thesis
    using assms
    by (cases "apply_config_file ub parse read ''./txchain-data/node.json'' default_config";
        cases "apply_config_file ub parse read f default_config")
      (simp_all add: resolve_config_def default_config_def apply_config_file_def)
qed

theorem config_precedence_witness:
  "map_raised cfg_difficulty (resolve_config (\<lambda>_. 0) (\<lambda>_. Returns (Some (JObj [(''difficulty'', JInt 12)]))) (\<lambda>_. Some [])
     [''txnode'', ''--difficulty'', ''16'']) = Returns 16 \<and>
   map_raised cfg_difficulty (resolve_config (\<lambda>_. 0) (\<lambda>_. Returns (Some (JObj [(''difficulty'', JInt 12)]))) (\<lambda>_. Some [])
     [''txnode'']) = Returns 12"
proof -
  have num: "strtoull ''16'' = 16"
    by (simp add: strtoull_def sign_digits_def is_blank_def is_digit_def dec_val_def digit_val_def)
  have neg: "\<not> sint (12 :: u64) < 0" by (rule small_sint) (simp add: small_def)
  show ?thesis
    using config_precedence [of "''--difficulty''" "''16''" "''f''" "\<lambda>_. 0" "\<lambda>_. Returns (Some (JObj [(''difficulty'', JInt 12)]))"
        "\<lambda>_. Some []" "''txnode''"] neg
    by (simp add: takes_value_def set_value_def num apply_config_file_def overlay_def file_u64_def get_u64_key_def)
qed

end
