(* ===== verification/Picojson.thy ===== *)
theory Picojson
  imports Json
begin

text \<open>
  The vendored JSON parser (\<^verbatim>\<open>third_party/json/picojson.h\<close>, with \<^verbatim>\<open>PICOJSON_USE_INT64\<close> as the build
  sets it): the recursive descent over the characters, with its depth limit, its escapes and its two
  number types.  A parse ends with a value and the text behind it, with an error, or with the exception
  a number outside the range of a double throws.  Text behind the first value is not looked at.

  The lemmas show that the parser is total, reads back the rendering of plain trees and with them the line of a
  block, and what it makes of the decimals of 64-bit integers; theory \<open>Texts\<close> has the other texts of the program.
\<close>

section \<open>The input\<close>

definition is_ws :: "char \<Rightarrow> bool" where
  "is_ws c \<longleftrightarrow> c = CHR '' '' \<or> c = CHR 0x09 \<or> c = CHR 0x0A \<or> c = CHR 0x0D"

definition skip_ws :: "string \<Rightarrow> string" where "skip_ws s = dropWhile is_ws s"

definition expect :: "char \<Rightarrow> string \<Rightarrow> string option" where
  "expect c s = (case skip_ws s of [] \<Rightarrow> None | x # r \<Rightarrow> if x = c then Some r else None)"

fun match :: "string \<Rightarrow> string \<Rightarrow> string option" where
  "match [] s = Some s"
| "match (p # ps) [] = None"
| "match (p # ps) (c # s) = (if c = p then match ps s else None)"

lemma skip_ws_le: "length (skip_ws s) \<le> length s"
  by (simp add: skip_ws_def length_dropWhile_le)

lemma skip_ws_less: "skip_ws s = c # u \<Longrightarrow> length u < length s"
  using skip_ws_le [of s] by simp

lemma expect_less: "expect c s = Some r \<Longrightarrow> length r < length s"
  using skip_ws_le [of s] by (auto simp: expect_def split: list.splits if_splits)

lemma match_le: "match ps s = Some r \<Longrightarrow> length r \<le> length s"
  by (induction ps s rule: match.induct) (auto split: if_splits)

section \<open>Strings\<close>

definition hex_val :: "char \<Rightarrow> nat option" where
  "hex_val c =
     (let n = of_char c :: nat
      in if 48 \<le> n \<and> n \<le> 57 then Some (n - 48)
         else if 65 \<le> n \<and> n \<le> 70 then Some (n - 55)
         else if 97 \<le> n \<and> n \<le> 102 then Some (n - 87)
         else None)"

text \<open>Four hex digits; \<open>i\<close> counts down, \<open>u\<close> is \<^verbatim>\<open>uni_ch\<close>.\<close>

fun quadhex :: "nat \<Rightarrow> nat \<Rightarrow> string \<Rightarrow> (nat \<times> string) option" where
  "quadhex 0 u s = Some (u, s)"
| "quadhex (Suc i) u [] = None"
| "quadhex (Suc i) u (c # s) = (case hex_val c of None \<Rightarrow> None | Some h \<Rightarrow> quadhex i (u * 16 + h) s)"

definition utf8 :: "nat \<Rightarrow> string" where
  "utf8 u =
     (if u < 0x80 then [char_of u]
      else if u < 0x800 then [char_of (0xC0 + u div 64), char_of (0x80 + u mod 64)]
      else if u < 0x10000 then [char_of (0xE0 + u div 4096), char_of (0x80 + u div 64 mod 64), char_of (0x80 + u mod 64)]
      else [char_of (0xF0 + u div 262144), char_of (0x80 + u div 4096 mod 64), char_of (0x80 + u div 64 mod 64),
            char_of (0x80 + u mod 64)])"

definition parse_codepoint :: "string \<Rightarrow> (string \<times> string) option" where
  "parse_codepoint s =
     (case quadhex 4 0 s of
        None \<Rightarrow> None
      | Some (u, s) \<Rightarrow>
          if 0xD800 \<le> u \<and> u \<le> 0xDFFF then
            if 0xDC00 \<le> u then None
            else (case match (CHR 0x5C # ''u'') s of
                    None \<Rightarrow> None
                  | Some s \<Rightarrow>
                      (case quadhex 4 0 s of
                         None \<Rightarrow> None
                       | Some (second, s) \<Rightarrow>
                           if \<not> (0xDC00 \<le> second \<and> second \<le> 0xDFFF) then None
                           else Some (utf8 ((u - 0xD800) * 1024 + (second - 0xDC00) + 0x10000), s)))
          else Some (utf8 u, s))"

definition simple_escape :: "char \<Rightarrow> char option" where
  "simple_escape c =
     map_of [(CHR 0x22, CHR 0x22), (CHR 0x5C, CHR 0x5C), (CHR ''/'', CHR ''/''), (CHR ''b'', CHR 0x08),
       (CHR ''f'', CHR 0x0C), (CHR ''n'', CHR 0x0A), (CHR ''r'', CHR 0x0D), (CHR ''t'', CHR 0x09)] c"

lemma quadhex_le: "quadhex i u s = Some (v, r) \<Longrightarrow> length r \<le> length s"
  by (induction i u s rule: quadhex.induct) (auto split: option.splits)

lemma parse_codepoint_le: "parse_codepoint s = Some (t, r) \<Longrightarrow> length r \<le> length s"
  unfolding parse_codepoint_def
  by (auto split: option.splits if_splits dest!: quadhex_le match_le)

function parse_string :: "string \<Rightarrow> string \<Rightarrow> (string \<times> string) option" where
  "parse_string out [] = None"
| "parse_string out (c # s) =
     (if (of_char c :: nat) < 32 then None
      else if c = CHR 0x22 then Some (out, s)
      else if c = CHR 0x5C then
        (case s of
           [] \<Rightarrow> None
         | e # s \<Rightarrow>
             (case simple_escape e of
                Some x \<Rightarrow> parse_string (out @ [x]) s
              | None \<Rightarrow>
                  if e = CHR ''u'' then
                    (case parse_codepoint s of None \<Rightarrow> None | Some (t, s) \<Rightarrow> parse_string (out @ t) s)
                  else None))
      else parse_string (out @ [c]) s)"
  by pat_completeness auto
termination
  by (relation "measure (\<lambda>(out, s). length s)") (auto dest: parse_codepoint_le)

declare parse_string.simps [simp del]

lemma parse_string_less: "parse_string out s = Some (t, r) \<Longrightarrow> length r < length s"
proof (induction out s rule: parse_string.induct)
  case (1 out)
  then show ?case by (simp add: parse_string.simps)
next
  case (2 out c s)
  consider "(of_char c :: nat) < 32" | "\<not> (of_char c :: nat) < 32" "c = CHR 0x22"
    | "\<not> (of_char c :: nat) < 32" "c = CHR 0x5C" | "\<not> (of_char c :: nat) < 32" "c \<noteq> CHR 0x22" "c \<noteq> CHR 0x5C"
    by blast
  then show ?case
  proof cases
    case 3
    then have c: "c \<noteq> CHR 0x22" by simp
    show ?thesis
    proof (cases s)
      case Nil
      with 3 2(4) show ?thesis by (simp add: parse_string.simps)
    next
      case (Cons e u)
      show ?thesis
      proof (cases "simple_escape e")
        case None
        have "length r < length u" if "parse_codepoint u = Some (x, u')" "parse_string (out @ x) u' = Some (t, r)" "e = CHR ''u''" for x u'
          using 2(1) [OF 3(1) c 3(2) Cons None that(3,1) refl that(2)] parse_codepoint_le [OF that(1)] by simp
        then show ?thesis
          using 2(4) [unfolded parse_string.simps(2) [of out c s]] 3 c Cons None
          by (auto simp: less_SucI split: if_splits option.splits)
      next
        case (Some x)
        then show ?thesis
          using 2(4) [unfolded parse_string.simps(2) [of out c s]] 2(2) [OF 3(1) c 3(2) Cons Some] 3 c Cons by simp
      qed
    qed
  qed (use 2(3) 2(4) [unfolded parse_string.simps(2) [of out c s]] in auto)
qed

section \<open>Numbers\<close>

text \<open>The characters of a number; the decimal point of the C locale is a full stop.\<close>

definition number_char :: "char \<Rightarrow> bool" where
  "number_char c \<longleftrightarrow> is_digit c \<or> c \<in> {CHR ''+'', CHR ''-'', CHR ''e'', CHR ''E'', CHR ''.''}"

text \<open>\<^verbatim>\<open>strtoimax\<close> over the whole text; \<open>None\<close> if it stops before the end or leaves the range.\<close>

definition strtoimax_all :: "string \<Rightarrow> int option" where
  "strtoimax_all s =
     (let neg = (take 1 s = ''-''); ds = (if neg then tl s else s);
          v = (if neg then - int (dec_val ds) else int (dec_val ds))
      in if ds \<noteq> [] \<and> list_all is_digit ds \<and> - (2 ^ 63) \<le> v \<and> v < 2 ^ 63 then Some v else None)"

text \<open>
  The double nearest to \<open>n / d\<close>, ties to even: \<open>e\<close> is the exponent of the last of its 53 bits, at
  least that of the smallest denormal.
\<close>

definition round_div :: "int \<Rightarrow> int \<Rightarrow> int" where
  "round_div n d =
     (let q = n div d; r = n mod d
      in if 2 * r < d then q else if 2 * r > d then q + 1 else if even q then q else q + 1)"

fun bit_length :: "nat \<Rightarrow> nat" where
  "bit_length n = (if n = 0 then 0 else Suc (bit_length (n div 2)))"

declare bit_length.simps [simp del]

definition scaled_div :: "int \<Rightarrow> int \<Rightarrow> int \<Rightarrow> (int \<Rightarrow> int \<Rightarrow> int) \<Rightarrow> int" where
  "scaled_div n d e f = (if e \<ge> 0 then f n (d * 2 ^ nat e) else f (n * 2 ^ nat (- e)) d)"

definition nearest_double :: "int \<Rightarrow> int \<Rightarrow> double" where
  "nearest_double n d =
     (if n = 0 then Finite 0 0
      else let e0 = int (bit_length (nat n)) - int (bit_length (nat d)) - 53;
               e1 = (if scaled_div n d e0 (div) \<ge> 2 ^ 53 then e0 + 1 else e0);
               e = max e1 (- 1074);
               q = scaled_div n d e round_div
           in if (if e \<ge> 0 then q * 2 ^ nat e \<ge> 2 ^ 1024 else False) then Infinite else Finite q e)"

text \<open>\<^verbatim>\<open>strtod\<close> over the whole text: digits with an optional point, and an optional exponent.\<close>

definition split_sign :: "string \<Rightarrow> bool \<times> string" where
  "split_sign s = (take 1 s = ''-'', if take 1 s = ''-'' \<or> take 1 s = ''+'' then tl s else s)"

definition exponent_all :: "string \<Rightarrow> int option" where
  "exponent_all s =
     (case s of
        [] \<Rightarrow> Some 0
      | c # r \<Rightarrow>
          let (neg, ds) = split_sign r
          in if (c = CHR ''e'' \<or> c = CHR ''E'') \<and> ds \<noteq> [] \<and> list_all is_digit ds
             then Some (if neg then - int (dec_val ds) else int (dec_val ds)) else None)"

definition strtod_all :: "string \<Rightarrow> double option" where
  "strtod_all s =
     (let (neg, r) = split_sign s;
          ds1 = takeWhile is_digit r; r = dropWhile is_digit r;
          (ds2, r) = (if take 1 r = ''.'' then (takeWhile is_digit (tl r), dropWhile is_digit (tl r)) else ([], r))
      in if ds1 = [] \<and> ds2 = [] then None
         else case exponent_all r of
                None \<Rightarrow> None
              | Some x \<Rightarrow>
                  let m = int (dec_val (ds1 @ ds2)); k = x - int (length ds2);
                      f = (if k \<ge> 0 then nearest_double (m * 10 ^ nat k) 1 else nearest_double m (10 ^ nat (- k)))
                  in Some (case f of Finite q e \<Rightarrow> Finite (if neg then - q else q) e | Infinite \<Rightarrow> Infinite))"

section \<open>Values\<close>

datatype 'a outcome = Parsed 'a string | Refused | Throws

definition parse_num :: "string \<Rightarrow> json outcome" where
  "parse_num s =
     (let t = takeWhile number_char s; r = dropWhile number_char s
      in case strtoimax_all t of
           Some i \<Rightarrow> Parsed (JInt (word_of_int i)) r
         | None \<Rightarrow>
             (case strtod_all t of
                None \<Rightarrow> Refused
              | Some Infinite \<Rightarrow> Throws
              | Some (Finite q e) \<Rightarrow> Parsed (JDouble (Finite q e)) r))"

definition starts_number :: "char \<Rightarrow> bool" where
  "starts_number c \<longleftrightarrow> is_digit c \<or> c = CHR ''-''"

lemma parse_num_less: "s = c # u \<Longrightarrow> starts_number c \<Longrightarrow> parse_num s = Parsed v r \<Longrightarrow> length r < length s"
  by (auto simp: parse_num_def Let_def starts_number_def number_char_def less_Suc_eq_le length_dropWhile_le
      split: option.splits double.splits)

text \<open>The values that are neither an array nor an object, from their first character.\<close>

definition parse_atom :: "char \<Rightarrow> string \<Rightarrow> json outcome" where
  "parse_atom c r =
     (if c = CHR ''n'' then (case match ''ull'' r of None \<Rightarrow> Refused | Some r \<Rightarrow> Parsed JNull r)
      else if c = CHR ''f'' then (case match ''alse'' r of None \<Rightarrow> Refused | Some r \<Rightarrow> Parsed (JBool False) r)
      else if c = CHR ''t'' then (case match ''rue'' r of None \<Rightarrow> Refused | Some r \<Rightarrow> Parsed (JBool True) r)
      else if c = CHR 0x22 then (case parse_string [] r of None \<Rightarrow> Refused | Some (t, r) \<Rightarrow> Parsed (JStr t) r)
      else if starts_number c then parse_num (c # r)
      else Refused)"

lemma parse_atom_le: "parse_atom c u = Parsed v r \<Longrightarrow> length r \<le> length u"
  using parse_num_less [OF refl, of c u v r]
  by (auto simp: parse_atom_def split: option.splits if_splits prod.splits dest: match_le parse_string_less)

text \<open>
  The three mutually recursive procedures as one: a value, the rest of an array behind its opening
  bracket or a comma, and the rest of an object.  \<open>d\<close> is \<^verbatim>\<open>depths_\<close>, which only arrays count down.  A key
  that comes twice keeps its last value, as in the map of the parser.
\<close>

datatype pj_state = Val | Items "json list" | Members "(string \<times> json) list"

function pj :: "pj_state \<Rightarrow> nat \<Rightarrow> string \<Rightarrow> json outcome" where
  "pj Val d s =
     (case skip_ws s of
        [] \<Rightarrow> Refused
      | c # r \<Rightarrow>
          if c = CHR ''['' then
            (if d = 0 then Refused
             else case expect CHR '']'' r of Some r \<Rightarrow> Parsed (JArr []) r | None \<Rightarrow> pj (Items []) (d - 1) r)
          else if c = CHR ''{'' then
            (if d = 0 then Refused
             else case expect CHR ''}'' r of Some r \<Rightarrow> Parsed (JObj []) r | None \<Rightarrow> pj (Members []) d r)
          else parse_atom c r)"
| "pj (Items vs) d s =
     (case pj Val d s of
        Parsed v r \<Rightarrow>
          (case expect CHR '','' r of
             Some r \<Rightarrow> pj (Items (vs @ [v])) d r
           | None \<Rightarrow> (case expect CHR '']'' r of None \<Rightarrow> Refused | Some r \<Rightarrow> Parsed (JArr (vs @ [v])) r))
      | Refused \<Rightarrow> Refused
      | Throws \<Rightarrow> Throws)"
| "pj (Members ms) d s =
     (case expect CHR 0x22 s of
        None \<Rightarrow> Refused
      | Some r \<Rightarrow>
          (case parse_string [] r of
             None \<Rightarrow> Refused
           | Some (k, r) \<Rightarrow>
               (case expect CHR '':'' r of
                  None \<Rightarrow> Refused
                | Some r \<Rightarrow>
                    (case pj Val d r of
                       Parsed v r \<Rightarrow>
                         (case expect CHR '','' r of
                            Some r \<Rightarrow> pj (Members (AList.update k v ms)) d r
                          | None \<Rightarrow> (case expect CHR ''}'' r of
                                       None \<Rightarrow> Refused | Some r \<Rightarrow> Parsed (JObj (AList.update k v ms)) r))
                     | Refused \<Rightarrow> Refused
                     | Throws \<Rightarrow> Throws))))"
  by pat_completeness auto

lemma pj_dom_less: "pj_dom (m, d, s) \<Longrightarrow> pj m d s = Parsed v r \<Longrightarrow> length r < length s"
proof (induction m d s arbitrary: v r rule: pj.pinduct)
  case (1 d s)
  note IH = "1.IH"
  note eq = 1(4) [unfolded pj.psimps(1) [OF 1(1)]]
  show ?case
  proof (cases "skip_ws s")
    case Nil
    with eq show ?thesis by simp
  next
    case (Cons c u)
    note eq = eq [unfolded Cons list.case]
    have "length r \<le> length u"
    proof -
      consider "c = CHR ''[''" | "c = CHR ''{''" "c \<noteq> CHR ''[''" | "c \<noteq> CHR ''[''" "c \<noteq> CHR ''{''" by auto
      then show ?thesis
      proof cases
        case 1
        note eq = eq [unfolded if_P [OF 1]]
        from eq have d: "d \<noteq> 0" by (cases "d = 0") simp_all
        note eq = eq [unfolded if_not_P [OF d]]
        show ?thesis
        proof (cases "expect CHR '']'' u")
          case None
          with IH(1) [OF Cons 1 d None, of v r] eq show ?thesis by simp
        next
          case (Some u')
          with eq expect_less [OF Some] show ?thesis by simp
        qed
      next
        case 2
        note eq = eq [unfolded if_P [OF 2(1)] if_not_P [OF 2(2)]]
        from eq have d: "d \<noteq> 0" by (cases "d = 0") simp_all
        note eq = eq [unfolded if_not_P [OF d]]
        show ?thesis
        proof (cases "expect CHR ''}'' u")
          case None
          with IH(2) [OF Cons 2(2,1) d None, of v r] eq show ?thesis by simp
        next
          case (Some u')
          with eq expect_less [OF Some] show ?thesis by simp
        qed
      next
        case 3
        from eq [unfolded if_not_P [OF 3(1)] if_not_P [OF 3(2)]] show ?thesis by (rule parse_atom_le)
      qed
    qed
    moreover have "length u < length s" using skip_ws_less [OF Cons] .
    ultimately show ?thesis by simp
  qed
next
  case (2 vs d s)
  then show ?case
    by (fastforce simp: pj.psimps(2) split: outcome.splits option.splits dest: expect_less)
next
  case (3 ms d s)
  note eq = 3(4) [unfolded pj.psimps(3) [OF 3(1)]]
  obtain r1 k r2 r3 where a: "expect CHR 0x22 s = Some r1" "parse_string [] r1 = Some (k, r2)" "expect CHR '':'' r2 = Some r3"
    using eq by (auto split: option.splits)
  note eq = eq [unfolded a option.case prod.case]
  obtain v1 r4 where b: "pj Val d r3 = Parsed v1 r4" using eq by (cases "pj Val d r3") simp_all
  have r4: "length r4 < length s"
    using 3(2) [OF a(1,2) refl a(3) b] expect_less [OF a(1)] parse_string_less [OF a(2)] expect_less [OF a(3)] by simp
  show ?case
  proof (cases "expect CHR '','' r4")
    case None
    with eq b obtain r5 where "expect CHR ''}'' r4 = Some r5" "r = r5" by (auto split: option.splits)
    with r4 show ?thesis using expect_less by fastforce
  next
    case (Some r5)
    have "pj (Members (AList.update k v1 ms)) d r5 = Parsed v r" using eq Some b by simp
    from 3(3) [OF a(1,2) refl a(3) b Some this] r4 expect_less [OF Some] show ?thesis by simp
  qed
qed

termination pj
proof (relation "measures [\<lambda>(m, d, s). length s, \<lambda>(m, d, s). case m of Val \<Rightarrow> 0 | _ \<Rightarrow> 1]", goal_cases)
qed (auto dest!: skip_ws_less expect_less parse_string_less pj_dom_less)

declare pj.simps [simp del]

text \<open>The entry point: an error is the nonempty message, and what follows the value is not read.\<close>

definition DEFAULT_MAX_DEPTHS :: nat where "DEFAULT_MAX_DEPTHS = 100"

definition picojson_parse :: "string \<Rightarrow> json outcome" where
  "picojson_parse s = pj Val DEFAULT_MAX_DEPTHS s"

text \<open>What a caller sees: the value, an error, or the exception of a number out of range.\<close>

definition picojson :: json_parser where
  "picojson s = (case picojson_parse s of Parsed v _ \<Rightarrow> Returns (Some v) | Refused \<Rightarrow> Returns None | Throws \<Rightarrow> Raises)"

section \<open>Reading back what the writers emit\<close>

text \<open>Strings without a control character, a quote or a backslash; small integers; arrays at most \<open>d\<close> deep.\<close>

definition plain_char :: "char \<Rightarrow> bool" where
  "plain_char c \<longleftrightarrow> 32 \<le> (of_char c :: nat) \<and> c \<noteq> CHR 0x22 \<and> c \<noteq> CHR 0x5C"

fun plain :: "nat \<Rightarrow> json \<Rightarrow> bool"
  and plain_items :: "nat \<Rightarrow> json list \<Rightarrow> bool"
  and plain_members :: "nat \<Rightarrow> (string \<times> json) list \<Rightarrow> bool" where
  "plain d (JInt n) = small n"
| "plain d (JStr s) = list_all plain_char s"
| "plain d (JArr vs) = (d \<noteq> 0 \<and> plain_items (d - 1) vs)"
| "plain d (JObj ms) = (d \<noteq> 0 \<and> plain_members d ms)"
| "plain d JNull = False"
| "plain d (JBool b) = False"
| "plain d (JDouble x) = False"
| "plain_items d [] = True"
| "plain_items d (v # vs) = (plain d v \<and> plain_items d vs)"
| "plain_members d [] = True"
| "plain_members d ((k, v) # ms) = (list_all plain_char k \<and> k \<notin> fst ` set ms \<and> plain d v \<and> plain_members d ms)"

lemma parse_string_plain:
  "list_all plain_char t \<Longrightarrow> parse_string out (t @ CHR 0x22 # rest) = Some (out @ t, rest)"
proof (induction t arbitrary: out)
  case Nil
  then show ?case by (simp add: parse_string.simps)
next
  case (Cons c t)
  then have "\<not> (of_char c :: nat) < 32" "c \<noteq> CHR 0x22" "c \<noteq> CHR 0x5C" by (auto simp: plain_char_def)
  with Cons show ?case by (simp add: parse_string.simps)
qed

text \<open>What may follow a value in the text of a writer.\<close>

definition delimited :: "string \<Rightarrow> bool" where
  "delimited rest \<longleftrightarrow> (case rest of [] \<Rightarrow> True | c # _ \<Rightarrow> c \<in> {CHR '','', CHR '']'', CHR ''}''})"

lemma delimited_number: "delimited rest \<Longrightarrow> (case rest of [] \<Rightarrow> True | c # _ \<Rightarrow> \<not> number_char c)"
  by (auto simp: delimited_def number_char_def is_digit_def split: list.splits)

lemma digits_number:
  "number_char c" if "is_digit c" using that by (simp add: number_char_def)

lemma parse_num_text:
  assumes n: "small n" and rest: "delimited rest"
  shows "parse_num (to_string (unat n) @ rest) = Parsed (JInt n) rest"
proof -
  let ?t = "to_string (unat n)"
  have d: "\<forall>c \<in> set ?t. is_digit c" using to_string_digits by blast
  then have "\<forall>c \<in> set ?t. number_char c" using digits_number by blast
  then have "takeWhile number_char (?t @ rest) = ?t" "dropWhile number_char (?t @ rest) = rest"
    using delimited_number [OF rest] by (auto simp: takeWhile_append dropWhile_append split: list.splits)
  moreover obtain c u where t: "?t = c # u" using to_string_nonempty [of "unat n"] by (cases ?t) auto
  moreover have "c \<noteq> CHR ''-''" using d t by (auto simp: is_digit_def)
  ultimately have "strtoimax_all ?t = Some (int (unat n))"
    using d n dec_val_to_string [of "unat n"]
    by (simp add: strtoimax_all_def list_all_iff small_def)
  then show ?thesis
    using \<open>takeWhile number_char (?t @ rest) = ?t\<close> \<open>dropWhile number_char (?t @ rest) = rest\<close>
    by (simp add: parse_num_def)
qed

lemma expect_simps [simp]:
  "expect c (c # r) = Some r" if "\<not> is_ws c" for c r
  using that by (simp add: expect_def skip_ws_def)

lemma expect_other: "\<not> is_ws x \<Longrightarrow> x \<noteq> c \<Longrightarrow> expect c (x # r) = None"
  by (simp add: expect_def skip_ws_def)

lemma not_ws [simp]: "\<not> is_ws CHR '',''" "\<not> is_ws CHR '']''" "\<not> is_ws CHR ''}''" "\<not> is_ws CHR '':''"
  "\<not> is_ws CHR 0x22" "\<not> is_ws CHR ''[''" "\<not> is_ws CHR ''{''"
  by (simp_all add: is_ws_def)

lemma digit_not_ws: "is_digit c \<Longrightarrow> \<not> is_ws c"
  by (auto simp: is_digit_def is_ws_def)

lemma render_first: "plain d v \<Longrightarrow> \<exists>c u. render v = c # u \<and> \<not> is_ws c \<and> c \<noteq> CHR '']''"
proof (cases v)
  case (JInt n)
  obtain c u where t: "to_string (unat n) = c # u" using to_string_nonempty [of "unat n"] by (cases "to_string (unat n)") auto
  then have "is_digit c" using to_string_digits [of c "unat n"] by simp
  with JInt t show ?thesis by (auto simp: digit_not_ws) (simp add: is_digit_def)
qed (simp_all add: quoted_def dquote_def)

lemma render_items_next: "render_items (Suc i) vs = (if vs = [] then [] else CHR '','' # render_items 0 vs)"
proof -
  have "render_items (Suc i) vs = render_items (Suc j) vs" for i j vs by (induction vs arbitrary: i j) auto
  from this [of "Suc i" _ 0] show ?thesis by (cases vs) auto
qed

lemma render_members_next: "render_members (Suc i) ms = (if ms = [] then [] else CHR '','' # render_members 0 ms)"
proof -
  have "render_members (Suc i) ms = render_members (Suc j) ms" for i j ms by (induction ms arbitrary: i j) auto
  from this [of "Suc i" _ 0] show ?thesis by (cases ms) auto
qed

lemma delimited_simps [simp]: "delimited (CHR '','' # r)" "delimited (CHR '']'' # r)" "delimited (CHR ''}'' # r)" "delimited []"
  by (simp_all add: delimited_def)

lemma update_new: "k \<notin> fst ` set ms \<Longrightarrow> AList.update k v ms = ms @ [(k, v)]"
  by (induction ms) auto

lemma pj_render:
  "plain d v \<Longrightarrow> delimited rest \<Longrightarrow> pj Val d (render v @ rest) = Parsed v rest"
  "plain_items d vs \<Longrightarrow> vs \<noteq> [] \<Longrightarrow> pj (Items us) d (render_items 0 vs @ CHR '']'' # rest) = Parsed (JArr (us @ vs)) rest"
  "plain_members d ms \<Longrightarrow> ms \<noteq> [] \<Longrightarrow> fst ` set ms \<inter> fst ` set ns = {} \<Longrightarrow>
    pj (Members ns) d (render_members 0 ms @ CHR ''}'' # rest) = Parsed (JObj (ns @ ms)) rest"
proof (induction d v and d vs and d ms arbitrary: rest and us rest and ns rest rule: plain_plain_items_plain_members.induct)
  case (1 d n)
  obtain c u where t: "to_string (unat n) = c # u" using to_string_nonempty [of "unat n"] by (cases "to_string (unat n)") auto
  then have c: "is_digit c" using to_string_digits [of c "unat n"] by simp
  then have "c \<notin> {CHR ''n'', CHR ''f'', CHR ''t'', CHR 0x22, CHR ''['', CHR ''{''}" by (auto simp: is_digit_def)
  moreover have "parse_num (c # u @ rest) = Parsed (JInt n) rest" using parse_num_text [of n rest] 1 t by simp
  ultimately show ?case using t c digit_not_ws [OF c] by (simp add: pj.simps(1) parse_atom_def skip_ws_def starts_number_def)
next
  case (2 d s)
  then show ?case
    using parse_string_plain [of s "[]" rest] by (simp add: pj.simps(1) parse_atom_def skip_ws_def quoted_def dquote_def)
next
  case (3 d vs)
  show ?case
  proof (cases vs)
    case Nil
    with 3 show ?thesis by (simp add: pj.simps(1) parse_atom_def skip_ws_def)
  next
    case (Cons v ws)
    then obtain c u where f: "render_items 0 vs = c # u" "\<not> is_ws c" "c \<noteq> CHR '']''"
      using 3(2) render_first [of "d - 1" v] by auto
    then show ?thesis
      using 3 Cons by (simp add: pj.simps(1) parse_atom_def skip_ws_def expect_other)
  qed
next
  case (4 d ms)
  show ?case
  proof (cases ms)
    case Nil
    with 4 show ?thesis by (simp add: pj.simps(1) parse_atom_def skip_ws_def)
  next
    case (Cons m ws)
    then have "\<exists>u. render_members 0 ms = CHR 0x22 # u" by (cases m) (simp add: quoted_def dquote_def)
    then show ?thesis using 4 Cons by (auto simp: pj.simps(1) parse_atom_def skip_ws_def expect_other)
  qed
next
  case (9 d v vs)
  then show ?case
    by (cases vs) (simp_all add: pj.simps(2) render_items_next expect_other)
next
  case (11 d k v ms)
  have s: "quoted k @ CHR '':'' # r = CHR 0x22 # k @ CHR 0x22 # CHR '':'' # r" for r by (simp add: quoted_def dquote_def)
  have k: "k \<notin> fst ` set ns" using 11(5) by auto
  show ?case
    using 11 k parse_string_plain [of k "[]"]
    by (cases "ms = []") (auto simp: pj.simps(3) s render_members_next expect_other update_new)
qed simp_all

lemma picojson_render: "plain DEFAULT_MAX_DEPTHS v \<Longrightarrow> delimited rest \<Longrightarrow> picojson_parse (render v @ rest) = Parsed v rest"
  unfolding picojson_parse_def by (rule pj_render(1))

text \<open>An object is read back whatever follows it.\<close>

lemma pj_object_rest:
  assumes "plain d (JObj ms)"
  shows "pj Val d (render (JObj ms) @ rest) = Parsed (JObj ms) rest"
  using pj_render(3) [of d ms "[]" rest] assms
  by (cases ms) (auto simp: pj.simps(1) parse_atom_def skip_ws_def expect_other quoted_def dquote_def)

section \<open>Numbers at the limits\<close>

lemma pj_number: "starts_number c \<Longrightarrow> picojson_parse (c # s) = parse_num (c # s)"
proof -
  assume c: "starts_number c"
  then have "c \<notin> {CHR ''n'', CHR ''f'', CHR ''t'', CHR 0x22, CHR ''['', CHR ''{''}" "\<not> is_ws c"
    by (auto simp: starts_number_def is_digit_def is_ws_def)
  with c show ?thesis by (simp add: picojson_parse_def pj.simps(1) parse_atom_def skip_ws_def)
qed

lemma bit_length_eq: "2 ^ k \<le> n \<Longrightarrow> n < 2 ^ Suc k \<Longrightarrow> bit_length n = Suc k"
proof (induction k arbitrary: n)
  case 0
  then have "n = 1" by simp
  then show ?case by (simp add: bit_length.simps)
next
  case (Suc k)
  then have "2 ^ k \<le> n div 2" "n div 2 < 2 ^ Suc k" by (simp_all add: less_mult_imp_div_less)
  moreover have "n \<noteq> 0" using Suc.prems(1) by (cases n) simp_all
  ultimately show ?case using Suc.IH by (subst bit_length.simps) simp
qed

lemma bit_length_bounds: "0 < n \<Longrightarrow> 2 ^ (bit_length n - 1) \<le> n \<and> n < 2 ^ bit_length n \<and> 0 < bit_length n"
proof (induction n rule: bit_length.induct)
  case (1 n)
  show ?case
  proof (cases "n div 2 = 0")
    case True
    with 1 have "n = 1" by simp
    then show ?thesis by (simp add: bit_length.simps)
  next
    case False
    with 1 have IH: "2 ^ (bit_length (n div 2) - 1) \<le> n div 2" "n div 2 < 2 ^ bit_length (n div 2)" "0 < bit_length (n div 2)"
      by simp_all
    then obtain k where k: "bit_length (n div 2) = Suc k" by (cases "bit_length (n div 2)") auto
    have "bit_length n = Suc (Suc k)" using 1(2) k by (subst bit_length.simps) simp
    moreover have "2 * (n div 2) \<le> n" "n < 2 * (n div 2) + 2" by simp_all
    ultimately show ?thesis using IH k by simp
  qed
qed

text \<open>The rounded quotient is the floor or one more.\<close>

lemma round_div_bounds:
  assumes "0 < d"
  shows "n div d \<le> round_div n d" "2 * \<bar>round_div n d * d - n\<bar> \<le> d"
proof -
  show "n div d \<le> round_div n d" by (simp add: round_div_def Let_def)
  have n: "n = d * (n div d) + n mod d" "0 \<le> n mod d" "n mod d < d" using assms by simp_all
  define q r where "q = n div d" and "r = n mod d"
  have "n = q * d + r" "0 \<le> r" "r < d" using n by (simp_all add: q_def r_def mult.commute)
  moreover have "round_div n d = (if 2 * r < d \<or> 2 * r = d \<and> even q then q else q + 1)"
    by (auto simp: round_div_def Let_def q_def r_def)
  ultimately show "2 * \<bar>round_div n d * d - n\<bar> \<le> d" by (auto simp: algebra_simps abs_if)
qed

lemma power_split: "j \<le> k \<Longrightarrow> (2 :: int) ^ j * 2 ^ (k - j) = 2 ^ k"
  by (simp flip: power_add)

text \<open>An integer of more than 53 bits is rounded to 53 of them.\<close>

lemma nearest_double_long:
  assumes "2 ^ k \<le> n" "n < 2 ^ Suc k" "53 \<le> k"
  shows "nearest_double n 1 =
    (let q = round_div n (2 ^ (k - 52)) in if q * 2 ^ (k - 52) \<ge> 2 ^ 1024 then Infinite else Finite q (int (k - 52)))"
proof -
  have pos: "0 < n" using assms(1) by (rule less_le_trans [rotated]) simp
  have "2 ^ k \<le> nat n" "nat n < 2 ^ Suc k"
    using assms(1,2) pos by (simp_all add: le_nat_iff nat_less_iff)
  then have L: "bit_length (nat n) = Suc k" by (rule bit_length_eq)
  obtain j where j: "k = j + 53" using assms(3) le_Suc_ex by (metis add.commute)
  have "bit_length 1 = 1" using bit_length_eq [of 0 1] by simp
  then have e0: "int (bit_length (nat n)) - int (bit_length (nat 1)) - 53 = int j" using L j by simp
  have "2 ^ 53 * 2 ^ j \<le> n" using assms(1) by (simp add: j power_add mult.commute)
  then have "2 ^ 53 \<le> n div 2 ^ j" using zdiv_mono1 [of "2 ^ 53 * 2 ^ j" n "2 ^ j"] by simp
  then have e: "max (if scaled_div n 1 (int j) (div) \<ge> 2 ^ 53 then int j + 1 else int j) (- 1074) = int (Suc j)"
    by (simp add: scaled_div_def)
  have q: "scaled_div n 1 (int (Suc j)) round_div = round_div n (2 ^ Suc j)" by (simp add: scaled_div_def nat_add_distrib)
  have "k - 52 = Suc j" using j by simp
  then show ?thesis
    using pos unfolding nearest_double_def Let_def e0 e q by (simp only: nat_int of_nat_0_le_iff if_True less_irrefl if_False) simp
qed

lemma nearest_double_huge:
  assumes "2 ^ 1024 \<le> n"
  shows "nearest_double n 1 = Infinite"
proof -
  define k where "k = bit_length (nat n) - 1"
  have pos: "0 < n" using assms by (rule less_le_trans [rotated]) simp
  then have b: "2 ^ k \<le> nat n" "nat n < 2 ^ Suc k" using bit_length_bounds [of "nat n"] by (simp_all add: k_def)
  then have n: "2 ^ k \<le> n" "n < 2 ^ Suc k" using pos by (simp_all add: le_nat_iff nat_less_iff)
  have "(2 :: int) ^ 1024 < 2 ^ Suc k" using assms n(2) by (rule le_less_trans)
  then have k: "1024 \<le> k" by (metis less_Suc_eq_le one_less_numeral_iff power_strict_increasing_iff semiring_norm(76))
  have p: "2 ^ 52 * 2 ^ (k - 52) = (2 :: int) ^ k" using k by (intro power_split) simp
  then have "2 ^ 52 * 2 ^ (k - 52) \<le> n" using n(1) by (simp only:)
  then have "2 ^ 52 \<le> n div 2 ^ (k - 52)" using zdiv_mono1 [of "2 ^ 52 * 2 ^ (k - 52)" n "2 ^ (k - 52)"] by simp
  then have "2 ^ 52 \<le> round_div n (2 ^ (k - 52))" using round_div_bounds(1) [of "2 ^ (k - 52)" n] by simp
  then have "2 ^ 52 * 2 ^ (k - 52) \<le> round_div n (2 ^ (k - 52)) * 2 ^ (k - 52)" by (rule mult_right_mono) simp
  then have "2 ^ k \<le> round_div n (2 ^ (k - 52)) * 2 ^ (k - 52)" unfolding p .
  moreover have "(2 :: int) ^ 1024 \<le> 2 ^ k" using k by (rule power_increasing) simp
  ultimately have "2 ^ 1024 \<le> round_div n (2 ^ (k - 52)) * 2 ^ (k - 52)" by (rule order_trans [rotated])
  moreover have "53 \<le> k" using k by simp
  ultimately show ?thesis using nearest_double_long [OF n] by (simp only: Let_def if_True)
qed

text \<open>The texts of numbers, up to what delimits them.\<close>

lemma number_text_taken:
  assumes "delimited rest" "\<forall>c \<in> set t. number_char c"
  shows "takeWhile number_char (t @ rest) = t" "dropWhile number_char (t @ rest) = rest"
  using delimited_number [OF assms(1)] assms(2) by (auto simp: takeWhile_append dropWhile_append split: list.splits)

lemma decimal_text: "\<forall>c \<in> set (to_string m). number_char c" "list_all is_digit (to_string m)"
  "take 1 (to_string m) \<noteq> ''-''" "take 1 (to_string m) \<noteq> ''+''" "to_string m \<noteq> []"
proof -
  have d: "\<forall>c \<in> set (to_string m). is_digit c" using to_string_digits by blast
  then show "\<forall>c \<in> set (to_string m). number_char c" using digits_number by blast
  show "list_all is_digit (to_string m)" using d by (simp add: list_all_iff)
  show "to_string m \<noteq> []" by (rule to_string_nonempty)
  then obtain c u where "to_string m = c # u" by (cases "to_string m") auto
  with d show "take 1 (to_string m) \<noteq> ''-''" "take 1 (to_string m) \<noteq> ''+''" by (auto simp: is_digit_def)
qed

lemma parse_num_large:
  assumes "2 ^ 63 \<le> m" "m < 2 ^ 64" "delimited rest"
  shows "parse_num (to_string m @ rest) = Parsed (JDouble (Finite (round_div (int m) 2048) 11)) rest"
proof -
  note t = decimal_text [of m] and taken = number_text_taken [OF assms(3) decimal_text(1)]
  have all: "takeWhile is_digit (to_string m) = to_string m" "dropWhile is_digit (to_string m) = []"
    using t(2) by (simp_all add: list_all_iff takeWhile_eq_all_conv dropWhile_eq_Nil_conv)
  have int: "strtoimax_all (to_string m) = None"
    using assms(1) t dec_val_to_string [of m] by (simp add: strtoimax_all_def Let_def)
  have "round_div (int m) 2048 * 2048 \<le> int m + 2048"
    using round_div_bounds(2) [of 2048 "int m"] by simp
  then have "round_div (int m) 2048 * 2048 < 2 ^ 1024" using assms(2) by simp
  moreover have "(2 :: int) ^ 63 \<le> int m" "int m < 2 ^ Suc 63" using assms(1,2) by simp_all
  ultimately have near: "nearest_double (int m) 1 = Finite (round_div (int m) 2048) 11"
    using nearest_double_long [of 63 "int m"] by (simp add: Let_def)
  have "strtod_all (to_string m) = Some (Finite (round_div (int m) 2048) 11)"
    using t(3-5) by (simp add: strtod_all_def split_sign_def exponent_all_def Let_def all near)
  then show ?thesis using int taken by (simp add: parse_num_def)
qed

lemma parse_num_exponent:
  assumes "309 \<le> k" "delimited rest"
  shows "parse_num (''1e'' @ to_string k @ rest) = Throws"
proof -
  note t = decimal_text [of k]
  have "\<forall>c \<in> set (''1e'' @ to_string k). number_char c" using t(1) by (auto simp: number_char_def is_digit_def)
  note taken = number_text_taken [OF assms(2) this]
  have int: "strtoimax_all (''1e'' @ to_string k) = None" by (simp add: strtoimax_all_def Let_def is_digit_def)
  have "(2 :: int) ^ 1024 \<le> 10 ^ 309" by simp
  also have "\<dots> \<le> 10 ^ k" using assms(1) by (rule power_increasing) simp
  finally have near: "nearest_double (10 ^ k) 1 = Infinite" by (rule nearest_double_huge)
  have "exponent_all (CHR ''e'' # to_string k) = Some (int k)"
    using t dec_val_to_string [of k] by (simp add: exponent_all_def split_sign_def)
  moreover have "dec_val ''1'' = 1" by (simp add: dec_val_def digit_val_def)
  ultimately have "strtod_all (''1e'' @ to_string k) = Some Infinite"
    using near by (simp add: strtod_all_def split_sign_def is_digit_def Let_def)
  then show ?thesis using int taken by (simp add: parse_num_def)
qed

lemma large_exact:
  fixes n :: u64
  assumes near: "\<bar>q * 2048 - int (unat n)\<bar> \<le> 1024" and q: "0 \<le> q" "q < 2 ^ 53"
  shows "word_of_int (q * 2048) = n \<longleftrightarrow> 2048 dvd unat n"
proof -
  have m: "take_bit 64 (q * 2048) = q * 2048" using q by (intro take_bit_int_eq_self) simp_all
  have "word_of_int (q * 2048) = n \<longleftrightarrow> q * 2048 = int (unat n)"
  proof
    assume "word_of_int (q * 2048) = n"
    then have "uint n = uint (word_of_int (q * 2048) :: u64)" by (simp only:)
    also have "\<dots> = take_bit 64 (q * 2048)" unfolding uint_word_of_int_eq by (simp only: len_bit0 len_num1) simp
    finally show "q * 2048 = int (unat n)" using m by simp
  next
    assume "q * 2048 = int (unat n)"
    then show "word_of_int (q * 2048) = n" by simp
  qed
  also have "\<dots> \<longleftrightarrow> 2048 dvd int (unat n)"
  proof
    assume "2048 dvd int (unat n)"
    then obtain k where "int (unat n) = 2048 * k" by (elim dvdE)
    with near show "q * 2048 = int (unat n)" by simp
  qed (metis dvd_triv_right)
  finally show ?thesis by (metis int_dvd_int_iff of_nat_numeral)
qed

text \<open>
  C17. How the reader takes the decimals of 64-bit integers.  Below \<open>2 ^ 63\<close> the value is exact.  From there
  on it is the nearest double, a multiple of 2048 at most 1024 away: the readers of the program get that
  multiple, which is the integer only if 2048 divides it, and where it is \<open>2 ^ 64\<close> the conversion of the double is undefined
  (\<open>ub\<close>).  A power of ten out of the range of a double is no error of the parse but an exception.
\<close>

theorem picojson_number_limits:
  assumes "delimited rest"
  shows "(small n \<longrightarrow> picojson_parse (to_string (unat n) @ rest) = Parsed (JInt n) rest \<and>
      get_u64_key ub [(key, JInt n)] key = Some n) \<and>
    (\<not> small n \<longrightarrow> (\<exists>q. picojson_parse (to_string (unat n) @ rest) = Parsed (JDouble (Finite q 11)) rest \<and>
      \<bar>q * 2048 - int (unat n)\<bar> \<le> 1024 \<and>
      get_u64_key ub [(key, JDouble (Finite q 11))] key =
        Some (if q < 2 ^ 53 then word_of_int (q * 2048) else ub (Finite q 11)) \<and>
      (q < 2 ^ 53 \<longrightarrow> (word_of_int (q * 2048) = n \<longleftrightarrow> 2048 dvd unat n)))) \<and>
    (309 \<le> x \<longrightarrow> picojson_parse (''1e'' @ to_string x @ rest) = Throws)"
proof (intro conjI impI)
  have digits: "picojson_parse (to_string m @ rest) = parse_num (to_string m @ rest)" for m
  proof -
    obtain c u where t: "to_string m = c # u" using decimal_text(5) [of m] by (cases "to_string m") auto
    then have "is_digit c" using decimal_text(2) [of m] by simp
    then show ?thesis using pj_number [of c "u @ rest"] t by (simp add: starts_number_def)
  qed
  show "picojson_parse (''1e'' @ to_string x @ rest) = Throws" if "309 \<le> x"
    using parse_num_exponent [OF that assms] pj_number [of "CHR ''1''" "CHR ''e'' # to_string x @ rest"]
    by (simp add: starts_number_def is_digit_def)
  show "get_u64_key ub [(key, JInt n)] key = Some n" if "small n"
    using small_sint [OF that] by (simp add: get_u64_key_def)
  show "picojson_parse (to_string (unat n) @ rest) = Parsed (JInt n) rest" if "small n"
    using digits parse_num_text [OF that assms] by simp
  let ?q = "round_div (int (unat n)) 2048"
  assume "\<not> small n"
  then have n: "2 ^ 63 \<le> unat n" "unat n < 2 ^ 64" using unsigned_less [of n, where ?'a = nat] by (simp_all add: small_def)
  have near: "\<bar>?q * 2048 - int (unat n)\<bar> \<le> 1024" using round_div_bounds(2) [of 2048 "int (unat n)"] by simp
  have pos: "0 \<le> ?q"
    by (rule order_trans [OF _ round_div_bounds(1)]) (simp_all add: pos_imp_zdiv_nonneg_iff)
  have "word_of_int (?q * 2048) = n \<longleftrightarrow> 2048 dvd unat n" if "?q < 2 ^ 53"
    using large_exact [OF near pos that] .
  then show "\<exists>q. picojson_parse (to_string (unat n) @ rest) = Parsed (JDouble (Finite q 11)) rest \<and>
      \<bar>q * 2048 - int (unat n)\<bar> \<le> 1024 \<and>
      get_u64_key ub [(key, JDouble (Finite q 11))] key =
        Some (if q < 2 ^ 53 then word_of_int (q * 2048) else ub (Finite q 11)) \<and>
      (q < 2 ^ 53 \<longrightarrow> (word_of_int (q * 2048) = n \<longleftrightarrow> 2048 dvd unat n))"
    using digits parse_num_large [OF n assms] near pos
    by (intro exI [of _ ?q]) (simp add: get_u64_key_def cast_u64_def trunc_double_def)
qed

theorem picojson_number_limits_witness:
  "picojson_parse ''9223372036854775809'' = Parsed (JDouble (Finite (2 ^ 52) 11)) [] \<and>
   get_u64_key (\<lambda>_. 0) [(''amount'', JDouble (Finite (2 ^ 52) 11))] ''amount'' = Some 9223372036854775808"
proof -
  let ?n = "9223372036854775809 :: u64"
  have t: "to_string 9223372036854775809 = ''9223372036854775809''"
    by (simp add: to_string.simps digit_char_def) code_simp
  have u: "unat ?n = 9223372036854775809" "\<not> small ?n" by (simp_all add: small_def)
  have "delimited []" by simp
  note limits = picojson_number_limits [OF this, of ?n "\<lambda>_. 0" "''amount''" 309]
  obtain q where
    q: "picojson_parse ''9223372036854775809'' = Parsed (JDouble (Finite q 11)) []" "\<bar>q * 2048 - int 9223372036854775809\<bar> \<le> 1024"
      "get_u64_key (\<lambda>_. 0) [(''amount'', JDouble (Finite q 11))] ''amount'' =
        Some (if q < 2 ^ 53 then word_of_int (q * 2048) else 0)"
    using limits [THEN conjunct2, THEN conjunct1, THEN mp, OF u(2)] unfolding u(1) t append_Nil2 by (elim exE conjE) (rule that; assumption)
  from q(2) have "q = 2 ^ 52" by simp
  with q show ?thesis by simp
qed

section \<open>The texts of the program\<close>

lemma plain_hex [simp]: "list_all plain_char (to_hex bs)"
proof -
  have "plain_char (kHex ! n)" if "n < 16" for n
    using less16_cases [OF that] by (auto simp: kHex_def plain_char_def)
  then show ?thesis unfolding list_all_iff using to_hex_chars by blast
qed

lemma small_byte [simp]: "small (ucast (b :: byte))"
  using unsigned_less [of b, where ?'a = nat] by (simp add: small_def)

lemma plain_txn: "txn_small t \<Longrightarrow> plain (Suc d) (txn_json t)"
  by (simp add: txn_json_def txn_small_def plain_char_def)

lemma plain_txns: "list_all txn_small ts \<Longrightarrow> plain_items (Suc d) (map txn_json ts)"
  by (induction ts) (simp_all add: plain_txn)

lemma plain_block: "block_small b \<Longrightarrow> plain DEFAULT_MAX_DEPTHS (block_json b)"
  using plain_txns [of "blk_txns b" 98]
  by (simp add: block_json_def block_small_def Let_def plain_char_def DEFAULT_MAX_DEPTHS_def)

lemma picojson_plain: "plain DEFAULT_MAX_DEPTHS v \<Longrightarrow> reads_back picojson v"
  using picojson_render [of v "[]"] by (simp add: reads_back_def picojson_def)

lemma picojson_block: "block_small b \<Longrightarrow> reads_back picojson (block_json b)"
  by (intro picojson_plain plain_block)

lemma block_read_back: "block_small b \<Longrightarrow> from_json_line ub picojson (to_json_line b) = Returns (Some b)"
  using from_json_of_block picojson_block by blast

lemma picojson_object: "plain DEFAULT_MAX_DEPTHS (JObj ms) \<Longrightarrow> picojson (render (JObj ms) @ rest) = Returns (Some (JObj ms))"
  using pj_object_rest [of DEFAULT_MAX_DEPTHS ms rest] by (simp add: picojson_def picojson_parse_def)

text \<open>A line is read up to the end of its object; text behind it is ignored.\<close>

lemma block_read_back_prefix:
  assumes "block_small b"
  shows "from_json_line ub picojson (to_json_line b @ junk) = Returns (Some b)"
proof -
  obtain ms where ms: "block_json b = JObj ms" by (simp add: block_json_def Let_def)
  have "picojson (to_json_line b @ junk) = picojson (to_json_line b)"
    using picojson_object [of ms] plain_block [OF assms] unfolding to_json_line_render ms by (metis append_Nil2)
  then show ?thesis using block_read_back [OF assms, of ub] by (simp add: from_json_line_def)
qed

end
