(* ===== verification/Ledger.thy ===== *)
theory Ledger
  imports Canonical
begin

text \<open>
  The account map the chain, the replay validator, the mempool's shadow and the candidate builder
  all work on (\<^verbatim>\<open>std::map<Address, AccountState>\<close>), the address derivation of
  \<^verbatim>\<open>crypto/address.cpp\<close>, and the interface \<open>account_store\<close> under which the conservation
  lemmas are proved once.

  A \<^verbatim>\<open>std::map\<close> is an association list with distinct keys; the code never depends on its
  iteration order (the one loop over it is a sum).
\<close>

section \<open>Addresses\<close>

type_synonym address = "byte list"

definition address :: "byte list \<Rightarrow> address" where
  "address pubkey = (let digest = sha256 pubkey in map (\<lambda>i. digest ! i) [0..<20])"

definition address_matches :: "address \<Rightarrow> byte list \<Rightarrow> bool" where
  "address_matches from pubkey \<longleftrightarrow> from = address pubkey"

lemma address_eq: "address pubkey = take 20 (sha256 pubkey)"
  by (intro nth_equalityI) (simp_all add: address_def Let_def)

lemma length_address [simp, codec_simps]: "length (address pubkey) = 20"
  by (simp add: address_eq)

section \<open>Account states and the account map\<close>

record account_state =
  acc_balance :: u64
  acc_nonce :: u64

definition no_account :: account_state where
  "no_account = \<lparr>acc_balance = 0, acc_nonce = 0\<rparr>"

type_synonym ledger = "(address \<times> account_state) list"

text \<open>\<^verbatim>\<open>work.count(a) ? work[a] : AccountState{}\<close>, and the assignment \<^verbatim>\<open>work[a] = s\<close>.\<close>

definition acct :: "ledger \<Rightarrow> address \<Rightarrow> account_state" where
  "acct l a = (case map_of l a of None \<Rightarrow> no_account | Some s \<Rightarrow> s)"

definition set_acct :: "ledger \<Rightarrow> address \<Rightarrow> account_state \<Rightarrow> ledger" where
  "set_acct l a s = AList.update a s l"

text \<open>The sum over the map, at the width of the code and as a number.\<close>

definition balance_sum :: "ledger \<Rightarrow> u64" where
  "balance_sum l = fold (\<lambda>kv actual. actual + acc_balance (snd kv)) l 0"

definition total_supply :: "ledger \<Rightarrow> nat" where
  "total_supply l = (\<Sum>kv\<leftarrow>l. unat (acc_balance (snd kv)))"

definition wf_ledger :: "ledger \<Rightarrow> bool" where
  "wf_ledger l \<longleftrightarrow> distinct (map fst l)"

section \<open>The interface of an account map\<close>

locale account_store =
  fixes get :: "'m \<Rightarrow> address \<Rightarrow> account_state"
    and put :: "'m \<Rightarrow> address \<Rightarrow> account_state \<Rightarrow> 'm"
    and total :: "'m \<Rightarrow> nat"
    and wf :: "'m \<Rightarrow> bool"
  assumes get_put: "get (put m a s) b = (if b = a then s else get m b)"
    and wf_put: "wf m \<Longrightarrow> wf (put m a s)"
    and total_put: "wf m \<Longrightarrow>
      total (put m a s) + unat (acc_balance (get m a)) = total m + unat (acc_balance s)"
begin

lemma balance_le_total: "wf m \<Longrightarrow> unat (acc_balance (get m a)) \<le> total m"
  using total_put [of m a no_account] by (simp add: no_account_def)

lemma two_balances_le_total:
  assumes "wf m" "a \<noteq> b"
  shows "unat (acc_balance (get m a)) + unat (acc_balance (get m b)) \<le> total m"
proof -
  have "unat (acc_balance (get (put m a no_account) b)) \<le> total (put m a no_account)"
    by (rule balance_le_total [OF wf_put [OF assms(1)]])
  then show ?thesis
    using total_put [OF assms(1), of a no_account] assms(2) by (simp add: get_put no_account_def)
qed

text \<open>Adding to one account adds to the total, if the addition does not wrap.\<close>

lemma credit_total:
  assumes "wf m" "total m + unat x < 2 ^ 64" "acc_balance s = acc_balance (get m a) + x"
  shows "total (put m a s) = total m + unat x"
proof -
  have "unat (acc_balance (get m a)) + unat x < 2 ^ 64"
    using balance_le_total [OF assms(1), of a] assms(2) by linarith
  then have "unat (acc_balance s) = unat (acc_balance (get m a)) + unat x"
    unfolding assms(3) by (subst unat_add_lem [THEN iffD1]) simp_all
  then show ?thesis using total_put [OF assms(1), of a s] by simp
qed

text \<open>Writing one account twice counts the second value only.\<close>

lemma overwrite_total: "wf m \<Longrightarrow> total (put (put m a s1) a s2) = total (put m a s2)"
  using total_put [of m a s1] total_put [of m a s2] total_put [OF wf_put, of m a s1 a s2]
  by (simp add: get_put)

text \<open>A debit of one account and a credit of another leave the total as it was.\<close>

lemma transfer_total:
  assumes wf: "wf m" and ne: "a \<noteq> b" and small: "total m < 2 ^ 64"
    and funds: "x \<le> acc_balance (get m a)"
    and sa: "acc_balance sa = acc_balance (get m a) - x"
    and sb: "acc_balance sb = acc_balance (get m b) + x"
  shows "total (put (put m a sa) b sb) = total m"
proof -
  let ?m = "put m a sa"
  have debit: "unat (acc_balance sa) = unat (acc_balance (get m a)) - unat x"
    using funds unfolding sa by (simp add: unat_sub)
  have le: "unat x \<le> unat (acc_balance (get m a))" using funds by (simp add: word_le_nat_alt)
  have mid: "total ?m + unat x = total m"
    using total_put [OF wf, of a sa] debit le by simp
  have "total (put ?m b sb) = total ?m + unat x"
    using ne small mid sb by (intro credit_total wf_put wf) (simp_all add: get_put)
  with mid show ?thesis by simp
qed

end

section \<open>The association list provides it\<close>

lemma acct_set [ledger_simps]: "acct (set_acct l a s) b = (if b = a then s else acct l b)"
  by (simp add: acct_def set_acct_def update_conv')

lemma wf_set_acct [ledger_simps]: "wf_ledger l \<Longrightarrow> wf_ledger (set_acct l a s)"
  by (simp add: wf_ledger_def set_acct_def distinct_update)

lemma total_supply_set_acct:
  "wf_ledger l \<Longrightarrow>
   total_supply (set_acct l a s) + unat (acc_balance (acct l a)) = total_supply l + unat (acc_balance s)"
proof (induction l)
  case Nil
  then show ?case by (simp add: set_acct_def total_supply_def acct_def no_account_def)
next
  case (Cons kv l)
  obtain k v where kv: "kv = (k, v)" by (cases kv)
  show ?case
  proof (cases "k = a")
    case True
    then show ?thesis by (simp add: kv set_acct_def total_supply_def acct_def)
  next
    case False
    with Cons show ?thesis by (simp add: kv set_acct_def total_supply_def acct_def wf_ledger_def)
  qed
qed

interpretation accts: account_store acct set_acct total_supply wf_ledger
  by unfold_locales (simp_all add: acct_set wf_set_acct total_supply_set_acct)

lemma balance_sum_of_supply: "balance_sum l = word_of_nat (total_supply l)"
proof -
  have "fold (\<lambda>kv actual. actual + acc_balance (snd kv)) l s = s + word_of_nat (total_supply l)" for s
    by (induction l arbitrary: s) (simp_all add: total_supply_def)
  then show ?thesis by (simp add: balance_sum_def)
qed

lemma unat_balance_sum: "total_supply l < 2 ^ 64 \<Longrightarrow> unat (balance_sum l) = total_supply l"
  by (simp add: balance_sum_of_supply unat_of_nat)

end
