(* ===== verification/Gate.thy ===== *)
theory Gate
  imports Ledger
begin

text \<open>
  The per-transaction verification gate and the application of a block's transactions
  (\<^verbatim>\<open>chain/gate.cpp\<close>), with the reasons (\<^verbatim>\<open>chain/reason.hpp\<close>) and parameters
  (\<^verbatim>\<open>chain/params.hpp\<close>) it uses.  The Ed25519 verifier is one of two backends chosen at build
  time; it is the argument \<open>vf\<close> of every definition that reaches it.

  The lemmas characterise the gate on each branch, account for the supply it moves or mints, and
  show that the block loop is the gate applied transaction by transaction.
\<close>

section \<open>Reasons and parameters\<close>

datatype reason = OK | BAD_LINK | BAD_TXNS_HASH | BAD_POW | BAD_SIG | BAD_ADDR | STALE_NONCE
  | INSUFFICIENT_FUNDS | BAD_SUPPLY

fun reasonName :: "reason \<Rightarrow> string" where
  "reasonName OK = ''OK''"
| "reasonName BAD_LINK = ''BAD_LINK''"
| "reasonName BAD_TXNS_HASH = ''BAD_TXNS_HASH''"
| "reasonName BAD_POW = ''BAD_POW''"
| "reasonName BAD_SIG = ''BAD_SIG''"
| "reasonName BAD_ADDR = ''BAD_ADDR''"
| "reasonName STALE_NONCE = ''STALE_NONCE''"
| "reasonName INSUFFICIENT_FUNDS = ''INSUFFICIENT_FUNDS''"
| "reasonName BAD_SUPPLY = ''BAD_SUPPLY''"

definition MAX_CLOCK_SKEW_S :: u64 where "MAX_CLOCK_SKEW_S = 7200"
definition MAX_TXNS_PER_BLOCK :: nat where "MAX_TXNS_PER_BLOCK = 8"
definition COINBASE_REWARD :: u64 where "COINBASE_REWARD = 50"
definition DIFFICULTY_BITS :: u32 where "DIFFICULTY_BITS = 22"

definition kNullAddr :: address where "kNullAddr = replicate 20 0"
definition kNullPub :: "byte list" where "kNullPub = replicate 32 0"
definition kNullSig :: "byte list" where "kNullSig = replicate 64 0"

type_synonym verifier = "byte list \<Rightarrow> byte list \<Rightarrow> byte list \<Rightarrow> bool"

definition txn_detail :: "reason \<Rightarrow> nat \<Rightarrow> string" where
  "txn_detail r ti =
     (let suffix = '' for txn '' @ to_string ti
      in case r of
           BAD_ADDR \<Rightarrow> ''from != SHA-256(pubkey)[:20]'' @ suffix
         | BAD_SIG \<Rightarrow> ''ed25519 verify failed'' @ suffix
         | STALE_NONCE \<Rightarrow> ''nonce not next-expected'' @ suffix
         | INSUFFICIENT_FUNDS \<Rightarrow> ''amount exceeds balance'' @ suffix
         | _ \<Rightarrow> ''txn'' @ suffix)"

section \<open>The gate\<close>

definition coinbaseTxn :: "address \<Rightarrow> u64 \<Rightarrow> txn" where
  "coinbaseTxn to height =
     \<lparr>tx_ver = kTxnVersion, tx_from = kNullAddr, tx_to = to, tx_amount = COINBASE_REWARD,
      tx_nonce = height, tx_pubkey = kNullPub, tx_sig = kNullSig\<rparr>"

definition credit :: "ledger \<Rightarrow> address \<Rightarrow> u64 \<Rightarrow> ledger" where
  "credit work a x = set_acct work a ((acct work a)\<lparr>acc_balance := acc_balance (acct work a) + x\<rparr>)"

definition applyTxn :: "verifier \<Rightarrow> ledger \<Rightarrow> txn \<Rightarrow> u64 \<Rightarrow> nat \<Rightarrow> reason \<times> ledger" where
  "applyTxn vf work t block_index txn_index =
     (let null_from = (tx_from t = kNullAddr)
      in if null_from then
           if txn_index \<noteq> 0 then (BAD_TXNS_HASH, work)
           else if tx_pubkey t \<noteq> kNullPub \<or> tx_sig t \<noteq> kNullSig \<or> tx_nonce t \<noteq> block_index
             then (BAD_TXNS_HASH, work)
           else if tx_amount t \<noteq> COINBASE_REWARD then (BAD_SUPPLY, work)
           else (OK, credit work (tx_to t) (tx_amount t))
         else if \<not> address_matches (tx_from t) (tx_pubkey t) then (BAD_ADDR, work)
         else if \<not> vf (tx_pubkey t) (tx_sig t) (signed_payload t) then (BAD_SIG, work)
         else
           let from_before = acct work (tx_from t)
           in if tx_nonce t \<noteq> acc_nonce from_before then (STALE_NONCE, work)
              else if tx_amount t > acc_balance from_before then (INSUFFICIENT_FUNDS, work)
              else
                let to_before = acct work (tx_to t);
                    from_after = \<lparr>acc_balance = acc_balance from_before - tx_amount t,
                                  acc_nonce = acc_nonce from_before + 1\<rparr>;
                    to_after = to_before\<lparr>acc_balance := acc_balance to_before + tx_amount t\<rparr>
                in (OK, set_acct (set_acct work (tx_from t) from_after) (tx_to t) to_after))"

section \<open>A block's transactions\<close>

record block_apply_result =
  bar_reason :: reason
  bar_detail :: string
  bar_txn_index :: nat

text \<open>
  The loop: \<open>cb\<close> is \<^verbatim>\<open>coinbase_count\<close>, \<open>ti\<close> the index.  An early return is \<open>Inl\<close>, with the
  account map as it was then; running off the end gives the count.
\<close>

fun block_loop :: "verifier \<Rightarrow> u64 \<Rightarrow> ledger \<Rightarrow> nat \<Rightarrow> nat \<Rightarrow> txn list \<Rightarrow>
    (block_apply_result \<times> ledger) + (nat \<times> ledger)" where
  "block_loop vf idx work cb ti [] = Inr (cb, work)"
| "block_loop vf idx work cb ti (t # ts) =
     (if tx_from t = kNullAddr then
        if cb + 1 > 1 then Inl (\<lparr>bar_reason = BAD_TXNS_HASH, bar_detail = ''duplicate coinbase'', bar_txn_index = ti\<rparr>, work)
        else if ti \<noteq> 0 then Inl (\<lparr>bar_reason = BAD_TXNS_HASH, bar_detail = ''coinbase not at tx0'', bar_txn_index = ti\<rparr>, work)
        else if tx_pubkey t \<noteq> kNullPub \<or> tx_sig t \<noteq> kNullSig \<or> tx_nonce t \<noteq> idx
          then Inl (\<lparr>bar_reason = BAD_TXNS_HASH, bar_detail = ''malformed coinbase'', bar_txn_index = ti\<rparr>, work)
        else if tx_amount t \<noteq> COINBASE_REWARD
          then Inl (\<lparr>bar_reason = BAD_SUPPLY, bar_detail = ''bad coinbase reward'', bar_txn_index = ti\<rparr>, work)
        else block_loop vf idx (credit work (tx_to t) (tx_amount t)) (cb + 1) (Suc ti) ts
      else
        let (r, work) = applyTxn vf work t idx ti
        in if r \<noteq> OK then Inl (\<lparr>bar_reason = r, bar_detail = txn_detail r ti, bar_txn_index = ti\<rparr>, work)
           else block_loop vf idx work cb (Suc ti) ts)"

definition applyBlockTxns :: "verifier \<Rightarrow> ledger \<Rightarrow> block \<Rightarrow> u64 \<Rightarrow> block_apply_result \<times> ledger" where
  "applyBlockTxns vf work b reward =
     (case block_loop vf (bh_index (blk_header b)) work 0 0 (blk_txns b) of
        Inl res \<Rightarrow> res
      | Inr (coinbase_count, work) \<Rightarrow>
          if reward > 0 \<and> coinbase_count = 0
          then (\<lparr>bar_reason = BAD_SUPPLY, bar_detail = ''missing coinbase'',
                 bar_txn_index = length (blk_txns b)\<rparr>, work)
          else (\<lparr>bar_reason = OK, bar_detail = [], bar_txn_index = 0\<rparr>, work))"

section \<open>The gate, branch by branch\<close>

lemma applyTxn_unchanged: "applyTxn vf work t idx ti = (r, work') \<Longrightarrow> r \<noteq> OK \<Longrightarrow> work' = work"
  by (auto simp: applyTxn_def Let_def split: if_splits)

text \<open>Acceptance of a transfer, and the accounts after it.\<close>

definition transfer_ok :: "verifier \<Rightarrow> ledger \<Rightarrow> txn \<Rightarrow> bool" where
  "transfer_ok vf work t \<longleftrightarrow>
     address_matches (tx_from t) (tx_pubkey t) \<and> vf (tx_pubkey t) (tx_sig t) (signed_payload t) \<and>
     tx_nonce t = acc_nonce (acct work (tx_from t)) \<and>
     tx_amount t \<le> acc_balance (acct work (tx_from t))"

definition coinbase_ok :: "txn \<Rightarrow> u64 \<Rightarrow> nat \<Rightarrow> bool" where
  "coinbase_ok t idx ti \<longleftrightarrow> ti = 0 \<and> tx_pubkey t = kNullPub \<and> tx_sig t = kNullSig \<and>
     tx_nonce t = idx \<and> tx_amount t = COINBASE_REWARD"

definition moved :: "ledger \<Rightarrow> txn \<Rightarrow> ledger" where
  "moved work t =
     set_acct (set_acct work (tx_from t)
        \<lparr>acc_balance = acc_balance (acct work (tx_from t)) - tx_amount t,
         acc_nonce = acc_nonce (acct work (tx_from t)) + 1\<rparr>)
       (tx_to t) ((acct work (tx_to t))\<lparr>acc_balance := acc_balance (acct work (tx_to t)) + tx_amount t\<rparr>)"

lemma applyTxn_transfer_OK_iff:
  "tx_from t \<noteq> kNullAddr \<Longrightarrow>
   applyTxn vf work t idx ti = (OK, work') \<longleftrightarrow> transfer_ok vf work t \<and> work' = moved work t"
  by (auto simp: applyTxn_def transfer_ok_def moved_def Let_def not_less)

lemma applyTxn_coinbase_OK_iff:
  "tx_from t = kNullAddr \<Longrightarrow>
   applyTxn vf work t idx ti = (OK, work') \<longleftrightarrow>
   coinbase_ok t idx ti \<and> work' = credit work (tx_to t) COINBASE_REWARD"
  by (auto simp: applyTxn_def coinbase_ok_def Let_def)

section \<open>Supply\<close>

text \<open>
  What an accepted transaction adds to the supply.  A coinbase mints fifty, which is the only amount the
  gate lets through.  A transfer to
  another account adds nothing.  A transfer of an account to itself adds its amount: the credited
  state is computed from the balance before the debit and overwrites it.
\<close>

definition minted :: "txn \<Rightarrow> nat" where
  "minted t = (if tx_from t = kNullAddr then 50 else if tx_from t = tx_to t then unat (tx_amount t) else 0)"

lemma wf_credit [ledger_simps]: "wf_ledger w \<Longrightarrow> wf_ledger (credit w a x)"
  by (simp add: credit_def ledger_simps)

lemma wf_moved [ledger_simps]: "wf_ledger w \<Longrightarrow> wf_ledger (moved w t)"
  by (simp add: moved_def ledger_simps)

lemma total_credit:
  "wf_ledger w \<Longrightarrow> total_supply w + unat x < 2 ^ 64 \<Longrightarrow>
   total_supply (credit w a x) = total_supply w + unat x"
  by (simp add: credit_def accts.credit_total)

lemma total_moved:
  assumes wf: "wf_ledger w" and ok: "transfer_ok vf w t" and null: "tx_from t \<noteq> kNullAddr"
    and small: "total_supply w + minted t < 2 ^ 64"
  shows "total_supply (moved w t) = total_supply w + minted t"
proof (cases "tx_from t = tx_to t")
  case True
  then show ?thesis
    using small null by (simp add: moved_def accts.overwrite_total [OF wf] minted_def accts.credit_total [OF wf])
next
  case False
  have "total_supply (moved w t) = total_supply w"
    unfolding moved_def
    using small ok by (intro accts.transfer_total [OF wf False, where x = "tx_amount t"])
      (simp_all add: transfer_ok_def)
  with False null show ?thesis by (simp add: minted_def)
qed

lemma applyTxn_wf:
  "applyTxn vf w t idx ti = (r, w') \<Longrightarrow> wf_ledger w \<Longrightarrow> wf_ledger w'"
  by (auto simp: applyTxn_def Let_def ledger_simps split: if_splits)

lemma applyTxn_total:
  assumes "applyTxn vf w t idx ti = (OK, w')" "wf_ledger w" "total_supply w + minted t < 2 ^ 64"
  shows "total_supply w' = total_supply w + minted t"
proof (cases "tx_from t = kNullAddr")
  case True
  with assms show ?thesis
    by (auto simp: applyTxn_coinbase_OK_iff coinbase_ok_def minted_def total_credit COINBASE_REWARD_def)
next
  case False
  with assms show ?thesis
    by (auto simp: applyTxn_transfer_OK_iff intro: total_moved)
qed

section \<open>The block loop is the gate, transaction by transaction\<close>

definition is_coinbase :: "txn \<Rightarrow> bool" where
  "is_coinbase t \<longleftrightarrow> tx_from t = kNullAddr"

lemma block_loop_Cons:
  assumes "block_loop vf idx work cb ti (t # ts) = Inr (n, w)"
  obtains w1 where "applyTxn vf work t idx ti = (OK, w1)"
    "block_loop vf idx w1 (if is_coinbase t then Suc cb else cb) (Suc ti) ts = Inr (n, w)"
    "is_coinbase t \<Longrightarrow> ti = 0 \<and> cb = 0"
  using assms
  by (cases "tx_from t = kNullAddr")
    (auto simp: is_coinbase_def applyTxn_coinbase_OK_iff coinbase_ok_def
      split: if_splits prod.splits)

lemma block_loop_coinbases:
  "block_loop vf idx work cb ti ts = Inr (n, w) \<Longrightarrow>
   n = cb + length (filter is_coinbase ts) \<and> (0 < ti \<longrightarrow> filter is_coinbase ts = [])"
proof (induction ts arbitrary: work cb ti)
  case Nil
  then show ?case by simp
next
  case (Cons t ts)
  obtain w1 where step: "is_coinbase t \<Longrightarrow> ti = 0 \<and> cb = 0"
    "block_loop vf idx w1 (if is_coinbase t then Suc cb else cb) (Suc ti) ts = Inr (n, w)"
    using block_loop_Cons [OF Cons.prems] by metis
  with Cons.IH [OF step(2)] show ?case by (auto split: if_splits)
qed

lemma block_loop_wf:
  "block_loop vf idx work cb ti ts = Inr (n, w) \<Longrightarrow> wf_ledger work \<Longrightarrow> wf_ledger w"
proof (induction ts arbitrary: work cb ti)
  case Nil
  then show ?case by simp
next
  case (Cons t ts)
  from block_loop_Cons [OF Cons.prems(1)] show ?case
    by (metis Cons.IH Cons.prems(2) applyTxn_wf)
qed

lemma block_loop_total:
  "block_loop vf idx work cb ti ts = Inr (n, w) \<Longrightarrow> wf_ledger work \<Longrightarrow>
   total_supply work + sum_list (map minted ts) < 2 ^ 64 \<Longrightarrow>
   total_supply w = total_supply work + sum_list (map minted ts)"
proof (induction ts arbitrary: work cb ti)
  case Nil
  then show ?case by simp
next
  case (Cons t ts)
  obtain w1 where step: "applyTxn vf work t idx ti = (OK, w1)"
    "block_loop vf idx w1 (if is_coinbase t then Suc cb else cb) (Suc ti) ts = Inr (n, w)"
    using block_loop_Cons [OF Cons.prems(1)] by metis
  have "total_supply w1 = total_supply work + minted t"
    using applyTxn_total [OF step(1) Cons.prems(2)] Cons.prems(3) by simp
  with Cons.IH [OF step(2) applyTxn_wf [OF step(1) Cons.prems(2)]] Cons.prems(3)
  show ?case by simp
qed

lemma applyBlockTxns_OK_iff:
  "applyBlockTxns vf work b reward = (r, w) \<and> bar_reason r = OK \<longleftrightarrow>
   r = \<lparr>bar_reason = OK, bar_detail = [], bar_txn_index = 0\<rparr> \<and>
   (\<exists>n. block_loop vf (bh_index (blk_header b)) work 0 0 (blk_txns b) = Inr (n, w) \<and>
        (reward > 0 \<longrightarrow> 0 < n))"
proof -
  have err: "bar_reason e \<noteq> OK"
    if "block_loop vf idx work cb ti ts = Inl (e, w)" for idx work cb ti ts e w
    using that
    by (induction vf idx work cb ti ts rule: block_loop.induct)
      (auto split: if_splits prod.splits)
  show ?thesis
    by (auto simp: applyBlockTxns_def dest: err split: sum.splits if_splits)
qed

end
