(* ===== verification/Sha256_Eval.thy ===== *)
theory Sha256_Eval
  imports Sha256
begin

text \<open>
  Evaluation of the digest inside the kernel.  The functions below mirror the compression
  function on reduced integers, which the simplifier computes with directly; \<open>uint_sha256\<close> says
  they agree with the model, so that a digest of a concrete message is one rewriting proof.
\<close>

definition i_rotr :: "nat \<Rightarrow> int \<Rightarrow> int" where
  "i_rotr b a = drop_bit b a OR take_bit 32 (push_bit (32 - b) a)"

definition i_next :: "int \<Rightarrow> int \<Rightarrow> int \<Rightarrow> int \<Rightarrow> int" where
  "i_next a b c d =
     take_bit 32 ((i_rotr 17 a XOR i_rotr 19 a XOR drop_bit 10 a) + b +
                  (i_rotr 7 c XOR i_rotr 18 c XOR drop_bit 3 c) + d)"

fun i_extend :: "nat \<Rightarrow> int list \<Rightarrow> int list" where
  "i_extend 0 r = r"
| "i_extend (Suc n) r = i_extend n (i_next (r ! 1) (r ! 6) (r ! 14) (r ! 15) # r)"

datatype i_vars = IV int int int int int int int int

definition i_t1 :: "int \<Rightarrow> int \<Rightarrow> int \<Rightarrow> int \<Rightarrow> int \<Rightarrow> int" where
  "i_t1 e f g h km =
     h + (i_rotr 6 e XOR i_rotr 11 e XOR i_rotr 25 e) + (g XOR (e AND (f XOR g))) + km"

definition i_t2 :: "int \<Rightarrow> int \<Rightarrow> int \<Rightarrow> int" where
  "i_t2 a b c = (i_rotr 2 a XOR i_rotr 13 a XOR i_rotr 22 a) + ((a AND b) OR (c AND (a OR b)))"

fun i_step :: "int \<Rightarrow> int \<Rightarrow> i_vars \<Rightarrow> i_vars" where
  "i_step t1 t2 (IV a b c d e f g h) = IV (take_bit 32 (t1 + t2)) a b c (take_bit 32 (d + t1)) e f g"

fun i_round :: "int \<times> int \<Rightarrow> i_vars \<Rightarrow> i_vars" where
  "i_round (k, m) (IV a b c d e f g h) =
     i_step (i_t1 e f g h (k + m)) (i_t2 a b c) (IV a b c d e f g h)"

fun i_load :: "int list \<Rightarrow> int list" where
  "i_load (b0 # b1 # b2 # b3 # bs) =
     (push_bit 24 b0 OR push_bit 16 b1 OR push_bit 8 b2 OR b3) # i_load bs"
| "i_load _ = []"

fun i_work :: "int list \<Rightarrow> i_vars" where
  "i_work s = IV (s ! 0) (s ! 1) (s ! 2) (s ! 3) (s ! 4) (s ! 5) (s ! 6) (s ! 7)"

fun i_add :: "int list \<Rightarrow> i_vars \<Rightarrow> int list" where
  "i_add s (IV a b c d e f g h) = map (take_bit 32)
     [s ! 0 + a, s ! 1 + b, s ! 2 + c, s ! 3 + d, s ! 4 + e, s ! 5 + f, s ! 6 + g, s ! 7 + h]"

definition i_k :: "int list" where
  "i_k = [1116352408, 1899447441, 3049323471, 3921009573, 961987163, 1508970993,
      2453635748, 2870763221, 3624381080, 310598401, 607225278, 1426881987,
      1925078388, 2162078206, 2614888103, 3248222580, 3835390401, 4022224774,
      264347078, 604807628, 770255983, 1249150122, 1555081692, 1996064986,
      2554220882, 2821834349, 2952996808, 3210313671, 3336571891, 3584528711,
      113926993, 338241895, 666307205, 773529912, 1294757372, 1396182291,
      1695183700, 1986661051, 2177026350, 2456956037, 2730485921, 2820302411,
      3259730800, 3345764771, 3516065817, 3600352804, 4094571909, 275423344,
      430227734, 506948616, 659060556, 883997877, 958139571, 1322822218,
      1537002063, 1747873779, 1955562222, 2024104815, 2227730452, 2361852424,
      2428436474, 2756734187, 3204031479, 3329325298]"

definition i_compress :: "int list \<Rightarrow> int list \<Rightarrow> int list" where
  "i_compress s blk = i_add s (fold i_round (zip i_k (rev (i_extend 48 (rev (i_load blk))))) (i_work s))"

fun wv_uint :: "work_vars \<Rightarrow> i_vars" where
  "wv_uint (WV a b c d e f g h) =
     IV (uint a) (uint b) (uint c) (uint d) (uint e) (uint f) (uint g) (uint h)"

section \<open>Agreement with the model\<close>

lemma uint_plus_word: "uint (a + b) = take_bit LENGTH('a) (uint a + uint (b :: 'a::len word))"
  by (simp add: uint_word_ariths take_bit_eq_mod)

lemma uint_drop: "uint (drop_bit n w) = drop_bit n (uint (w :: 'a::len word))"
  by (simp add: unsigned_drop_bit_eq take_bit_eq_mod)

lemmas uint_bits = unsigned_or_eq unsigned_xor_eq unsigned_and_eq uint_drop
  unsigned_push_bit_eq unsigned_take_bit_eq

lemma i_k_eq: "i_k = map uint sha256_k"
  by (simp add: i_k_def sha256_k_def)

lemma uint_rotr: "uint (ROTRIGHT a b) = i_rotr b (uint a)"
  by (simp add: ROTRIGHT_def i_rotr_def uint_bits)

lemma CH_alt: "CH x y z = z XOR (x AND (y XOR z))"
  by (rule bit_word_eqI) (auto simp: CH_def bit_simps)

lemma MAJ_alt: "MAJ x y z = (x AND y) OR (z AND (x OR y))"
  by (rule bit_word_eqI) (auto simp: MAJ_def bit_simps)

lemma uint_next:
  "uint (SIG1 a + b + SIG0 c + d) = i_next (uint a) (uint b) (uint c) (uint d)"
  by (simp add: SIG0_def SIG1_def i_next_def uint_plus_word uint_rotr uint_bits
      take_bit_eq_mod mod_simps add.assoc)

lemma uint_extend:
  "16 \<le> length m \<Longrightarrow> map uint (extend_words n m) = rev (i_extend n (rev (map uint m)))"
proof (induction n arbitrary: m)
  case 0
  then show ?case by simp
next
  case (Suc n)
  then have nth: "rev (map uint m) ! k = uint (m ! (length m - Suc k))" if "k < 16" for k
    using that by (simp add: rev_nth flip: rev_map)
  from Suc.prems have "map uint (extend_words (Suc n) m) =
      rev (i_extend n (rev (map uint (m @ [SIG1 (m ! (length m - 2)) + m ! (length m - 7) +
        SIG0 (m ! (length m - 15)) + m ! (length m - 16)]))))"
    by (simp add: Suc.IH Let_def)
  also have "\<dots> = rev (i_extend (Suc n) (rev (map uint m)))"
    using nth [of 1] nth [of 6] nth [of 14] nth [of 15] by (simp add: uint_next numeral_2_eq_2)
  finally show ?case .
qed

lemma uint_round: "wv_uint (sha256_round km w) = i_round (map_prod uint uint km) (wv_uint w)"
proof -
  obtain k m where km: "km = (k, m)" by (cases km)
  show ?thesis unfolding km
    by (cases w) (simp add: Let_def i_t1_def i_t2_def EP0_def EP1_def CH_alt MAJ_alt uint_plus_word
        uint_rotr uint_bits take_bit_eq_mod mod_simps add.assoc add.left_commute)
qed

lemma uint_rounds:
  "wv_uint (fold sha256_round kms w) = fold i_round (map (map_prod uint uint) kms) (wv_uint w)"
  by (induction kms arbitrary: w) (simp_all add: uint_round)

lemma uint_push_ucast: "n \<le> 24 \<Longrightarrow> uint (push_bit n (ucast (b :: byte)) :: u32) = push_bit n (uint b)"
  by (intro bit_eqI) (auto simp: bit_simps bit_uint_iff dest: bit_imp_le_length)

lemma uint_load: "map uint (load_words bs) = i_load (map uint bs)"
proof (induction bs rule: load_words.induct)
  case (1 b0 b1 b2 b3 bs)
  then show ?case
    using uint_push_ucast [of 0 b3] by (simp add: be_word_def unsigned_or_eq uint_push_ucast)
qed simp_all

lemma length_load_words: "length (load_words bs) = length bs div 4"
  by (induction bs rule: load_words.induct) auto

lemma map_prod_zip: "map (map_prod f g) (zip xs ys) = zip (map f xs) (map g ys)"
  by (simp add: zip_map_map map_prod_def)

lemma uint_compress:
  assumes "length s = 8" "length blk = 64"
  shows "map uint (compress s blk) = i_compress (map uint s) (map uint blk)"
proof -
  let ?w = "fold sha256_round (zip sha256_k (extend_words 48 (load_words blk))) (work_of s)"
  have add: "map uint (add_work s w) = i_add (map uint s) (wv_uint w)" for w
    using assms by (cases w) (simp add: uint_plus_word)
  have "16 \<le> length (load_words blk)" using assms by (simp add: length_load_words)
  then have "map (map_prod uint uint) (zip sha256_k (extend_words 48 (load_words blk))) =
      zip i_k (rev (i_extend 48 (rev (i_load (map uint blk)))))"
    by (simp add: map_prod_zip i_k_eq uint_extend uint_load)
  moreover have "wv_uint (work_of s) = i_work (map uint s)"
    using assms by simp
  ultimately show ?thesis
    by (simp only: compress_def i_compress_def add uint_rounds)
qed

section \<open>Digests of concrete messages\<close>

definition i_iv :: "int list" where
  "i_iv = [1779033703, 3144134277, 1013904242, 2773480762,
           1359893119, 2600822924, 528734635, 1541459225]"

lemma i_iv_eq: "i_iv = map uint sha256_iv"
  by (simp add: i_iv_def sha256_iv_def)

fun i_hash :: "nat \<Rightarrow> int list \<Rightarrow> int list \<Rightarrow> int list" where
  "i_hash 0 s bs = s"
| "i_hash (Suc n) s bs = i_hash n (i_compress s (take 64 bs)) (drop 64 bs)"

lemma uint_hash_blocks:
  "length s = 8 \<Longrightarrow> length bs = 64 * n \<Longrightarrow>
   map uint (hash_blocks s bs) = i_hash n (map uint s) (map uint bs)"
proof (induction n arbitrary: s bs)
  case 0
  then show ?case by simp
next
  case (Suc n)
  from Suc.prems have "length (take 64 bs) = 64" "length (drop 64 bs) = 64 * n" by auto
  with Suc show ?case
    by (simp add: hash_blocks.simps [of s bs] uint_compress take_map drop_map)
qed

lemma sha256_by_eval:
  assumes "map uint (sha_padding msg) = p" "length p = 64 * n" "i_hash n i_iv p = ws"
  shows "sha256 msg = concat (map (\<lambda>w. emit_word (word_of_int w)) ws)"
proof -
  have "length (sha_padding msg) = 64 * n" using assms(1,2) by (metis length_map)
  then have "map uint (hash_blocks sha256_iv (sha_padding msg)) = ws"
    using assms uint_hash_blocks [of sha256_iv] by (simp add: i_iv_eq sha256_iv_def)
  then have "hash_blocks sha256_iv (sha_padding msg) = map word_of_int ws"
    by (auto intro!: map_idI [symmetric])
  then show ?thesis by (simp add: sha256_eq_spec sha256_spec_def comp_def)
qed

lemma be64_list: "be64 n = [ucast (drop_bit 56 n), ucast (drop_bit 48 n), ucast (drop_bit 40 n),
    ucast (drop_bit 32 n), ucast (drop_bit 24 n), ucast (drop_bit 16 n), ucast (drop_bit 8 n), ucast n]"
  by (simp add: be_bytes_def upt_rec)

lemma emit_word_list: "emit_word w = [ucast (drop_bit 24 w AND 0xff), ucast (drop_bit 16 w AND 0xff),
    ucast (drop_bit 8 w AND 0xff), ucast (w AND 0xff)]"
  by (simp add: emit_word_def upt_rec)

lemmas sha_pad_eval = sha_padding_def pad_zeros_def be64_list

text \<open>Known answers: the empty message (the commitment of a block without transactions), and \<open>abc\<close>.\<close>

lemma sha256_empty:
  "sha256 [] = [227, 176, 196, 66, 152, 252, 28, 20, 154, 251, 244, 200, 153, 111, 185, 36,
                39, 174, 65, 228, 100, 155, 147, 76, 164, 149, 153, 27, 120, 82, 184, 85]"
proof -
  have pad: "map uint (sha_padding []) = 128 # replicate 55 0 @ [0, 0, 0, 0, 0, 0, 0, 0]"
    by (simp add: sha_pad_eval)
  have hash: "i_hash 1 i_iv (128 # replicate 55 0 @ [0, 0, 0, 0, 0, 0, 0, 0]) =
      [3820012610, 2566659092, 2600203464, 2574235940, 665731556, 1687917388, 2761267483, 2018687061]" by code_simp
  show ?thesis
    by (subst sha256_by_eval [OF pad _ hash]) (simp_all add: emit_word_list)
qed

lemma sha256_abc:
  "sha256 [0x61, 0x62, 0x63] = [186, 120, 22, 191, 143, 1, 207, 234, 65, 65, 64, 222, 93, 174, 34, 35, 176, 3, 97, 163, 150, 23, 122, 156, 180, 16, 255, 97, 242, 0, 21, 173]"
proof -
  have pad: "map uint (sha_padding [0x61, 0x62, 0x63]) =
      [0x61, 0x62, 0x63, 128] @ replicate 52 0 @ [0, 0, 0, 0, 0, 0, 0, 24]"
    by (simp add: sha_pad_eval)
  have hash: "i_hash 1 i_iv ([0x61, 0x62, 0x63, 128] @ replicate 52 0 @ [0, 0, 0, 0, 0, 0, 0, 24]) =
      [3128432319, 2399260650, 1094795486, 1571693091, 2953011619, 2518121116, 3021012833, 4060091821]" by code_simp
  show ?thesis
    by (subst sha256_by_eval [OF pad _ hash]) (simp_all add: emit_word_list)
qed

end
