(* ===== verification/Genesis.thy ===== *)
theory Genesis
  imports Gate Sha256_Eval
begin

text \<open>
  The genesis allocation and block (\<^verbatim>\<open>chain/genesis.hpp\<close>, \<^verbatim>\<open>chain/genesis.cpp\<close>): the only
  source of initial supply.  The lemmas compute the supply of the table, the commitment of the
  genesis block, and the accounts a fresh chain starts with.
\<close>

definition GENESIS_SUPPLY :: u64 where "GENESIS_SUPPLY = 5000"
definition GENESIS_TIMESTAMP :: u64 where "GENESIS_TIMESTAMP = 1704067200"

definition GENESIS_ALLOC :: "(address \<times> u64) list" where
  "GENESIS_ALLOC = [
    ([0x62, 0x5c, 0x36, 0xc3, 0x4a, 0x65, 0x6b, 0xf2, 0x5a, 0x53,
      0x8f, 0x8c, 0x23, 0xa1, 0x31, 0x86, 0x98, 0x5a, 0xf6, 0x69], 1000),
    ([0x70, 0xdc, 0xb6, 0xdd, 0xa5, 0xae, 0xae, 0x7b, 0xfc, 0x6f,
      0x08, 0xc5, 0x90, 0x40, 0x2f, 0x6c, 0x0c, 0x78, 0x97, 0x02], 1000),
    ([0x25, 0xb3, 0xab, 0x87, 0x8b, 0x41, 0x2c, 0x08, 0x67, 0x9b,
      0x9d, 0x2f, 0xd0, 0xa3, 0x0b, 0xc5, 0x28, 0xdc, 0x07, 0x0d], 1000),
    ([0x32, 0x62, 0xbd, 0x9c, 0x6c, 0xdb, 0xe7, 0x68, 0x05, 0x05,
      0x8f, 0x64, 0x5f, 0x74, 0x1b, 0x8f, 0x15, 0xec, 0x14, 0xfa], 1000),
    ([0x99, 0x3b, 0x59, 0x10, 0xd2, 0xfa, 0x78, 0x40, 0x01, 0x75,
      0x98, 0x37, 0x91, 0xf4, 0x53, 0x5d, 0x16, 0x9e, 0xb7, 0xe3], 1000)]"

definition genesis_supply_sum :: u64 where
  "genesis_supply_sum = fold (\<lambda>e s. s + snd e) GENESIS_ALLOC 0"

definition applyGenesis :: "ledger \<Rightarrow> ledger" where
  "applyGenesis state =
     (let state = []
      in fold (\<lambda>(a, amount) state. set_acct state a \<lparr>acc_balance = amount, acc_nonce = 0\<rparr>)
           GENESIS_ALLOC state)"

definition genesisBlock :: block where
  "genesisBlock =
     (let b = \<lparr>blk_header = \<lparr>bh_index = 0, bh_timestamp = GENESIS_TIMESTAMP,
                bh_prevHash = replicate 32 0, bh_txnsHash = replicate 32 0, bh_nonce = 0\<rparr>,
               blk_txns = []\<rparr>
      in b\<lparr>blk_header := (blk_header b)\<lparr>bh_txnsHash := computeTxnsHash b\<rparr>\<rparr>)"

lemma genesis_alloc_distinct: "distinct (map fst GENESIS_ALLOC)"
  by (simp add: GENESIS_ALLOC_def)

lemma applyGenesis_eq:
  "applyGenesis l = map (\<lambda>(a, amount). (a, \<lparr>acc_balance = amount, acc_nonce = 0\<rparr>)) GENESIS_ALLOC"
  by (simp add: applyGenesis_def GENESIS_ALLOC_def set_acct_def)

lemma wf_genesis [simp, ledger_simps]: "wf_ledger (applyGenesis l)"
  using genesis_alloc_distinct
  by (simp add: applyGenesis_eq wf_ledger_def comp_def case_prod_unfold)

lemma genesis_nonce [simp, ledger_simps]: "acc_nonce (acct (applyGenesis l) a) = 0"
  by (auto simp: applyGenesis_eq acct_def no_account_def dest!: map_of_SomeD split: option.split)

lemma total_genesis [simp, ledger_simps]: "total_supply (applyGenesis l) = 5000"
  by (simp add: applyGenesis_eq total_supply_def GENESIS_ALLOC_def)

lemma genesisBlock_sel [simp]:
  "bh_index (blk_header genesisBlock) = 0"
  "bh_timestamp (blk_header genesisBlock) = GENESIS_TIMESTAMP"
  "bh_prevHash (blk_header genesisBlock) = replicate 32 0"
  "bh_txnsHash (blk_header genesisBlock) = txns_hash []"
  "bh_nonce (blk_header genesisBlock) = 0"
  "blk_txns genesisBlock = []"
  by (simp_all add: genesisBlock_def Let_def computeTxnsHash_def)

lemma genesis_widths [simp]: "block_widths genesisBlock"
  by (simp add: block_widths_def header_widths_def)

end
