(* ===== verification/Validate.thy ===== *)
theory Validate
  imports Genesis Hashutil
begin

text \<open>
  The from-genesis replay validator and the output of \<^verbatim>\<open>monitor verify\<close>
  (\<^verbatim>\<open>chain/validate.hpp\<close>, \<^verbatim>\<open>chain/validate.cpp\<close>).  The clock of the V3 check is the argument
  \<open>now_s\<close>.  The lemmas reduce the replay loop to one acceptance condition per block, which the
  chain theory shows to be the condition of the incremental path.
\<close>

record verify_result =
  vr_ok :: bool
  vr_failIndex :: u64
  vr_reason :: reason
  vr_detail :: string

definition vr_fail :: "u64 \<Rightarrow> reason \<Rightarrow> string \<Rightarrow> verify_result" where
  "vr_fail idx r detail = \<lparr>vr_ok = False, vr_failIndex = idx, vr_reason = r, vr_detail = detail\<rparr>"

definition vr_pass :: verify_result where
  "vr_pass = \<lparr>vr_ok = True, vr_failIndex = 0, vr_reason = OK, vr_detail = []\<rparr>"

text \<open>Blocks \<open>1..height\<close>; \<open>i\<close> is the loop index.  A failure is \<open>Inl\<close>, the replayed state \<open>Inr\<close>.\<close>

fun replay_loop :: "verifier \<Rightarrow> u64 \<Rightarrow> u32 \<Rightarrow> u64 \<Rightarrow> nat \<Rightarrow> byte list \<Rightarrow> u64 \<Rightarrow> ledger \<Rightarrow>
    block list \<Rightarrow> verify_result + ledger" where
  "replay_loop vf now_s D reward i prevHash prevTime state [] = Inr state"
| "replay_loop vf now_s D reward i prevHash prevTime state (b # bs) =
     (let idx = word_of_nat i; h = blk_header b
      in if bh_index h \<noteq> idx then Inl (vr_fail idx BAD_LINK ''index mismatch'')
         else if bh_prevHash h \<noteq> prevHash then Inl (vr_fail idx BAD_LINK ''prevHash mismatch'')
         else if \<not> (bh_timestamp h > prevTime \<and> bh_timestamp h \<le> now_s + MAX_CLOCK_SKEW_S)
           then Inl (vr_fail idx BAD_LINK ''timestamp out of range'')
         else if \<not> meets_difficulty (block_hash h) D
           then Inl (vr_fail idx BAD_POW ''hash above target'')
         else if computeTxnsHash b \<noteq> bh_txnsHash h
           then Inl (vr_fail idx BAD_TXNS_HASH ''txns commitment mismatch'')
         else if length (blk_txns b) > MAX_TXNS_PER_BLOCK
           then Inl (vr_fail idx BAD_TXNS_HASH ''too many txns'')
         else
           let (ar, state) = applyBlockTxns vf state b reward
           in if bar_reason ar \<noteq> OK then Inl (vr_fail idx (bar_reason ar) (bar_detail ar))
              else replay_loop vf now_s D reward (Suc i) (block_hash h) (bh_timestamp h) state bs)"

definition replayFromGenesis :: "verifier \<Rightarrow> block list \<Rightarrow> u64 \<Rightarrow> u32 \<Rightarrow> u64 \<Rightarrow> verify_result" where
  "replayFromGenesis vf blocks now_s D reward =
     (case blocks of
        [] \<Rightarrow> vr_fail 0 BAD_LINK ''empty chain''
      | b0 # bs \<Rightarrow>
          let state = applyGenesis []
          in if bh_index (blk_header b0) \<noteq> 0 then vr_fail 0 BAD_LINK ''index mismatch''
             else if bh_prevHash (blk_header b0) \<noteq> replicate 32 0
               then vr_fail 0 BAD_LINK ''prevHash mismatch''
             else if computeTxnsHash b0 \<noteq> bh_txnsHash (blk_header b0)
               then vr_fail 0 BAD_TXNS_HASH ''txns commitment mismatch''
             else
               case replay_loop vf now_s D reward 1 (block_hash (blk_header b0))
                      (bh_timestamp (blk_header b0)) state bs of
                 Inl v \<Rightarrow> v
               | Inr state \<Rightarrow>
                   let actual = balance_sum state;
                       height = word_of_nat (length blocks - 1);
                       expected = GENESIS_SUPPLY + height * reward
                   in if actual \<noteq> expected then vr_fail height BAD_SUPPLY ''supply mismatch''
                      else vr_pass)"

text \<open>\<^verbatim>\<open>replayState\<close>: every transaction through the gate, reasons discarded.\<close>

fun replay_txns :: "verifier \<Rightarrow> u64 \<Rightarrow> nat \<Rightarrow> ledger \<Rightarrow> txn list \<Rightarrow> ledger" where
  "replay_txns vf idx ti state [] = state"
| "replay_txns vf idx ti state (t # ts) =
     replay_txns vf idx (Suc ti) (snd (applyTxn vf state t idx ti)) ts"

definition replayState :: "verifier \<Rightarrow> block list \<Rightarrow> ledger" where
  "replayState vf blocks =
     fold (\<lambda>b state. replay_txns vf (bh_index (blk_header b)) 0 state (blk_txns b))
       (drop 1 blocks) (applyGenesis [])"

definition monitor_verify_line :: "verify_result \<Rightarrow> nat \<Rightarrow> string" where
  "monitor_verify_line r block_count =
     (if vr_ok r then ''OK '' @ to_string block_count @ '' blocks''
      else let s = ''FAIL block '' @ to_string (unat (vr_failIndex r)) @ '': '' @ reasonName (vr_reason r)
           in if vr_detail r \<noteq> [] then s @ '' ('' @ vr_detail r @ '')'' else s)"

definition monitor_verify_exit_code :: "verify_result \<Rightarrow> int" where
  "monitor_verify_exit_code r = (if vr_ok r then 0 else 1)"

section \<open>Acceptance of one block\<close>

definition bar_ok :: block_apply_result where
  "bar_ok = \<lparr>bar_reason = OK, bar_detail = [], bar_txn_index = 0\<rparr>"

definition block_accepts :: "verifier \<Rightarrow> u64 \<Rightarrow> u32 \<Rightarrow> u64 \<Rightarrow> u64 \<Rightarrow> byte list \<Rightarrow> u64 \<Rightarrow> ledger \<Rightarrow>
    block \<Rightarrow> ledger \<Rightarrow> bool" where
  "block_accepts vf now_s D reward idx prevHash prevTime state b state' \<longleftrightarrow>
     bh_index (blk_header b) = idx \<and> bh_prevHash (blk_header b) = prevHash \<and>
     prevTime < bh_timestamp (blk_header b) \<and>
     bh_timestamp (blk_header b) \<le> now_s + MAX_CLOCK_SKEW_S \<and>
     meets_difficulty (block_hash (blk_header b)) D \<and>
     computeTxnsHash b = bh_txnsHash (blk_header b) \<and>
     length (blk_txns b) \<le> MAX_TXNS_PER_BLOCK \<and>
     applyBlockTxns vf state b reward = (bar_ok, state')"

lemma applyBlockTxns_bar_ok:
  "applyBlockTxns vf state b reward = (r, state') \<Longrightarrow> bar_reason r = OK \<longleftrightarrow> r = bar_ok"
  using applyBlockTxns_OK_iff [of vf state b reward r state'] by (auto simp: bar_ok_def)

lemma replay_loop_Cons_iff:
  "replay_loop vf now_s D reward i prevHash prevTime state (b # bs) = Inr s \<longleftrightarrow>
   (\<exists>s1. block_accepts vf now_s D reward (word_of_nat i) prevHash prevTime state b s1 \<and>
         replay_loop vf now_s D reward (Suc i) (block_hash (blk_header b))
           (bh_timestamp (blk_header b)) s1 bs = Inr s)"
  using applyBlockTxns_bar_ok [of vf state b reward]
  by (cases "applyBlockTxns vf state b reward") (auto simp: block_accepts_def Let_def not_less not_le)

lemma replay_loop_Inl: "replay_loop vf now_s D reward i h t state bs = Inl v \<Longrightarrow> \<not> vr_ok v \<and> vr_reason v \<noteq> OK"
  by (induction vf now_s D reward i h t state bs rule: replay_loop.induct)
    (auto simp: vr_fail_def Let_def split: if_splits prod.splits)

declare replay_loop.simps(2) [simp del]

lemma replay_loop_append_iff:
  "replay_loop vf now_s D reward i h0 t0 state (bs @ cs) = Inr s \<longleftrightarrow>
   (\<exists>s1. replay_loop vf now_s D reward i h0 t0 state bs = Inr s1 \<and>
         (let last_h = if bs = [] then h0 else block_hash (blk_header (last bs));
              last_t = if bs = [] then t0 else bh_timestamp (blk_header (last bs))
          in replay_loop vf now_s D reward (i + length bs) last_h last_t s1 cs = Inr s))"
proof (induction bs arbitrary: i h0 t0 state)
  case Nil
  then show ?case by simp
next
  case (Cons b bs)
  show ?case
    unfolding append_Cons replay_loop_Cons_iff Cons.IH by (auto simp: Let_def)
qed

end
