(* ===== verification/Sys.thy ===== *)
theory Sys
  imports Prelude
begin

text \<open>
  The system calls the program makes on files and sockets, as the sequence of their results: what
  each \<^verbatim>\<open>write\<close> or \<^verbatim>\<open>send\<close> returns, and what arrives for \<^verbatim>\<open>read\<close> and \<^verbatim>\<open>recv\<close>.  The loops of the
  program over partial reads and writes are shared by the block store, the wallet, the frame codec
  and the HTTP code; a loop whose calls do not suffice has the result \<open>None\<close>, and so has one that a signal ends
  together with the process.
\<close>

section \<open>Writing\<close>

text \<open>
  \<open>W_PIPE\<close> is a write on a connection whose other end is closed: unless the call suppresses it, as the
  \<^verbatim>\<open>send\<close> of the frame codec does, the signal \<^verbatim>\<open>SIGPIPE\<close> is raised, and no program here changes its
  default, which ends the process.  With the signal suppressed the call fails, which is \<open>W_ERR\<close>.
\<close>

datatype write_result = W_EINTR | W_ERR | W_PIPE | W_N nat

text \<open>
  The write loop; \<open>rest\<close> is what remains, \<open>f\<close> what has been written so far.  The result is whether
  it ended well.
\<close>

fun write_loop :: "write_result list \<Rightarrow> 'a list \<Rightarrow> 'a list \<Rightarrow> (bool \<times> 'a list) option" where
  "write_loop ws [] f = Some (True, f)"
| "write_loop [] rest f = None"
| "write_loop (W_EINTR # ws) rest f = write_loop ws rest f"
| "write_loop (W_ERR # ws) rest f = Some (False, f)"
| "write_loop (W_PIPE # ws) rest f = None"
| "write_loop (W_N n # ws) rest f = write_loop ws (drop n rest) (f @ take n rest)"

lemma write_loop_result:
  "write_loop ws rest f = Some (ok, f') \<Longrightarrow> \<exists>k. f' = f @ take k rest \<and> (ok \<longrightarrow> f' = f @ rest)"
proof (induction ws rest f rule: write_loop.induct)
  case (6 n ws c rest f)
  then obtain k where k: "f' = (f @ take n (c # rest)) @ take k (drop n (c # rest))"
    "ok \<longrightarrow> f' = (f @ take n (c # rest)) @ drop n (c # rest)" by auto
  then show ?case
    by (intro exI [of _ "n + k"]) (simp add: take_add)
qed auto

text \<open>With enough calls that make progress, and interruptions in between, the loop ends well.\<close>

fun progress :: "write_result list \<Rightarrow> nat" where
  "progress [] = 0"
| "progress (W_N n # ws) = n + progress ws"
| "progress (_ # ws) = progress ws"

definition steady :: "write_result list \<Rightarrow> bool" where
  "steady ws \<longleftrightarrow> W_ERR \<notin> set ws \<and> W_PIPE \<notin> set ws"

lemma steady_simps [simp]: "steady []" "steady (W_EINTR # ws) = steady ws" "steady (W_N n # ws) = steady ws"
  "\<not> steady (W_ERR # ws)" "\<not> steady (W_PIPE # ws)"
  by (simp_all add: steady_def)

lemma write_loop_completes:
  "steady ws \<Longrightarrow> length rest \<le> progress ws \<Longrightarrow> write_loop ws rest f = Some (True, f @ rest)"
  by (induction ws rest f rule: write_loop.induct) auto

section \<open>Reading\<close>

datatype 'a read_event = R_DATA "'a list" | R_EOF | R_EINTR | R_ERR

datatype 'a recv_result = Got "'a list" | Closed | Interrupted | Failed

text \<open>
  One call for at most \<open>m\<close> elements: part of a chunk that is longer stays for the next call, the end
  of the stream stays, and with no event left the call blocks.
\<close>

definition recv :: "nat \<Rightarrow> 'a read_event list \<Rightarrow> ('a recv_result \<times> 'a read_event list) option" where
  "recv m evs =
     (case evs of
        [] \<Rightarrow> None
      | R_DATA c # evs' \<Rightarrow>
          if c = [] then Some (Closed, evs)
          else if length c \<le> m then Some (Got c, evs') else Some (Got (take m c), R_DATA (drop m c) # evs')
      | R_EOF # evs' \<Rightarrow> Some (Closed, evs)
      | R_EINTR # evs' \<Rightarrow> Some (Interrupted, evs')
      | R_ERR # evs' \<Rightarrow> Some (Failed, evs'))"

text \<open>The elements a stream will deliver, and a stream without an end or an error.\<close>

fun stream_of :: "'a read_event list \<Rightarrow> 'a list" where
  "stream_of (R_DATA c # evs) = c @ stream_of evs"
| "stream_of (_ # evs) = stream_of evs"
| "stream_of [] = []"

definition clean :: "'a read_event list \<Rightarrow> bool" where
  "clean evs \<longleftrightarrow> list_all (\<lambda>e. case e of R_DATA c \<Rightarrow> c \<noteq> [] | R_EINTR \<Rightarrow> True | _ \<Rightarrow> False) evs"

lemma clean_simps [simp]:
  "clean []" "clean (R_DATA c # evs) \<longleftrightarrow> c \<noteq> [] \<and> clean evs" "clean (R_EINTR # evs) \<longleftrightarrow> clean evs"
  "\<not> clean (R_EOF # evs)" "\<not> clean (R_ERR # evs)"
  by (simp_all add: clean_def)

lemma recv_progress:
  "recv m evs = Some (Got c, evs') \<Longrightarrow> 0 < m \<Longrightarrow> c \<noteq> [] \<and> length c \<le> m \<and> stream_of evs = c @ stream_of evs'"
  by (auto simp: recv_def split: list.splits read_event.splits if_splits)

lemma recv_clean: "recv m evs = Some (r, evs') \<Longrightarrow> clean evs \<Longrightarrow> clean evs'"
  by (auto simp: recv_def split: list.splits read_event.splits if_splits)

text \<open>A bound on the calls a stream can answer.\<close>

fun stream_size :: "'a read_event list \<Rightarrow> nat" where
  "stream_size (R_DATA c # evs) = Suc (length c) + stream_size evs"
| "stream_size (_ # evs) = Suc (stream_size evs)"
| "stream_size [] = 0"

lemma recv_size: "recv m evs = Some (Got c, evs') \<Longrightarrow> 0 < m \<Longrightarrow> stream_size evs' < stream_size evs"
  by (auto simp: recv_def split: list.splits read_event.splits if_splits)

text \<open>A stream of data without interruptions.\<close>

definition data_only :: "'a read_event list \<Rightarrow> bool" where
  "data_only evs \<longleftrightarrow> list_all (\<lambda>e. case e of R_DATA c \<Rightarrow> c \<noteq> [] | _ \<Rightarrow> False) evs"

lemma data_only_simps [simp]:
  "data_only []" "data_only (R_DATA c # evs) \<longleftrightarrow> c \<noteq> [] \<and> data_only evs"
  "\<not> data_only (R_EINTR # evs)" "\<not> data_only (R_EOF # evs)" "\<not> data_only (R_ERR # evs)"
  by (simp_all add: data_only_def)

lemma recv_data:
  assumes "data_only evs" "stream_of evs \<noteq> []" "0 < m"
  obtains c evs' where "recv m evs = Some (Got c, evs')" "stream_of evs = c @ stream_of evs'" "c \<noteq> []" "data_only evs'"
proof (cases evs)
  case Nil
  with assms(2) show ?thesis by simp
next
  case (Cons e evs')
  show ?thesis
  proof (cases e)
    case (R_DATA c)
    with Cons assms show ?thesis
      by (cases "length c \<le> m")
        (auto simp: recv_def intro: that [of c evs'] that [of "take m c" "R_DATA (drop m c) # evs'"])
  qed (use Cons assms(1) in simp_all)
qed

end
