(* ===== verification/Store.thy ===== *)
theory Store
  imports Picojson Validate Sys
begin

text \<open>
  The durable block file (\<^verbatim>\<open>chain/store.hpp\<close>, \<^verbatim>\<open>chain/store.cpp\<close>): one JSON line per block.  A
  file is its characters, or \<open>None\<close> if it does not exist.  The results of the system calls of one
  operation are its argument \<open>io\<close>: whether \<^verbatim>\<open>open\<close> succeeds, what each \<^verbatim>\<open>write\<close> returns, whether
  \<^verbatim>\<open>fsync\<close> succeeds.  A line whose parse throws ends the load with the exception.

  The lemmas show that a write adds the line, or a prefix of it when it fails, and that the loader
  reads back the blocks that were appended.
\<close>

type_synonym fcontent = "string option"

record io =
  io_open :: bool
  io_writes :: "write_result list"
  io_fsync :: bool

section \<open>Writing\<close>

definition newline :: char where "newline = CHR 0x0A"

definition chain_path :: "string \<Rightarrow> string" where
  "chain_path datadir =
     (let p = (if datadir \<noteq> [] \<and> last datadir \<noteq> CHR ''/'' then datadir @ ''/'' else datadir)
      in p @ ''chain.jsonl'')"

definition write_file :: "io \<Rightarrow> fcontent \<Rightarrow> string \<Rightarrow> string \<Rightarrow> (bool \<times> fcontent) option" where
  "write_file io old start text =
     (if \<not> io_open io then Some (False, old)
      else case write_loop (io_writes io) text start of
             None \<Rightarrow> None
           | Some (ok, f) \<Rightarrow> Some (ok \<and> io_fsync io, Some f))"

definition appendBlock :: "io \<Rightarrow> fcontent \<Rightarrow> block \<Rightarrow> (bool \<times> fcontent) option" where
  "appendBlock io f b =
     (let line = to_json_line b @ [newline]
      in write_file io f (case f of None \<Rightarrow> [] | Some s \<Rightarrow> s) line)"

definition rewrite_file :: "io \<Rightarrow> fcontent \<Rightarrow> block list \<Rightarrow> (bool \<times> fcontent) option" where
  "rewrite_file io f blocks =
     (let out = fold (\<lambda>b out. out @ to_json_line b @ [newline]) blocks []
      in write_file io f [] out)"

section \<open>Loading\<close>

text \<open>\<^verbatim>\<open>std::getline\<close> to the end of the file.\<close>

function split_lines :: "string \<Rightarrow> string list" where
  "split_lines s = (if s = [] then [] else
     takeWhile (\<lambda>c. c \<noteq> newline) s # split_lines (drop 1 (dropWhile (\<lambda>c. c \<noteq> newline) s)))"
  by pat_completeness auto
termination
proof (relation "measure length")
  fix s :: string assume "s \<noteq> []"
  then show "(drop 1 (dropWhile (\<lambda>c. c \<noteq> newline) s), s) \<in> measure length"
    using length_dropWhile_le [of "\<lambda>c. c \<noteq> newline" s] by (cases s) auto
qed simp

declare split_lines.simps [simp del]

record load_result =
  lr_status :: verify_result
  lr_blocks :: "block list"

fun load_loop :: "(string \<Rightarrow> block option raised) \<Rightarrow> u64 \<Rightarrow> string list \<Rightarrow> block list \<Rightarrow> load_result raised" where
  "load_loop decode idx [] blocks = Returns \<lparr>lr_status = vr_pass, lr_blocks = blocks\<rparr>"
| "load_loop decode idx (line # lines) blocks =
     (if line = [] then load_loop decode idx lines blocks
      else case decode line of
             Raises \<Rightarrow> Raises
           | Returns None \<Rightarrow>
               Returns \<lparr>lr_status = vr_fail idx BAD_TXNS_HASH ''malformed chain.jsonl line'', lr_blocks = blocks\<rparr>
           | Returns (Some b) \<Rightarrow> load_loop decode (idx + 1) lines (blocks @ [b]))"

definition load :: "(double \<Rightarrow> u64) \<Rightarrow> json_parser \<Rightarrow> fcontent \<Rightarrow> load_result raised" where
  "load ub parse f =
     (case f of
        None \<Rightarrow> Returns \<lparr>lr_status = vr_fail 0 BAD_LINK ''cannot open chain.jsonl'', lr_blocks = []\<rparr>
      | Some s \<Rightarrow> load_loop (from_json_line ub parse) 0 (split_lines s) [])"

section \<open>What a write leaves in the file\<close>

definition block_line :: "block \<Rightarrow> string" where
  "block_line b = to_json_line b @ [newline]"

definition file_of :: "block list \<Rightarrow> string" where
  "file_of bs = concat (map block_line bs)"

text \<open>
  An append that reports success leaves the old file followed by the block's line; one that
  reports a failure leaves the old file followed by a prefix of the line, in the worst case a torn
  line, and never changes what was there.
\<close>

theorem append_outcome:
  assumes "appendBlock io (Some s) b = Some (ok, f')"
  shows "\<exists>k. f' = Some (s @ take k (block_line b)) \<and> (ok \<longrightarrow> f' = Some (s @ block_line b))"
proof (cases "io_open io")
  case False
  with assms show ?thesis by (auto simp: appendBlock_def write_file_def intro: exI [of _ 0])
next
  case True
  with assms obtain ok1 f1 where "write_loop (io_writes io) (block_line b) s = Some (ok1, f1)"
    "ok = (ok1 \<and> io_fsync io)" "f' = Some f1"
    by (auto simp: appendBlock_def write_file_def block_line_def Let_def split: option.splits)
  with write_loop_result show ?thesis by blast
qed

definition io_fine :: "nat \<Rightarrow> io" where
  "io_fine n = \<lparr>io_open = True, io_writes = [W_EINTR, W_N n], io_fsync = True\<rparr>"

lemma append_fine:
  assumes "length (block_line b) \<le> n"
  shows "appendBlock (io_fine n) (Some s) b = Some (True, Some (s @ block_line b))"
proof -
  obtain c cs where l: "block_line b = c # cs" by (cases "block_line b") (simp_all add: block_line_def)
  have "write_loop [W_EINTR, W_N n] (c # cs) s = Some (True, s @ c # cs)"
    using assms by (simp add: l del: drop_Suc_Cons take_Suc_Cons)
  then show ?thesis
    by (simp add: appendBlock_def write_file_def io_fine_def l [unfolded block_line_def] l)
qed

text \<open>An append that fails right before the line break.\<close>

lemma append_torn:
  assumes "io_open io" "io_writes io = [W_N (length (to_json_line b)), W_ERR]"
  shows "appendBlock io (Some s) b = Some (False, Some (s @ to_json_line b))"
proof -
  have "write_loop [W_N (length l), W_ERR] (l @ [newline]) s = Some (False, s @ l)" for l :: string
  proof -
    obtain c cs where "l @ [newline] = c # cs" by (cases l) simp_all
    then have "write_loop [W_N (length l), W_ERR] (l @ [newline]) s =
        write_loop [W_ERR] (drop (length l) (l @ [newline])) (s @ take (length l) (l @ [newline]))"
      by (simp del: drop_Suc_Cons take_Suc_Cons)
    then show ?thesis by simp
  qed
  then show ?thesis using assms by (simp add: appendBlock_def write_file_def Let_def)
qed

theorem append_outcome_witness:
  "\<exists>f'. appendBlock (io_fine (length (block_line genesisBlock))) (Some []) genesisBlock = Some (True, f') \<and>
     f' = Some (block_line genesisBlock)"
proof -
  have step: "appendBlock (io_fine (length (block_line genesisBlock))) (Some []) genesisBlock =
      Some (True, Some ([] @ block_line genesisBlock))" by (rule append_fine) simp
  from append_outcome [OF step] step show ?thesis by auto
qed

section \<open>Loading what was written\<close>

lemma kHex_no_newline: "n < 16 \<Longrightarrow> CHR 0x0A \<noteq> kHex ! n"
proof -
  assume "n < 16"
  moreover have "hex_nib (CHR 0x0A) = None" by (simp add: hex_nib_def)
  ultimately show ?thesis using hex_nib_kHex [of n] by (metis option.distinct(1))
qed

lemma to_hex_no_newline [simp]: "CHR 0x0A \<notin> set (to_hex bs)"
  by (induction bs) (simp_all add: kHex_no_newline nibbles_bound)

lemma to_string_no_newline [simp]: "CHR 0x0A \<notin> set (to_string n)"
  using to_string_digits [of "CHR 0x0A" n] by (auto simp: is_digit_def)

lemma quoted_no_newline [simp]: "CHR 0x0A \<in> set (quoted s) \<longleftrightarrow> CHR 0x0A \<in> set s"
  by (simp add: quoted_def dquote_def)

lemma txns_no_newline [simp]: "CHR 0x0A \<notin> set (txns_to_json i ts)"
proof -
  have "CHR 0x0A \<notin> set (txn_to_json t)" for t
    unfolding txn_to_json_def set_append Un_iff by simp
  then show ?thesis by (induction ts arbitrary: i) auto
qed

lemma line_no_newline: "newline \<notin> set (to_json_line b)"
  unfolding to_json_line_def Let_def set_append Un_iff newline_def by simp

lemma split_first: "newline \<notin> set l \<Longrightarrow> split_lines (l @ newline # s) = l # split_lines s"
proof -
  assume "newline \<notin> set l"
  then have "takeWhile (\<lambda>c. c \<noteq> newline) (l @ newline # s) = l"
    "dropWhile (\<lambda>c. c \<noteq> newline) (l @ newline # s) = newline # s"
    by (simp_all add: takeWhile_append dropWhile_append)
  then show ?thesis by (subst split_lines.simps) simp
qed

lemma split_file_append: "split_lines (file_of bs @ s) = map to_json_line bs @ split_lines s"
  using split_first [OF line_no_newline]
  by (induction bs) (simp_all add: file_of_def block_line_def)

lemma split_file: "split_lines (file_of bs) = map to_json_line bs"
  using split_file_append [of bs "[]"] by (simp add: split_lines.simps)

lemma line_nonempty: "to_json_line b \<noteq> []"
  by (simp add: to_json_line_def Let_def)

lemma load_loop_lines:
  assumes "list_all block_small bs"
  shows "load_loop (from_json_line ub picojson) i (map to_json_line bs @ ls) acc =
    load_loop (from_json_line ub picojson) (i + word_of_nat (length bs)) ls (acc @ bs)"
  using assms
proof (induction bs arbitrary: i acc)
  case Nil
  then show ?case by simp
next
  case (Cons b bs)
  then show ?case using line_nonempty [of b] block_read_back [of b ub] by (simp add: add.assoc)
qed

lemma load_file_of:
  "list_all block_small bs \<Longrightarrow> load ub picojson (Some (file_of bs)) = Returns \<lparr>lr_status = vr_pass, lr_blocks = bs\<rparr>"
  using load_loop_lines [of bs ub 0 "[]" "[]"] by (simp add: load_def split_file)

text \<open>
  A last line that has lost its line break is still read, and it swallows the line appended behind it,
  which the JSON reader does not look at.
\<close>

lemma load_torn:
  assumes "list_all block_small (bs @ [b])"
  shows "load ub picojson (Some (file_of bs @ to_json_line b)) = Returns \<lparr>lr_status = vr_pass, lr_blocks = bs @ [b]\<rparr>"
    "load ub picojson (Some (file_of bs @ to_json_line b @ block_line b')) = Returns \<lparr>lr_status = vr_pass, lr_blocks = bs @ [b]\<rparr>"
proof -
  have b: "from_json_line ub picojson (to_json_line b @ junk) = Returns (Some b)" for junk
    using assms block_read_back_prefix by simp
  have tw: "takeWhile (\<lambda>c. c \<noteq> newline) (to_json_line b) = to_json_line b"
    "dropWhile (\<lambda>c. c \<noteq> newline) (to_json_line b) = []"
    using line_no_newline [of b] by (auto simp only: takeWhile_eq_all_conv dropWhile_eq_Nil_conv)
  have "split_lines (to_json_line b) = [to_json_line b]"
    unfolding split_lines.simps [of "to_json_line b"] tw using line_nonempty [of b]
    by (simp add: split_lines.simps [of "[]"])
  then show "load ub picojson (Some (file_of bs @ to_json_line b)) = Returns \<lparr>lr_status = vr_pass, lr_blocks = bs @ [b]\<rparr>"
    using load_loop_lines [of bs ub 0 "[to_json_line b]" "[]"] assms b [of "[]"] line_nonempty [of b]
    by (simp add: load_def split_file_append)
  have "split_lines (to_json_line b @ block_line b') = [to_json_line b @ to_json_line b']"
    using split_first [of "to_json_line b @ to_json_line b'" "[]"] line_no_newline
    by (simp add: block_line_def split_lines.simps [of "[]"])
  then show "load ub picojson (Some (file_of bs @ to_json_line b @ block_line b')) = Returns \<lparr>lr_status = vr_pass, lr_blocks = bs @ [b]\<rparr>"
    using load_loop_lines [of bs ub 0 "[to_json_line b @ to_json_line b']" "[]"] assms b line_nonempty [of b]
    by (simp add: load_def split_file_append)
qed

text \<open>
  C18. Loading a file of appended lines gives back exactly the blocks, if their 64-bit fields are below
  \<open>2 ^ 63\<close>, where the JSON parser reads an integer without loss.
\<close>

theorem load_appended:
  assumes "list_all block_small bs"
  shows "load ub picojson (Some (file_of bs)) = Returns \<lparr>lr_status = vr_pass, lr_blocks = bs\<rparr>"
  using assms load_file_of by blast

lemma genesis_small: "block_small genesisBlock"
  by (simp add: block_small_def header_widths_def small_def GENESIS_TIMESTAMP_def)

theorem load_appended_witness:
  "load (\<lambda>_. 0) picojson (Some (file_of [genesisBlock])) = Returns \<lparr>lr_status = vr_pass, lr_blocks = [genesisBlock]\<rparr>"
  by (rule load_appended) (simp add: genesis_small)

end
