(* ===== verification/Samples.thy ===== *)
theory Samples
  imports Genesis
begin

text \<open>
  Concrete data the witnesses of the later theories share: a public key whose address is evaluated
  (one SHA-256 block), transfers of its account, and a verifier that accepts every signature, the
  simplest instance of the parameter \<open>vf\<close>.
\<close>

definition any_sig :: verifier where "any_sig pubkey sig msg = True"

definition sample_pub :: "byte list" where "sample_pub = replicate 32 0"
definition sample_addr :: address where "sample_addr = address sample_pub"

definition sample_transfer :: "address \<Rightarrow> u64 \<Rightarrow> u64 \<Rightarrow> txn" where
  "sample_transfer to amount nonce =
     \<lparr>tx_ver = kTxnVersion, tx_from = sample_addr, tx_to = to, tx_amount = amount, tx_nonce = nonce,
      tx_pubkey = sample_pub, tx_sig = replicate 64 0\<rparr>"

lemma sha256_sample_pub: "sha256 sample_pub = [102, 104, 122, 173, 248, 98, 189, 119, 108, 143, 193, 139, 142, 159, 142, 32, 8, 151, 20, 133, 110, 226, 51, 179, 144, 42, 89, 29, 13, 95, 41, 37]"
proof -
  have pad: "map uint (sha_padding sample_pub) = replicate 32 0 @ 128 # replicate 23 0 @ [0, 0, 0, 0, 0, 0, 1, 0]"
    by (simp add: sample_pub_def sha_pad_eval)
  have hash: "i_hash 1 i_iv (replicate 32 0 @ 128 # replicate 23 0 @ [0, 0, 0, 0, 0, 0, 1, 0]) =
      [1718123181, 4167220599, 1821360523, 2392821280, 144118917, 1860318131, 2418694429, 224340261]" by code_simp
  show ?thesis
    by (subst sha256_by_eval [OF pad _ hash]) (simp_all add: emit_word_list)
qed

lemma sample_addr_eq: "sample_addr =
  [102, 104, 122, 173, 248, 98, 189, 119, 108, 143, 193, 139, 142, 159, 142, 32, 8, 151, 20, 133]"
  by (simp add: sample_addr_def address_eq sha256_sample_pub)

lemma sample_addr_not_null [simp]: "sample_addr \<noteq> kNullAddr" "kNullAddr \<noteq> sample_addr"
proof -
  have "hd sample_addr \<noteq> hd kNullAddr" by (simp add: sample_addr_eq kNullAddr_def)
  then show "sample_addr \<noteq> kNullAddr" "kNullAddr \<noteq> sample_addr" by metis+
qed

lemma length_sample_addr [simp]: "length sample_addr = 20"
  by (simp add: sample_addr_def)

lemma sample_not_genesis: "acct (applyGenesis []) sample_addr = no_account"
  by (simp add: applyGenesis_eq acct_def GENESIS_ALLOC_def sample_addr_eq)

lemma sample_transfer_sel [simp]:
  "tx_from (sample_transfer a x n) = sample_addr" "tx_to (sample_transfer a x n) = a"
  "tx_amount (sample_transfer a x n) = x" "tx_nonce (sample_transfer a x n) = n"
  "tx_pubkey (sample_transfer a x n) = sample_pub"
  "tx_ver (sample_transfer a x n) = kTxnVersion" "tx_sig (sample_transfer a x n) = replicate 64 0"
  by (simp_all add: sample_transfer_def)

lemma sample_transfer_widths: "length a = 20 \<Longrightarrow> txn_widths (sample_transfer a x n)"
  by (simp add: txn_widths_def sample_pub_def)

lemma sample_transfer_ok:
  "transfer_ok any_sig w (sample_transfer a x n) \<longleftrightarrow>
   n = acc_nonce (acct w sample_addr) \<and> x \<le> acc_balance (acct w sample_addr)"
  by (auto simp: transfer_ok_def address_matches_def sample_addr_def any_sig_def)

end
