(* ===== verification/Mempool.thy ===== *)
theory Mempool
  imports Samples "HOL-Library.Sublist"
begin

text \<open>
  The set of validated, not yet mined transactions (\<^verbatim>\<open>mempool/mempool.hpp\<close>,
  \<^verbatim>\<open>mempool/mempool.cpp\<close>): three indexes over one set of entries, the admission in its frozen
  order, the eviction of included transactions and the view in admission order.  The committed
  account lookup the C++ object holds is the argument \<open>lookup\<close>.

  The lemmas prove the invariant that ties the three indexes together, that admission implies the
  gate, and the interface \<open>pending_set\<close> the candidate builder uses.
\<close>

section \<open>Results of an admission\<close>

datatype admit_result = A_OK | A_BAD_SIG | A_BAD_ADDR | A_STALE_NONCE | A_INSUFFICIENT_FUNDS
  | A_UNPARSEABLE | A_DUPLICATE | A_MEMPOOL_FULL | A_PENDING_SLOT_BUSY

fun reason_to_admit :: "reason \<Rightarrow> admit_result" where
  "reason_to_admit OK = A_OK"
| "reason_to_admit BAD_ADDR = A_BAD_ADDR"
| "reason_to_admit BAD_SIG = A_BAD_SIG"
| "reason_to_admit STALE_NONCE = A_STALE_NONCE"
| "reason_to_admit INSUFFICIENT_FUNDS = A_INSUFFICIENT_FUNDS"
| "reason_to_admit _ = A_UNPARSEABLE"

fun admit_result_name :: "admit_result \<Rightarrow> string" where
  "admit_result_name A_OK = ''OK''"
| "admit_result_name A_BAD_SIG = ''BAD_SIG''"
| "admit_result_name A_BAD_ADDR = ''BAD_ADDR''"
| "admit_result_name A_STALE_NONCE = ''STALE_NONCE''"
| "admit_result_name A_INSUFFICIENT_FUNDS = ''INSUFFICIENT_FUNDS''"
| "admit_result_name A_UNPARSEABLE = ''UNPARSEABLE''"
| "admit_result_name A_DUPLICATE = ''DUPLICATE''"
| "admit_result_name A_MEMPOOL_FULL = ''MEMPOOL_FULL''"
| "admit_result_name A_PENDING_SLOT_BUSY = ''PENDING_SLOT_BUSY''"

section \<open>State and operations\<close>

record mempool_entry =
  me_txn :: txn
  me_txid :: "byte list"
  me_seq :: u64

text \<open>The hash maps and the ordered map are association lists with distinct keys.\<close>

record mempool =
  mp_cap :: nat
  mp_next_seq :: u64
  mp_byTxid :: "(byte list \<times> mempool_entry) list"
  mp_bySender :: "(address \<times> byte list) list"
  mp_bySeq :: "(u64 \<times> byte list) list"

definition new_mempool :: "nat \<Rightarrow> mempool" where
  "new_mempool cap = \<lparr>mp_cap = cap, mp_next_seq = 0, mp_byTxid = [], mp_bySender = [], mp_bySeq = []\<rparr>"

definition mp_size :: "mempool \<Rightarrow> nat" where
  "mp_size m = length (mp_byTxid m)"

definition mp_contains :: "mempool \<Rightarrow> byte list \<Rightarrow> bool" where
  "mp_contains m tid \<longleftrightarrow> map_of (mp_byTxid m) tid \<noteq> None"

definition hasPending :: "mempool \<Rightarrow> address \<Rightarrow> bool" where
  "hasPending m a \<longleftrightarrow> map_of (mp_bySender m) a \<noteq> None"

definition admit :: "verifier \<Rightarrow> (address \<Rightarrow> account_state) \<Rightarrow> mempool \<Rightarrow> txn \<Rightarrow>
    admit_result \<times> mempool" where
  "admit vf lookup m t =
     (if tx_ver t \<noteq> kTxnVersion then (A_UNPARSEABLE, m)
      else
        let tid = txid t
        in if mp_contains m tid then (A_DUPLICATE, m)
           else
             let shadow = set_acct [] (tx_from t) (lookup (tx_from t));
                 r = fst (applyTxn vf shadow t 0 1)
             in if r = BAD_ADDR \<or> r = BAD_SIG \<or> r = STALE_NONCE then (reason_to_admit r, m)
                else if r \<noteq> OK \<and> r \<noteq> INSUFFICIENT_FUNDS then (A_BAD_ADDR, m)
                else if hasPending m (tx_from t) then (A_PENDING_SLOT_BUSY, m)
                else if r = INSUFFICIENT_FUNDS then (A_INSUFFICIENT_FUNDS, m)
                else if mp_size m \<ge> mp_cap m then (A_MEMPOOL_FULL, m)
                else
                  let s = mp_next_seq m
                  in (A_OK, m\<lparr>mp_next_seq := s + 1,
                       mp_byTxid := AList.update tid \<lparr>me_txn = t, me_txid = tid, me_seq = s\<rparr> (mp_byTxid m),
                       mp_bySender := AList.update (tx_from t) tid (mp_bySender m),
                       mp_bySeq := AList.update s tid (mp_bySeq m)\<rparr>))"

definition admit_bytes :: "verifier \<Rightarrow> (address \<Rightarrow> account_state) \<Rightarrow> mempool \<Rightarrow> byte list \<Rightarrow>
    admit_result \<times> mempool" where
  "admit_bytes vf lookup m txn_bytes =
     (case deserialize_txn txn_bytes of None \<Rightarrow> (A_UNPARSEABLE, m) | Some t \<Rightarrow> admit vf lookup m t)"

definition evict_one :: "txn \<Rightarrow> mempool \<Rightarrow> mempool" where
  "evict_one t m =
     (let tid = txid t
      in case map_of (mp_byTxid m) tid of
           None \<Rightarrow> m
         | Some e \<Rightarrow>
             let m = m\<lparr>mp_bySeq := AList.delete (me_seq e) (mp_bySeq m)\<rparr>;
                 m = (case map_of (mp_bySender m) (tx_from t) of
                        Some sid \<Rightarrow> if sid = tid then m\<lparr>mp_bySender := AList.delete (tx_from t) (mp_bySender m)\<rparr> else m
                      | None \<Rightarrow> m)
             in m\<lparr>mp_byTxid := AList.delete tid (mp_byTxid m)\<rparr>)"

definition evictIncluded :: "mempool \<Rightarrow> txn list \<Rightarrow> mempool" where
  "evictIncluded m txns = fold evict_one txns m"

text \<open>Iteration over the ordered map is in ascending key order.\<close>

definition sortedBySeq :: "mempool \<Rightarrow> mempool_entry list" where
  "sortedBySeq m = List.map_filter (\<lambda>kv. map_of (mp_byTxid m) (snd kv)) (sort_key fst (mp_bySeq m))"

section \<open>The interface of the pending set\<close>

locale pending_set =
  fixes pending :: "'m \<Rightarrow> txn list"
    and wf :: "'m \<Rightarrow> bool"
    and authentic :: "txn \<Rightarrow> bool"
  assumes one_per_sender: "wf m \<Longrightarrow> distinct (map tx_from (pending m))"
    and pending_authentic: "wf m \<Longrightarrow> t \<in> set (pending m) \<Longrightarrow> authentic t"
begin

lemma later_senders_differ:
  "wf m \<Longrightarrow> pending m = us @ t # vs \<Longrightarrow> u \<in> set vs \<Longrightarrow> tx_from u \<noteq> tx_from t"
  using one_per_sender [of m] by (metis distinct.simps(2) distinct_append image_eqI list.simps(9)
      map_append set_map)

lemma pending_all_authentic: "wf m \<Longrightarrow> list_all authentic (pending m)"
  by (auto simp: list_all_iff intro: pending_authentic)

end

section \<open>The invariant\<close>

definition authentic :: "verifier \<Rightarrow> txn \<Rightarrow> bool" where
  "authentic vf t \<longleftrightarrow> tx_ver t = kTxnVersion \<and> tx_from t \<noteq> kNullAddr \<and>
     address_matches (tx_from t) (tx_pubkey t) \<and> vf (tx_pubkey t) (tx_sig t) (signed_payload t)"

definition entry_ok :: "verifier \<Rightarrow> mempool \<Rightarrow> byte list \<Rightarrow> mempool_entry \<Rightarrow> bool" where
  "entry_ok vf m tid e \<longleftrightarrow> me_txid e = tid \<and> txid (me_txn e) = tid \<and> authentic vf (me_txn e) \<and>
     me_seq e < mp_next_seq m \<and> map_of (mp_bySender m) (tx_from (me_txn e)) = Some tid \<and>
     map_of (mp_bySeq m) (me_seq e) = Some tid"

definition mempool_inv :: "verifier \<Rightarrow> mempool \<Rightarrow> bool" where
  "mempool_inv vf m \<longleftrightarrow>
     distinct (map fst (mp_byTxid m)) \<and> distinct (map fst (mp_bySender m)) \<and>
     distinct (map fst (mp_bySeq m)) \<and> mp_size m \<le> mp_cap m \<and>
     (\<forall>tid e. map_of (mp_byTxid m) tid = Some e \<longrightarrow> entry_ok vf m tid e) \<and>
     (\<forall>a tid. map_of (mp_bySender m) a = Some tid \<longrightarrow>
        (\<exists>e. map_of (mp_byTxid m) tid = Some e \<and> tx_from (me_txn e) = a)) \<and>
     (\<forall>s tid. map_of (mp_bySeq m) s = Some tid \<longrightarrow>
        (\<exists>e. map_of (mp_byTxid m) tid = Some e \<and> me_seq e = s))"

lemma mempool_inv_entry: "mempool_inv vf m \<Longrightarrow> map_of (mp_byTxid m) i = Some e \<Longrightarrow> entry_ok vf m i e"
  by (simp add: mempool_inv_def)

lemma mempool_inv_sender:
  assumes "mempool_inv vf m" "map_of (mp_bySender m) a = Some i"
  obtains e where "map_of (mp_byTxid m) i = Some e" "tx_from (me_txn e) = a"
  using assms unfolding mempool_inv_def by blast

lemma mempool_inv_seq:
  assumes "mempool_inv vf m" "map_of (mp_bySeq m) s = Some i"
  obtains e where "map_of (mp_byTxid m) i = Some e" "me_seq e = s"
  using assms unfolding mempool_inv_def by blast

lemma mempool_inv_new: "mempool_inv vf (new_mempool cap)"
  by (simp add: mempool_inv_def new_mempool_def mp_size_def)

text \<open>The gate on the shadow of one account gives the verdict on the tip.\<close>

lemma applyTxn_reason_shadow:
  assumes "acct w1 (tx_from t) = acct w2 (tx_from t)"
  shows "fst (applyTxn vf w1 t i ti) = fst (applyTxn vf w2 t i ti)"
  using assms by (simp add: applyTxn_def Let_def)

lemma acct_shadow [simp]: "acct (set_acct [] a s) a = s"
  by (simp add: ledger_simps)

text \<open>The decision of an admission as a table, in its order.\<close>

definition admit_decision :: "verifier \<Rightarrow> (address \<Rightarrow> account_state) \<Rightarrow> mempool \<Rightarrow> txn \<Rightarrow> admit_result" where
  "admit_decision vf lookup m t =
     (if tx_ver t \<noteq> kTxnVersion then A_UNPARSEABLE
      else if mp_contains m (txid t) then A_DUPLICATE
      else if tx_from t = kNullAddr \<or> tx_from t \<noteq> address (tx_pubkey t) then A_BAD_ADDR
      else if \<not> vf (tx_pubkey t) (tx_sig t) (signed_payload t) then A_BAD_SIG
      else if tx_nonce t \<noteq> acc_nonce (lookup (tx_from t)) then A_STALE_NONCE
      else if hasPending m (tx_from t) then A_PENDING_SLOT_BUSY
      else if tx_amount t > acc_balance (lookup (tx_from t)) then A_INSUFFICIENT_FUNDS
      else if mp_size m \<ge> mp_cap m then A_MEMPOOL_FULL
      else A_OK)"

definition admitted :: "mempool \<Rightarrow> txn \<Rightarrow> mempool" where
  "admitted m t =
     m\<lparr>mp_next_seq := mp_next_seq m + 1,
       mp_byTxid := AList.update (txid t) \<lparr>me_txn = t, me_txid = txid t, me_seq = mp_next_seq m\<rparr> (mp_byTxid m),
       mp_bySender := AList.update (tx_from t) (txid t) (mp_bySender m),
       mp_bySeq := AList.update (mp_next_seq m) (txid t) (mp_bySeq m)\<rparr>"

lemma length_update_new: "map_of xs k = None \<Longrightarrow> length (AList.update k v xs) = Suc (length xs)"
  by (induction xs) (auto split: if_splits)

lemma admit_eq:
  "admit vf lookup m t =
   (admit_decision vf lookup m t, if admit_decision vf lookup m t = A_OK then admitted m t else m)"
  by (auto simp: admit_def admit_decision_def admitted_def applyTxn_def address_matches_def Let_def)

text \<open>
  An admission takes the first of these decisions that applies: bad version, duplicate,
  bad address or coinbase shape, bad signature, wrong nonce, busy slot, missing funds, full pool;
  otherwise it is accepted.  Only an accepted transaction changes the pool.
\<close>

theorem admit_order:
  "fst (admit vf lookup m t) = admit_decision vf lookup m t \<and>
   (let m' = snd (admit vf lookup m t)
    in if admit_decision vf lookup m t = A_OK
       then mp_size m' = Suc (mp_size m) \<and> mp_contains m' (txid t) \<and> hasPending m' (tx_from t)
       else m' = m)"
  using length_update_new [of "mp_byTxid m" "txid t"]
  by (auto simp: admit_eq admitted_def admit_decision_def mp_size_def mp_contains_def hasPending_def
      update_conv' Let_def split: if_splits)

text \<open>
  C11. What the pool admits, the chain accepts: if the pool's account lookup is the committed
  state, an admitted transaction passes the consensus gate on that state, at any position after
  the coinbase, and is not a coinbase.
\<close>

theorem admitted_passes_gate:
  assumes "fst (admit vf (acct w) m t) = A_OK"
  shows "applyTxn vf w t idx ti = (OK, moved w t) \<and> \<not> is_coinbase t"
  using assms
  by (auto simp: admit_eq admit_decision_def applyTxn_transfer_OK_iff transfer_ok_def address_matches_def
      is_coinbase_def not_less split: if_splits)

definition sample_pool :: mempool where
  "sample_pool = admitted (new_mempool 8) (sample_transfer kNullAddr 30 0)"

definition sample_tip :: ledger where
  "sample_tip = [(sample_addr, \<lparr>acc_balance = 100, acc_nonce = 0\<rparr>)]"

lemma sample_tip_acct [simp]: "acct sample_tip sample_addr = \<lparr>acc_balance = 100, acc_nonce = 0\<rparr>"
  by (simp add: acct_def sample_tip_def)

lemma sample_admit:
  "admit any_sig (acct sample_tip) (new_mempool 8) (sample_transfer kNullAddr 30 0) = (A_OK, sample_pool)"
  by (simp add: admit_eq admit_decision_def sample_pool_def mp_contains_def new_mempool_def hasPending_def
      mp_size_def any_sig_def sample_addr_def [symmetric])

theorem admitted_passes_gate_witness:
  "fst (applyTxn any_sig sample_tip (sample_transfer kNullAddr 30 0) 9 3) = OK"
  using admitted_passes_gate [of any_sig sample_tip "new_mempool 8" "sample_transfer kNullAddr 30 0" 9 3]
  by (simp add: sample_admit)

section \<open>Preservation of the invariant\<close>

text \<open>The three indexes after an admission, each against the entries.\<close>

lemma admitted_entry_ok:
  assumes inv: "mempool_inv vf m" and s1: "mp_next_seq m < mp_next_seq m + 1"
    and fresh: "map_of (mp_bySender m) (tx_from t) = None" and auth: "authentic vf t"
    and e: "map_of (mp_byTxid (admitted m t)) tid = Some e"
  shows "entry_ok vf (admitted m t) tid e"
proof (cases "tid = txid t")
  case True
  with e auth s1 show ?thesis by (auto simp: admitted_def update_conv' entry_ok_def)
next
  case False
  with e have "map_of (mp_byTxid m) tid = Some e" by (simp add: admitted_def update_conv')
  then have o: "entry_ok vf m tid e" using inv by (simp add: mempool_inv_def)
  have "me_seq e \<noteq> mp_next_seq m" using o by (auto simp: entry_ok_def)
  moreover have "tx_from (me_txn e) \<noteq> tx_from t" using o fresh by (auto simp: entry_ok_def)
  ultimately show ?thesis using o s1 by (auto simp: admitted_def update_conv' entry_ok_def)
qed

lemma admitted_index_entry:
  assumes fresh: "map_of (mp_byTxid m) (txid t) = None"
    and old: "map_of (mp_byTxid m) tid = Some e"
  shows "map_of (mp_byTxid (admitted m t)) tid = Some e"
proof -
  have "tid \<noteq> txid t" using fresh old by auto
  with old show ?thesis by (simp add: admitted_def update_conv')
qed

lemma admitted_senders:
  assumes inv: "mempool_inv vf m" and fresh: "map_of (mp_byTxid m) (txid t) = None"
    and a: "map_of (mp_bySender (admitted m t)) a = Some tid"
  shows "\<exists>e. map_of (mp_byTxid (admitted m t)) tid = Some e \<and> tx_from (me_txn e) = a"
proof (cases "a = tx_from t")
  case True
  with a show ?thesis by (simp add: admitted_def update_conv')
next
  case False
  with a have "map_of (mp_bySender m) a = Some tid" by (simp add: admitted_def update_conv')
  then show ?thesis using admitted_index_entry [OF fresh] by (metis mempool_inv_sender [OF inv])
qed

lemma admitted_seqs:
  assumes inv: "mempool_inv vf m" and fresh: "map_of (mp_byTxid m) (txid t) = None"
    and s: "map_of (mp_bySeq (admitted m t)) s = Some tid"
  shows "\<exists>e. map_of (mp_byTxid (admitted m t)) tid = Some e \<and> me_seq e = s"
proof (cases "s = mp_next_seq m")
  case True
  with s show ?thesis by (simp add: admitted_def update_conv')
next
  case False
  with s have "map_of (mp_bySeq m) s = Some tid" by (simp add: admitted_def update_conv')
  then show ?thesis using admitted_index_entry [OF fresh] by (metis mempool_inv_seq [OF inv])
qed

lemma mempool_inv_admit:
  assumes inv: "mempool_inv vf m" and seq: "unat (mp_next_seq m) + 1 < 2 ^ 64"
  shows "mempool_inv vf (snd (admit vf lookup m t))"
proof (cases "admit_decision vf lookup m t = A_OK")
  case False
  with inv show ?thesis by (simp add: admit_eq)
next
  case True
  have s1: "mp_next_seq m < mp_next_seq m + 1"
    using seq by (simp add: word_less_nat_alt unat_add_lem [THEN iffD1])
  have fresh: "map_of (mp_byTxid m) (txid t) = None" "map_of (mp_bySender m) (tx_from t) = None"
    and auth: "authentic vf t" and room: "mp_size m < mp_cap m"
    using True by (auto simp: admit_decision_def mp_contains_def hasPending_def authentic_def
        address_matches_def split: if_splits)
  have "distinct (map fst (mp_byTxid (admitted m t)))" "distinct (map fst (mp_bySender (admitted m t)))"
    "distinct (map fst (mp_bySeq (admitted m t)))"
    using inv by (simp_all add: admitted_def mempool_inv_def distinct_update)
  moreover have "mp_size (admitted m t) \<le> mp_cap (admitted m t)"
    using room length_update_new [OF fresh(1)] by (simp add: admitted_def mp_size_def)
  ultimately show ?thesis
    using admitted_entry_ok [OF inv s1 fresh(2) auth] admitted_senders [OF inv fresh(1)] admitted_seqs [OF inv fresh(1)] True
    by (simp add: admit_eq mempool_inv_def)
qed

text \<open>
  An eviction finds its entry by content id.  The included transaction is the admitted one, up to
  a collision of ids; all that matters is that it has the sender of the entry.
\<close>

definition ids_agree :: "mempool \<Rightarrow> txn \<Rightarrow> bool" where
  "ids_agree m t \<longleftrightarrow> (\<forall>e. map_of (mp_byTxid m) (txid t) = Some e \<longrightarrow> tx_from (me_txn e) = tx_from t)"

definition evicted :: "mempool \<Rightarrow> txn \<Rightarrow> mempool_entry \<Rightarrow> mempool" where
  "evicted m t e =
     m\<lparr>mp_bySeq := AList.delete (me_seq e) (mp_bySeq m),
       mp_bySender := AList.delete (tx_from t) (mp_bySender m),
       mp_byTxid := AList.delete (txid t) (mp_byTxid m)\<rparr>"

lemma evict_one_eq:
  assumes inv: "mempool_inv vf m" and ids: "ids_agree m t"
  shows "evict_one t m = (case map_of (mp_byTxid m) (txid t) of None \<Rightarrow> m | Some e \<Rightarrow> evicted m t e)"
proof (cases "map_of (mp_byTxid m) (txid t)")
  case None
  then show ?thesis by (simp add: evict_one_def)
next
  case (Some e)
  have "map_of (mp_bySender m) (tx_from t) = Some (txid t)"
    using mempool_inv_entry [OF inv Some] ids Some by (simp add: entry_ok_def ids_agree_def)
  with Some show ?thesis by (simp add: evict_one_def evicted_def Let_def)
qed

lemma mempool_inv_evict_one:
  assumes inv: "mempool_inv vf m" and ids: "ids_agree m t"
  shows "mempool_inv vf (evict_one t m)"
proof (cases "map_of (mp_byTxid m) (txid t)")
  case None
  with inv show ?thesis by (simp add: evict_one_eq [OF inv ids])
next
  case (Some e)
  let ?m = "evicted m t e"
  have ent: "entry_ok vf m tid e'" if "map_of (mp_byTxid m) tid = Some e'" for tid e'
    using inv that by (rule mempool_inv_entry)
  have sender: "tx_from (me_txn e) = tx_from t" using ids Some by (simp add: ids_agree_def)
  have other: "me_seq e' \<noteq> me_seq e \<and> tx_from (me_txn e') \<noteq> tx_from t"
    if "map_of (mp_byTxid m) tid = Some e'" "tid \<noteq> txid t" for tid e'
    using ent [OF that(1)] ent [OF Some] that(2) sender by (auto simp: entry_ok_def)
  have entry: "entry_ok vf ?m tid e'" if "map_of (mp_byTxid ?m) tid = Some e'" for tid e'
  proof -
    have "tid \<noteq> txid t" "map_of (mp_byTxid m) tid = Some e'"
      using that by (auto simp: evicted_def delete_conv' split: if_splits)
    with ent other [of tid e'] show ?thesis by (auto simp: entry_ok_def evicted_def delete_conv')
  qed
  have senders: "\<exists>e'. map_of (mp_byTxid ?m) tid = Some e' \<and> tx_from (me_txn e') = a"
    if "map_of (mp_bySender ?m) a = Some tid" for a tid
  proof -
    have a: "a \<noteq> tx_from t" "map_of (mp_bySender m) a = Some tid"
      using that by (auto simp: evicted_def delete_conv' split: if_splits)
    obtain e' where "map_of (mp_byTxid m) tid = Some e'" "tx_from (me_txn e') = a"
      by (rule mempool_inv_sender [OF inv a(2)])
    with a Some sender show ?thesis by (auto simp: evicted_def delete_conv')
  qed
  have seqs: "\<exists>e'. map_of (mp_byTxid ?m) tid = Some e' \<and> me_seq e' = s"
    if "map_of (mp_bySeq ?m) s = Some tid" for s tid
  proof -
    have a: "s \<noteq> me_seq e" "map_of (mp_bySeq m) s = Some tid"
      using that by (auto simp: evicted_def delete_conv' split: if_splits)
    obtain e' where "map_of (mp_byTxid m) tid = Some e'" "me_seq e' = s"
      by (rule mempool_inv_seq [OF inv a(2)])
    with a Some show ?thesis by (auto simp: evicted_def delete_conv')
  qed
  have "mp_size ?m \<le> mp_cap ?m"
    using inv length_delete_le [of "txid t" "mp_byTxid m"]
    by (simp add: mempool_inv_def evicted_def mp_size_def)
  moreover have "distinct (map fst (mp_byTxid ?m))" "distinct (map fst (mp_bySender ?m))"
    "distinct (map fst (mp_bySeq ?m))"
    using inv by (simp_all add: evicted_def mempool_inv_def distinct_delete)
  ultimately show ?thesis
    using entry senders seqs Some by (simp add: evict_one_eq [OF inv ids] mempool_inv_def)
qed

text \<open>Evicting a block's transactions; each finds an entry of its own sender.\<close>

fun ids_agree_all :: "mempool \<Rightarrow> txn list \<Rightarrow> bool" where
  "ids_agree_all m [] = True"
| "ids_agree_all m (t # ts) \<longleftrightarrow> ids_agree m t \<and> ids_agree_all (evict_one t m) ts"

lemma mempool_inv_evict: "mempool_inv vf m \<Longrightarrow> ids_agree_all m ts \<Longrightarrow> mempool_inv vf (evictIncluded m ts)"
  unfolding evictIncluded_def
  by (induction ts arbitrary: m) (simp_all add: mempool_inv_evict_one)

text \<open>The pools that admissions and evictions of pending transactions reach.\<close>

inductive pool_reach :: "verifier \<Rightarrow> mempool \<Rightarrow> bool" for vf :: verifier where
  pool_new: "pool_reach vf (new_mempool cap)"
| pool_admit: "pool_reach vf m \<Longrightarrow> unat (mp_next_seq m) + 1 < 2 ^ 64 \<Longrightarrow>
    pool_reach vf (snd (admit vf lookup m t))"
| pool_evict: "pool_reach vf m \<Longrightarrow> ids_agree_all m ts \<Longrightarrow> pool_reach vf (evictIncluded m ts)"

text \<open>
  C12. The three indexes stay consistent: the invariant holds of a new pool and is kept by every
  admission, accepted or not, and by every eviction.  It says that the pool holds at most \<open>cap\<close>
  entries, at most one per sender, each under its own content id, authentic, and with a distinct
  sequence number below the next.
\<close>

theorem mempool_consistent:
  assumes "pool_reach vf m"
  shows "mempool_inv vf m \<and> mp_size m \<le> mp_cap m \<and>
    (\<forall>i j e f. map_of (mp_byTxid m) i = Some e \<and> map_of (mp_byTxid m) j = Some f \<and>
       (tx_from (me_txn e) = tx_from (me_txn f) \<or> me_seq e = me_seq f) \<longrightarrow> i = j)"
proof -
  have inv: "mempool_inv vf m"
    using assms
    by induction (simp_all add: mempool_inv_new mempool_inv_admit mempool_inv_evict)
  moreover have "mp_size m \<le> mp_cap m" using inv by (simp add: mempool_inv_def)
  moreover have "i = j"
    if "map_of (mp_byTxid m) i = Some e" "map_of (mp_byTxid m) j = Some f"
      "tx_from (me_txn e) = tx_from (me_txn f) \<or> me_seq e = me_seq f" for i j e f
    using mempool_inv_entry [OF inv that(1)] mempool_inv_entry [OF inv that(2)] that(3)
    by (auto simp: entry_ok_def)
  ultimately show ?thesis by blast
qed

lemma sample_pool_reached: "pool_reach any_sig sample_pool"
  using pool_admit [OF pool_new [of any_sig 8], of "acct sample_tip" "sample_transfer kNullAddr 30 0"]
  by (simp add: sample_admit) (simp add: new_mempool_def)

theorem mempool_consistent_witness: "mempool_inv any_sig sample_pool"
  using mempool_consistent [OF sample_pool_reached] by blast

section \<open>The view in admission order\<close>

lemma map_filter_Some:
  "(\<And>x. x \<in> set xs \<Longrightarrow> f x = Some (g x)) \<Longrightarrow> List.map_filter f xs = map g xs"
  by (induction xs) (simp_all add: map_filter_simps)

lemma sortedBySeq_eq:
  assumes inv: "mempool_inv vf m"
  shows "sortedBySeq m = map (\<lambda>kv. the (map_of (mp_byTxid m) (snd kv))) (sort_key fst (mp_bySeq m))"
  unfolding sortedBySeq_def
proof (rule map_filter_Some)
  fix kv assume "kv \<in> set (sort_key fst (mp_bySeq m))"
  then have "(fst kv, snd kv) \<in> set (mp_bySeq m)" by simp
  then have "map_of (mp_bySeq m) (fst kv) = Some (snd kv)"
    using inv by (simp add: mempool_inv_def)
  from mempool_inv_seq [OF inv this]
  show "map_of (mp_byTxid m) (snd kv) = Some (the (map_of (mp_byTxid m) (snd kv)))" by force
qed

lemma sortedBySeq_view:
  assumes inv: "mempool_inv vf m"
  shows "sorted_wrt (<) (map me_seq (sortedBySeq m)) \<and> set (sortedBySeq m) = ran (map_of (mp_byTxid m))"
proof -
  let ?kvs = "sort_key fst (mp_bySeq m)"
  have lookup: "\<exists>e. map_of (mp_byTxid m) (snd kv) = Some e \<and> me_seq e = fst kv" if "kv \<in> set ?kvs" for kv
  proof -
    have "map_of (mp_bySeq m) (fst kv) = Some (snd kv)" using that inv by (simp add: mempool_inv_def)
    from mempool_inv_seq [OF inv this] show ?thesis by blast
  qed
  have "map me_seq (sortedBySeq m) = map fst ?kvs"
    unfolding sortedBySeq_eq [OF inv] using lookup by force
  moreover have "sorted (map fst ?kvs)" "distinct (map fst ?kvs)"
    using inv by (simp_all add: mempool_inv_def distinct_map)
  ultimately have "sorted_wrt (<) (map me_seq (sortedBySeq m))" by (simp add: strict_sorted_iff)
  moreover have "set (sortedBySeq m) = ran (map_of (mp_byTxid m))"
  proof (intro set_eqI iffI)
    fix e assume "e \<in> set (sortedBySeq m)"
    then obtain kv where "kv \<in> set ?kvs" "e = the (map_of (mp_byTxid m) (snd kv))"
      unfolding sortedBySeq_eq [OF inv] by auto
    with lookup [of kv] show "e \<in> ran (map_of (mp_byTxid m))" by (auto simp: ran_def)
  next
    fix e assume "e \<in> ran (map_of (mp_byTxid m))"
    then obtain i where i: "map_of (mp_byTxid m) i = Some e" by (auto simp: ran_def)
    then have "map_of (mp_bySeq m) (me_seq e) = Some i"
      using mempool_inv_entry [OF inv i] by (simp add: entry_ok_def)
    then have "(me_seq e, i) \<in> set ?kvs" by (simp add: map_of_SomeD)
    with i show "e \<in> set (sortedBySeq m)" unfolding sortedBySeq_eq [OF inv] by force
  qed
  ultimately show ?thesis by blast
qed

text \<open>
  The view of a consistent pool lists exactly its entries, in strictly ascending sequence
  numbers, that is in the order of their admission.
\<close>

theorem sortedBySeq_sound:
  assumes inv: "mempool_inv vf m"
  shows "sorted_wrt (<) (map me_seq (sortedBySeq m)) \<and> set (sortedBySeq m) = ran (map_of (mp_byTxid m))"
  using assms by (rule sortedBySeq_view)

lemma sample_pool_inv: "mempool_inv any_sig sample_pool"
  using mempool_inv_admit [OF mempool_inv_new, of 8 any_sig "acct sample_tip" "sample_transfer kNullAddr 30 0"]
  by (simp add: sample_admit) (simp add: new_mempool_def)

theorem sortedBySeq_sound_witness: "map me_txn (sortedBySeq sample_pool) = [sample_transfer kNullAddr 30 0]"
proof -
  have "ran (map_of (mp_byTxid sample_pool)) =
      {\<lparr>me_txn = sample_transfer kNullAddr 30 0, me_txid = txid (sample_transfer kNullAddr 30 0), me_seq = 0\<rparr>}"
    by (simp add: sample_pool_def admitted_def new_mempool_def)
  with sortedBySeq_sound [OF sample_pool_inv]
  have v: "set (sortedBySeq sample_pool) =
      {\<lparr>me_txn = sample_transfer kNullAddr 30 0, me_txid = txid (sample_transfer kNullAddr 30 0), me_seq = 0\<rparr>}"
    and "distinct (map me_seq (sortedBySeq sample_pool))" by (simp_all add: strict_sorted_iff)
  then have "length (sortedBySeq sample_pool) = 1" by (metis card_1_singleton_iff distinct_card distinct_map One_nat_def)
  with v show ?thesis by (cases "sortedBySeq sample_pool") auto
qed

definition pending_txns :: "mempool \<Rightarrow> txn list" where
  "pending_txns m = map me_txn (sortedBySeq m)"

lemma pending_entry:
  "mempool_inv vf m \<Longrightarrow> e \<in> set (sortedBySeq m) \<Longrightarrow> \<exists>i. entry_ok vf m i e"
  using sortedBySeq_view [of vf m] mempool_inv_entry by (force simp: ran_def)

interpretation pool: pending_set pending_txns "mempool_inv vf" "authentic vf" for vf
proof unfold_locales
  fix m assume inv: "mempool_inv vf m"
  note ord = sortedBySeq_view [OF inv, THEN conjunct1]
  have "inj_on (\<lambda>e. tx_from (me_txn e)) (set (sortedBySeq m))"
  proof (rule inj_onI)
    fix e f assume ef: "e \<in> set (sortedBySeq m)" "f \<in> set (sortedBySeq m)"
      "tx_from (me_txn e) = tx_from (me_txn f)"
    obtain i j where ij: "map_of (mp_byTxid m) i = Some e" "map_of (mp_byTxid m) j = Some f"
      using ef(1,2) sortedBySeq_view [OF inv] by (auto simp: ran_def)
    have "i = j"
      using mempool_inv_entry [OF inv ij(1)] mempool_inv_entry [OF inv ij(2)] ef(3)
      by (simp add: entry_ok_def)
    with ij show "e = f" by simp
  qed
  moreover have "distinct (sortedBySeq m)" using ord by (simp add: strict_sorted_iff distinct_map)
  ultimately show "distinct (map tx_from (pending_txns m))"
    by (simp add: pending_txns_def distinct_map comp_def)
next
  fix m t assume inv: "mempool_inv vf m" and "t \<in> set (pending_txns m)"
  then obtain e where "e \<in> set (sortedBySeq m)" "t = me_txn e" by (auto simp: pending_txns_def)
  with pending_entry [OF inv] show "authentic vf t" by (auto simp: entry_ok_def)
qed

end
