(* ===== verification/Candidate.thy ===== *)
theory Candidate
  imports Mempool Validate
begin

text \<open>
  The assembly of an unmined block (\<^verbatim>\<open>pow/candidate.hpp\<close>, \<^verbatim>\<open>pow/candidate.cpp\<close>): coinbase
  first, then pending transactions in admission order, each checked against a shadow of the
  accounts that is filled on first touch.

  The lemmas show that the consensus gate accepts what the builder selects, although the shadow
  and the gate treat a transfer of an account to itself differently.
\<close>

section \<open>The builder\<close>

record candidate =
  cd_hdr :: block_header
  cd_txns :: "txn list"

text \<open>\<^verbatim>\<open>touch\<close>: materialise an account of the committed index in the shadow.\<close>

definition touch :: "(address \<Rightarrow> account_state) \<Rightarrow> address \<Rightarrow> ledger \<Rightarrow> ledger" where
  "touch accountAt a shadow =
     (case map_of shadow a of Some _ \<Rightarrow> shadow | None \<Rightarrow> set_acct shadow a (accountAt a))"

text \<open>The greedy loop; \<open>txns\<close> is \<^verbatim>\<open>c.txns\<close>.\<close>

fun select_txns :: "(address \<Rightarrow> account_state) \<Rightarrow> ledger \<Rightarrow> txn list \<Rightarrow> txn list \<Rightarrow> txn list" where
  "select_txns accountAt shadow txns [] = txns"
| "select_txns accountAt shadow txns (t # ts) =
     (if length txns \<ge> MAX_TXNS_PER_BLOCK then txns
      else
        let shadow = touch accountAt (tx_to t) (touch accountAt (tx_from t) shadow);
            from_acc = acct shadow (tx_from t)
        in if tx_nonce t \<noteq> acc_nonce from_acc then select_txns accountAt shadow txns ts
           else if tx_amount t > acc_balance from_acc then select_txns accountAt shadow txns ts
           else
             let shadow = set_acct shadow (tx_from t)
                   \<lparr>acc_balance = acc_balance from_acc - tx_amount t, acc_nonce = acc_nonce from_acc + 1\<rparr>;
                 to_acc = acct shadow (tx_to t);
                 shadow = set_acct shadow (tx_to t) (to_acc\<lparr>acc_balance := acc_balance to_acc + tx_amount t\<rparr>)
             in select_txns accountAt shadow (txns @ [t]) ts)"

definition buildCandidate :: "address \<Rightarrow> u64 \<Rightarrow> byte list \<Rightarrow> u64 \<Rightarrow> u64 \<Rightarrow> mempool \<Rightarrow>
    (address \<Rightarrow> account_state) \<Rightarrow> candidate" where
  "buildCandidate minerAddr tip_index tip_hash tip_timestamp now_s mp accountAt =
     (let height = tip_index + 1;
          shadow = touch accountAt minerAddr [];
          shadow = credit shadow minerAddr COINBASE_REWARD;
          txns = select_txns accountAt shadow [coinbaseTxn minerAddr height] (pending_txns mp)
      in \<lparr>cd_hdr = \<lparr>bh_index = height, bh_timestamp = max now_s (tip_timestamp + 1),
                    bh_prevHash = tip_hash, bh_txnsHash = txns_hash txns, bh_nonce = 0\<rparr>,
          cd_txns = txns\<rparr>)"

section \<open>The shadow as a view of the accounts\<close>

definition view :: "(address \<Rightarrow> account_state) \<Rightarrow> ledger \<Rightarrow> address \<Rightarrow> account_state" where
  "view accountAt shadow a = (case map_of shadow a of Some s \<Rightarrow> s | None \<Rightarrow> accountAt a)"

lemma view_touch [simp]: "view accountAt (touch accountAt b shadow) a = view accountAt shadow a"
  by (simp add: view_def touch_def set_acct_def update_conv' split: option.split)

lemma view_set [simp]: "view accountAt (set_acct shadow b s) a = (if a = b then s else view accountAt shadow a)"
  by (simp add: view_def set_acct_def update_conv')

lemma acct_touched: "map_of shadow a \<noteq> None \<Longrightarrow> acct shadow a = view accountAt shadow a"
  by (auto simp: view_def acct_def)

lemma touched [simp]: "map_of (touch accountAt a shadow) a \<noteq> None"
  "map_of shadow a \<noteq> None \<Longrightarrow> map_of (touch accountAt b shadow) a \<noteq> None"
  by (auto simp: touch_def set_acct_def update_conv' split: option.splits)

lemma acct_touch_pair:
  "acct (touch f b (touch f a shadow)) a = view f shadow a"
  "acct (set_acct (touch f b (touch f a shadow)) a s) b = (if b = a then s else view f shadow b)"
  using acct_touched [of "touch f b (touch f a shadow)" a f] acct_touched [of "touch f b (touch f a shadow)" b f]
  by (simp_all add: ledger_simps)

section \<open>The gate accepts the selection\<close>

text \<open>
  The step of the loop on the view: a transfer to another account changes the view as the gate
  changes the ledger; one of an account to itself does not, and its sender is set aside.
\<close>

definition agrees_except :: "address set \<Rightarrow> (address \<Rightarrow> account_state) \<Rightarrow> ledger \<Rightarrow> ledger \<Rightarrow> bool" where
  "agrees_except S accountAt shadow w \<longleftrightarrow> (\<forall>a. a \<notin> S \<longrightarrow> view accountAt shadow a = acct w a)"

lemma agrees_moved:
  assumes "agrees_except S f shadow w" "tx_from t \<notin> S"
    and "\<And>a. view f shadow' a = view f (set_acct (set_acct shadow (tx_from t)
        \<lparr>acc_balance = acc_balance (view f shadow (tx_from t)) - tx_amount t,
         acc_nonce = acc_nonce (view f shadow (tx_from t)) + 1\<rparr>) (tx_to t)
        ((view f (set_acct shadow (tx_from t)
        \<lparr>acc_balance = acc_balance (view f shadow (tx_from t)) - tx_amount t,
         acc_nonce = acc_nonce (view f shadow (tx_from t)) + 1\<rparr>) (tx_to t))
         \<lparr>acc_balance := acc_balance (view f (set_acct shadow (tx_from t)
        \<lparr>acc_balance = acc_balance (view f shadow (tx_from t)) - tx_amount t,
         acc_nonce = acc_nonce (view f shadow (tx_from t)) + 1\<rparr>) (tx_to t)) + tx_amount t\<rparr>)) a"
  shows "agrees_except (insert (tx_from t) S) f shadow' (moved w t)"
  using assms by (auto simp: agrees_except_def moved_def ledger_simps)

text \<open>One round that takes its transaction: what the shadow and the ledger become.\<close>

lemma select_txns_takes:
  assumes agr: "agrees_except S f shadow w" and from_t: "tx_from t \<notin> S" and auth: "authentic vf t"
    and takes: "length txns < MAX_TXNS_PER_BLOCK" "tx_nonce t = acc_nonce (view f shadow (tx_from t))"
      "tx_amount t \<le> acc_balance (view f shadow (tx_from t))"
  obtains sh where "select_txns f shadow txns (t # ts) = select_txns f sh (txns @ [t]) ts"
    "agrees_except (insert (tx_from t) S) f sh (moved w t)" "applyTxn vf w t idx n = (OK, moved w t)"
proof -
  let ?sh = "touch f (tx_to t) (touch f (tx_from t) shadow)" and ?v = "view f shadow (tx_from t)"
  let ?sh1 = "set_acct ?sh (tx_from t) \<lparr>acc_balance = acc_balance ?v - tx_amount t, acc_nonce = acc_nonce ?v + 1\<rparr>"
  let ?to = "acct ?sh1 (tx_to t)"
  let ?sh2 = "set_acct ?sh1 (tx_to t) (?to\<lparr>acc_balance := acc_balance ?to + tx_amount t\<rparr>)"
  have v: "?v = acct w (tx_from t)" using agr from_t by (simp add: agrees_except_def)
  have "\<not> acc_balance ?v < tx_amount t" using takes by (simp add: not_less)
  with takes have "select_txns f shadow txns (t # ts) = select_txns f ?sh2 (txns @ [t]) ts"
    by (simp add: acct_touch_pair Let_def)
  moreover have "agrees_except (insert (tx_from t) S) f ?sh2 (moved w t)"
    by (rule agrees_moved [OF agr from_t]) (simp add: acct_touch_pair)
  moreover have "tx_from t \<noteq> kNullAddr" using auth by (simp add: authentic_def)
  then have "applyTxn vf w t idx n = (OK, moved w t)"
    using auth takes v by (simp add: applyTxn_transfer_OK_iff transfer_ok_def authentic_def)
  ultimately show thesis by (rule that)
qed

lemma select_txns_accepted:
  assumes "agrees_except S f shadow w" "distinct (map tx_from ts)" "S \<inter> tx_from ` set ts = {}"
    and "list_all (authentic vf) ts"
  shows "\<exists>new w'. select_txns f shadow txns ts = txns @ new \<and>
    block_loop vf idx w cb (length txns) new = Inr (cb, w') \<and>
    (length txns \<le> MAX_TXNS_PER_BLOCK \<longrightarrow> length (txns @ new) \<le> MAX_TXNS_PER_BLOCK) \<and>
    subseq new ts"
  using assms
proof (induction ts arbitrary: S shadow w txns)
  case Nil
  then show ?case by simp
next
  case (Cons t ts)
  let ?sh = "touch f (tx_to t) (touch f (tx_from t) shadow)"
  let ?v = "view f shadow (tx_from t)"
  have skip: ?case if "select_txns f shadow txns (t # ts) = select_txns f ?sh txns ts"
  proof -
    have "agrees_except S f ?sh w" using Cons.prems(1) by (simp add: agrees_except_def)
    from Cons.IH [OF this, of txns] Cons.prems(2-4) obtain new w' where
      new: "select_txns f ?sh txns ts = txns @ new" "block_loop vf idx w cb (length txns) new = Inr (cb, w')"
        "length txns \<le> MAX_TXNS_PER_BLOCK \<longrightarrow> length (txns @ new) \<le> MAX_TXNS_PER_BLOCK"
        "subseq new ts" by fastforce
    from that new(1) have "select_txns f shadow txns (t # ts) = txns @ new" by (rule trans)
    with new(2-4) list_emb_Cons show ?thesis by blast
  qed
  have from_t: "tx_from t \<notin> S" and auth: "authentic vf t" using Cons.prems(3,4) by auto
  show ?case
  proof (cases "length txns < MAX_TXNS_PER_BLOCK \<and> tx_nonce t = acc_nonce ?v \<and> tx_amount t \<le> acc_balance ?v")
    case False
    then consider "length txns \<ge> MAX_TXNS_PER_BLOCK"
      | "length txns < MAX_TXNS_PER_BLOCK" "tx_nonce t \<noteq> acc_nonce ?v \<or> tx_amount t > acc_balance ?v"
      by (metis linorder_not_le)
    then show ?thesis
    proof cases
      case 1
      then show ?thesis by auto
    next
      case 2
      then show ?thesis by (intro skip) (auto simp: acct_touch_pair Let_def)
    qed
  next
    case True
    obtain sh where sh: "select_txns f shadow txns (t # ts) = select_txns f sh (txns @ [t]) ts"
      "agrees_except (insert (tx_from t) S) f sh (moved w t)"
      "applyTxn vf w t idx (length txns) = (OK, moved w t)"
      using select_txns_takes [OF Cons.prems(1) from_t auth, of txns ts idx "length txns"] True by blast
    have prem: "distinct (map tx_from ts)" "insert (tx_from t) S \<inter> tx_from ` set ts = {}"
      "list_all (authentic vf) ts" using Cons.prems(2-4) by auto
    from Cons.IH [OF sh(2) prem, of "txns @ [t]"] obtain new w' where
      new: "select_txns f sh (txns @ [t]) ts = (txns @ [t]) @ new"
        "block_loop vf idx (moved w t) cb (length (txns @ [t])) new = Inr (cb, w')"
        "length (txns @ [t]) \<le> MAX_TXNS_PER_BLOCK \<longrightarrow> length ((txns @ [t]) @ new) \<le> MAX_TXNS_PER_BLOCK"
        "subseq new ts" by (elim exE conjE)
    have "tx_from t \<noteq> kNullAddr" using auth by (simp add: authentic_def)
    then have "block_loop vf idx w cb (length txns) (t # new) = Inr (cb, w')"
      using new(2) sh(3) by simp
    with new(1,3,4) sh(1) True show ?thesis by (intro exI [of _ "t # new"]) auto
  qed
qed

text \<open>The whole candidate: its coinbase and what is selected from a consistent pool.\<close>

lemma agrees_coinbase:
  "agrees_except {} (acct w) (credit (touch (acct w) a []) a x) (credit w a x)"
proof -
  have "view (acct w) [] b = acct w b" for b by (simp add: view_def)
  moreover have "acct (touch (acct w) a []) a = acct w a"
    by (simp add: touch_def ledger_simps)
  ultimately show ?thesis by (simp add: agrees_except_def credit_def ledger_simps)
qed

lemma coinbaseTxn_sel [simp]:
  "tx_from (coinbaseTxn a h) = kNullAddr" "tx_to (coinbaseTxn a h) = a"
  "tx_amount (coinbaseTxn a h) = COINBASE_REWARD" "tx_nonce (coinbaseTxn a h) = h"
  "tx_pubkey (coinbaseTxn a h) = kNullPub" "tx_sig (coinbaseTxn a h) = kNullSig"
  "tx_ver (coinbaseTxn a h) = kTxnVersion"
  by (simp_all add: coinbaseTxn_def)

lemma buildCandidate_sel:
  "cd_hdr (buildCandidate miner i h ts now_s mp f) =
     \<lparr>bh_index = i + 1, bh_timestamp = max now_s (ts + 1), bh_prevHash = h,
      bh_txnsHash = txns_hash (cd_txns (buildCandidate miner i h ts now_s mp f)), bh_nonce = 0\<rparr>"
  by (simp add: buildCandidate_def Let_def)

lemma buildCandidate_txns:
  assumes inv: "mempool_inv vf mp"
  obtains new w' where "cd_txns (buildCandidate miner i h ts now_s mp (acct w)) = coinbaseTxn miner (i + 1) # new"
    "block_loop vf (i + 1) w 0 0 (coinbaseTxn miner (i + 1) # new) = Inr (1, w')"
    "length new < MAX_TXNS_PER_BLOCK" "subseq new (pending_txns mp)"
proof -
  let ?cb = "coinbaseTxn miner (i + 1)"
  let ?w1 = "credit w miner COINBASE_REWARD"
  obtain new w' where new:
    "select_txns (acct w) (credit (touch (acct w) miner []) miner COINBASE_REWARD) [?cb] (pending_txns mp)
       = [?cb] @ new"
    "block_loop vf (i + 1) ?w1 1 (length [?cb]) new = Inr (1, w')"
    "length [?cb] \<le> MAX_TXNS_PER_BLOCK \<longrightarrow> length ([?cb] @ new) \<le> MAX_TXNS_PER_BLOCK"
    "subseq new (pending_txns mp)"
    using select_txns_accepted [OF agrees_coinbase pool.one_per_sender [OF inv] _
        pool.pending_all_authentic [OF inv], of w miner COINBASE_REWARD "[?cb]" "i + 1" 1] by auto
  show thesis
  proof (rule that)
    show "cd_txns (buildCandidate miner i h ts now_s mp (acct w)) = ?cb # new"
      using new(1) by (simp add: buildCandidate_def Let_def)
    show "block_loop vf (i + 1) w 0 0 (?cb # new) = Inr (1, w')" using new(2) by simp
    show "length new < MAX_TXNS_PER_BLOCK" using new(3) by (simp add: MAX_TXNS_PER_BLOCK_def)
  qed (rule new(4))
qed

text \<open>
  C13. A candidate built over the committed state from a consistent pool is a block the gate
  accepts as it stands: the coinbase of the next height first, then at most seven pending
  transactions in admission order, the commitment of exactly these, and a later timestamp.
\<close>

theorem candidate_passes_gate:
  assumes inv: "mempool_inv vf mp" and ts: "unat tip_ts + 1 < 2 ^ 64"
  shows "let cd = buildCandidate miner i h tip_ts now_s mp (acct w) in
    cd_txns cd \<noteq> [] \<and> hd (cd_txns cd) = coinbaseTxn miner (i + 1) \<and>
    subseq (tl (cd_txns cd)) (pending_txns mp) \<and> length (cd_txns cd) \<le> MAX_TXNS_PER_BLOCK \<and>
    bh_index (cd_hdr cd) = i + 1 \<and> bh_prevHash (cd_hdr cd) = h \<and> tip_ts < bh_timestamp (cd_hdr cd) \<and>
    bh_txnsHash (cd_hdr cd) = txns_hash (cd_txns cd) \<and>
    bar_reason (fst (applyBlockTxns vf w \<lparr>blk_header = cd_hdr cd, blk_txns = cd_txns cd\<rparr> R)) = OK"
proof -
  obtain new w' where new: "cd_txns (buildCandidate miner i h tip_ts now_s mp (acct w)) = coinbaseTxn miner (i + 1) # new"
    "block_loop vf (i + 1) w 0 0 (coinbaseTxn miner (i + 1) # new) = Inr (1, w')"
    "length new < MAX_TXNS_PER_BLOCK" "subseq new (pending_txns mp)"
    by (rule buildCandidate_txns [OF inv])
  have "tip_ts < max now_s (tip_ts + 1)" using ts by (rule less_max_succ)
  with new show ?thesis
    by (simp add: Let_def buildCandidate_sel applyBlockTxns_def bar_ok_def)
qed

theorem candidate_passes_gate_witness:
  "bar_reason (fst (applyBlockTxns any_sig sample_tip
     \<lparr>blk_header = cd_hdr (buildCandidate kNullAddr 4 [] 10 20 sample_pool (acct sample_tip)),
      blk_txns = cd_txns (buildCandidate kNullAddr 4 [] 10 20 sample_pool (acct sample_tip))\<rparr> 50)) = OK"
  using candidate_passes_gate [OF sample_pool_inv, of 10 kNullAddr 4 "[]" 20 sample_tip 50]
  by (simp add: Let_def)

end
