(* ===== verification/Chain.thy ===== *)
theory Chain
  imports Validate
begin

text \<open>
  The in-memory hash-linked chain (\<^verbatim>\<open>chain/chain.hpp\<close>, \<^verbatim>\<open>chain/chain.cpp\<close>).  The clock that
  \<^verbatim>\<open>connectBlock\<close> reads is its argument \<open>now_s\<close>, as in the code's testable overload.

  The lemmas give the acceptance condition of \<^verbatim>\<open>connectBlock\<close>, the chains reachable by it, and
  the agreement of the incremental path with the replay from genesis.
\<close>

section \<open>State and operations\<close>

type_synonym commit_delta = "(address \<times> account_state) list"

record chain =
  ch_blocks :: "block list"
  ch_state :: ledger
  ch_cumWork :: u128
  ch_difficulty :: u32
  ch_reward :: u64
  ch_undoLog :: "commit_delta list"

definition new_chain :: "u32 \<Rightarrow> u64 \<Rightarrow> chain" where
  "new_chain difficulty reward =
     \<lparr>ch_blocks = [genesisBlock], ch_state = applyGenesis [], ch_cumWork = 0,
      ch_difficulty = difficulty, ch_reward = reward, ch_undoLog = []\<rparr>"

definition height :: "chain \<Rightarrow> u64" where
  "height c = word_of_nat (length (ch_blocks c)) - 1"

definition numBlocks :: "chain \<Rightarrow> u64" where
  "numBlocks c = word_of_nat (length (ch_blocks c))"

definition tipHash :: "chain \<Rightarrow> byte list" where
  "tipHash c = block_hash (blk_header (last (ch_blocks c)))"

definition account :: "chain \<Rightarrow> address \<Rightarrow> account_state" where
  "account c a = acct (ch_state c) a"

text \<open>\<^verbatim>\<open>std::vector::at\<close>: \<open>None\<close> is the exception.\<close>

definition blockAt :: "chain \<Rightarrow> u64 \<Rightarrow> block option" where
  "blockAt c idx = (if unat idx < length (ch_blocks c) then Some (ch_blocks c ! unat idx) else None)"

definition undo_snapshot :: "ledger \<Rightarrow> txn list \<Rightarrow> commit_delta" where
  "undo_snapshot work txns =
     concat (map (\<lambda>t. [(tx_from t, acct work (tx_from t)), (tx_to t, acct work (tx_to t))]) txns)"

definition connectBlock :: "verifier \<Rightarrow> chain \<Rightarrow> block \<Rightarrow> u64 \<Rightarrow> reason \<times> chain" where
  "connectBlock vf c b now_s =
     (let tip = blk_header (last (ch_blocks c)); h = blk_header b
      in if bh_index h \<noteq> height c + 1 then (BAD_LINK, c)
         else if bh_prevHash h \<noteq> tipHash c then (BAD_LINK, c)
         else if bh_timestamp h \<le> bh_timestamp tip then (BAD_LINK, c)
         else if bh_timestamp h > now_s + MAX_CLOCK_SKEW_S then (BAD_LINK, c)
         else if \<not> meets_difficulty (block_hash h) (ch_difficulty c) then (BAD_POW, c)
         else if computeTxnsHash b \<noteq> bh_txnsHash h then (BAD_TXNS_HASH, c)
         else if length (blk_txns b) > MAX_TXNS_PER_BLOCK then (BAD_TXNS_HASH, c)
         else
           let inverse = undo_snapshot (ch_state c) (blk_txns b);
               (ar, work) = applyBlockTxns vf (ch_state c) b (ch_reward c)
           in if bar_reason ar \<noteq> OK then (bar_reason ar, c)
              else (OK, c\<lparr>ch_state := work, ch_blocks := ch_blocks c @ [b],
                          ch_cumWork := ch_cumWork c + block_work (ch_difficulty c),
                          ch_undoLog := ch_undoLog c @ [inverse]\<rparr>))"

definition validateChain :: "verifier \<Rightarrow> chain \<Rightarrow> u64 \<Rightarrow> reason" where
  "validateChain vf c now_s =
     vr_reason (replayFromGenesis vf (ch_blocks c) now_s (ch_difficulty c) (ch_reward c))"

section \<open>One call\<close>

definition appended :: "chain \<Rightarrow> block \<Rightarrow> ledger \<Rightarrow> chain" where
  "appended c b work =
     c\<lparr>ch_state := work, ch_blocks := ch_blocks c @ [b],
       ch_cumWork := ch_cumWork c + block_work (ch_difficulty c),
       ch_undoLog := ch_undoLog c @ [undo_snapshot (ch_state c) (blk_txns b)]\<rparr>"

lemma appended_sel [simp]:
  "ch_blocks (appended c b w) = ch_blocks c @ [b]" "ch_state (appended c b w) = w"
  "ch_difficulty (appended c b w) = ch_difficulty c" "ch_reward (appended c b w) = ch_reward c"
  "ch_cumWork (appended c b w) = ch_cumWork c + block_work (ch_difficulty c)"
  "ch_undoLog (appended c b w) = ch_undoLog c @ [undo_snapshot (ch_state c) (blk_txns b)]"
  by (simp_all add: appended_def)

lemma new_chain_sel [simp]:
  "ch_blocks (new_chain D R) = [genesisBlock]" "ch_state (new_chain D R) = applyGenesis []"
  "ch_difficulty (new_chain D R) = D" "ch_reward (new_chain D R) = R"
  "ch_cumWork (new_chain D R) = 0" "ch_undoLog (new_chain D R) = []"
  by (simp_all add: new_chain_def)

lemma next_index: "height c + 1 = word_of_nat (length (ch_blocks c))"
  by (simp add: height_def)

definition tip_accepts :: "verifier \<Rightarrow> chain \<Rightarrow> block \<Rightarrow> u64 \<Rightarrow> ledger \<Rightarrow> bool" where
  "tip_accepts vf c b now_s w \<longleftrightarrow>
     block_accepts vf now_s (ch_difficulty c) (ch_reward c) (word_of_nat (length (ch_blocks c)))
       (tipHash c) (bh_timestamp (blk_header (last (ch_blocks c)))) (ch_state c) b w"

lemma connectBlock_OK_iff:
  "connectBlock vf c b now_s = (OK, c') \<longleftrightarrow>
   (\<exists>w. tip_accepts vf c b now_s w \<and> c' = appended c b w)"
  using applyBlockTxns_bar_ok [of vf "ch_state c" b "ch_reward c"]
  by (cases "applyBlockTxns vf (ch_state c) b (ch_reward c)")
    (auto simp: connectBlock_def tip_accepts_def block_accepts_def appended_def next_index Let_def
      not_less not_le bar_ok_def)

lemma connectBlock_fail: "connectBlock vf c b now_s = (r, c') \<Longrightarrow> r \<noteq> OK \<Longrightarrow> c' = c"
  by (auto simp: connectBlock_def Let_def split: if_splits prod.splits)

lemma connectBlock_cases:
  obtains (committed) w where "tip_accepts vf c b now_s w" "connectBlock vf c b now_s = (OK, appended c b w)"
    | (rejected) r where "r \<noteq> OK" "connectBlock vf c b now_s = (r, c)"
  by (metis connectBlock_OK_iff connectBlock_fail surj_pair)

section \<open>Reachable chains\<close>

text \<open>
  The chains a process gets from \<^verbatim>\<open>Chain(D, R)\<close> by calls of \<^verbatim>\<open>connectBlock\<close>, accepted or not, on
  blocks whose arrays have their widths, under a clock that does not run back and is far from the
  end of 64 bits.  The third argument is the time of the last call.
\<close>

definition clock_ok :: "u64 \<Rightarrow> bool" where
  "clock_ok now_s \<longleftrightarrow> unat now_s + unat MAX_CLOCK_SKEW_S < 2 ^ 64"

inductive chain_reach :: "verifier \<Rightarrow> u32 \<Rightarrow> u64 \<Rightarrow> u64 \<Rightarrow> chain \<Rightarrow> bool"
  for vf :: verifier and D :: u32 and R :: u64 where
  reach_new: "chain_reach vf D R now_s (new_chain D R)"
| reach_connect: "chain_reach vf D R t c \<Longrightarrow> t \<le> now_s \<Longrightarrow> clock_ok now_s \<Longrightarrow> block_widths b \<Longrightarrow>
    chain_reach vf D R now_s (snd (connectBlock vf c b now_s))"

lemma skew_mono: "t \<le> now_s \<Longrightarrow> clock_ok now_s \<Longrightarrow> t + MAX_CLOCK_SKEW_S \<le> now_s + MAX_CLOCK_SKEW_S"
  by (simp add: clock_ok_def word_le_nat_alt unat_add_lem [THEN iffD1])

text \<open>A reachable chain is a block list that the replay accepts, with the replayed state.\<close>

definition replays :: "verifier \<Rightarrow> u64 \<Rightarrow> u32 \<Rightarrow> u64 \<Rightarrow> block list \<Rightarrow> ledger \<Rightarrow> bool" where
  "replays vf now_s D R bs s \<longleftrightarrow>
     replay_loop vf now_s D R 1 (block_hash (blk_header genesisBlock)) GENESIS_TIMESTAMP
       (applyGenesis []) bs = Inr s"

lemma block_accepts_mono:
  assumes "block_accepts vf t D R i h pt s b s'" "t \<le> now_s" "clock_ok now_s"
  shows "block_accepts vf now_s D R i h pt s b s'"
  using assms(1) skew_mono [OF assms(2,3)] by (auto simp: block_accepts_def)

lemma replay_loop_mono:
  "replay_loop vf t D R i h pt s bs = Inr s' \<Longrightarrow> t \<le> now_s \<Longrightarrow> clock_ok now_s \<Longrightarrow>
   replay_loop vf now_s D R i h pt s bs = Inr s'"
proof (induction bs arbitrary: i h pt s)
  case Nil
  then show ?case by simp
next
  case (Cons b bs)
  from Cons.prems(1) [unfolded replay_loop_Cons_iff] obtain s1
    where "block_accepts vf t D R (word_of_nat i) h pt s b s1"
      "replay_loop vf t D R (Suc i) (block_hash (blk_header b)) (bh_timestamp (blk_header b)) s1 bs = Inr s'"
    by blast
  with Cons.IH [OF _ Cons.prems(2,3)] block_accepts_mono [OF _ Cons.prems(2,3)]
  show ?case unfolding replay_loop_Cons_iff by blast
qed

lemma replays_snoc_iff:
  "replays vf now_s D R (bs @ [b]) s' \<longleftrightarrow>
   (\<exists>s. replays vf now_s D R bs s \<and>
        block_accepts vf now_s D R (word_of_nat (length (genesisBlock # bs)))
          (block_hash (blk_header (last (genesisBlock # bs))))
          (bh_timestamp (blk_header (last (genesisBlock # bs)))) s b s')"
  by (cases "bs = []") (auto simp: replays_def replay_loop_append_iff replay_loop_Cons_iff Let_def)

lemma chain_reach_params:
  "chain_reach vf D R t c \<Longrightarrow> ch_difficulty c = D \<and> ch_reward c = R"
proof (induction rule: chain_reach.induct)
  case (reach_new now_s)
  then show ?case by simp
next
  case (reach_connect t c now_s b)
  then show ?case by (cases rule: connectBlock_cases [of vf c b now_s]) simp_all
qed

lemma tip_accepts_iff:
  assumes "ch_blocks c = genesisBlock # bs" "ch_difficulty c = D" "ch_reward c = R"
    and "replays vf now_s D R bs (ch_state c)"
  shows "tip_accepts vf c b now_s w \<longleftrightarrow> replays vf now_s D R (bs @ [b]) w"
proof -
  have "s = ch_state c" if "replays vf now_s D R bs s" for s
    using that assms(4) by (simp add: replays_def)
  then show ?thesis
    unfolding tip_accepts_def replays_snoc_iff tipHash_def assms(1-3) using assms(4) by blast
qed

lemma chain_reach_replays:
  "chain_reach vf D R t c \<Longrightarrow> t \<le> now_s \<Longrightarrow> clock_ok now_s \<Longrightarrow>
   \<exists>bs. ch_blocks c = genesisBlock # bs \<and> replays vf now_s D R bs (ch_state c)"
proof (induction arbitrary: now_s rule: chain_reach.induct)
  case (reach_new t)
  then show ?case by (simp add: replays_def)
next
  case (reach_connect t0 c t b)
  obtain bs where bs: "ch_blocks c = genesisBlock # bs" "replays vf t D R bs (ch_state c)"
    using reach_connect.IH [OF reach_connect.hyps(2,3)] by blast
  have mono: "replays vf now_s D R bs' s" if "replays vf t D R bs' s" for bs' s
    using that reach_connect.prems unfolding replays_def by (rule replay_loop_mono)
  show ?case
  proof (cases rule: connectBlock_cases [of vf c b t])
    case (committed w)
    then have "replays vf t D R (bs @ [b]) w"
      using tip_accepts_iff [OF bs(1) _ _ bs(2)] chain_reach_params [OF reach_connect.hyps(1)] by simp
    then show ?thesis using committed(2) bs(1) mono by auto
  next
    case rejected
    then show ?thesis using bs mono by auto
  qed
qed

lemma chain_reach_widths: "chain_reach vf D R t c \<Longrightarrow> list_all block_widths (ch_blocks c)"
proof (induction rule: chain_reach.induct)
  case (reach_new now_s)
  then show ?case by simp
next
  case (reach_connect t c now_s b)
  then show ?case by (cases rule: connectBlock_cases [of vf c b now_s]) simp_all
qed

end
