(* ===== verification/Agreement.thy ===== *)
theory Agreement
  imports Chain Samples
begin

text \<open>
  The two ways the program validates a chain agree: the incremental \<^verbatim>\<open>connectBlock\<close> rejects a
  block exactly when the replay from genesis rejects the extended chain at that block, with the
  same reason; what a chain accepted is linked, ordered, committed, mined and capped.
\<close>

section \<open>Replaying an extended chain\<close>

lemma replay_loop_append:
  "replay_loop vf now_s D R i h0 t0 s0 bs = Inr s \<Longrightarrow>
   replay_loop vf now_s D R i h0 t0 s0 (bs @ cs) =
   replay_loop vf now_s D R (i + length bs)
     (if bs = [] then h0 else block_hash (blk_header (last bs)))
     (if bs = [] then t0 else bh_timestamp (blk_header (last bs))) s cs"
proof (induction bs arbitrary: i h0 t0 s0)
  case Nil
  then show ?case by simp
next
  case (Cons b bs)
  then obtain s1 where acc: "block_accepts vf now_s D R (word_of_nat i) h0 t0 s0 b s1"
    and rest: "replay_loop vf now_s D R (Suc i) (block_hash (blk_header b))
       (bh_timestamp (blk_header b)) s1 bs = Inr s"
    unfolding replay_loop_Cons_iff by blast
  have "replay_loop vf now_s D R i h0 t0 s0 (b # xs) =
      replay_loop vf now_s D R (Suc i) (block_hash (blk_header b)) (bh_timestamp (blk_header b)) s1 xs" for xs
    using acc by (simp add: replay_loop.simps(2) block_accepts_def bar_ok_def not_less Let_def)
  with Cons.IH [OF rest] show ?case by simp
qed

lemma replay_extended:
  assumes "ch_blocks c = genesisBlock # bs" "replays vf now_s D R bs (ch_state c)"
  shows "replay_loop vf now_s D R 1 (block_hash (blk_header genesisBlock)) GENESIS_TIMESTAMP
      (applyGenesis []) (bs @ cs) =
    replay_loop vf now_s D R (length (ch_blocks c)) (tipHash c)
      (bh_timestamp (blk_header (last (ch_blocks c)))) (ch_state c) cs"
  using replay_loop_append [OF assms(2) [unfolded replays_def], of cs]
  by (simp add: assms(1) tipHash_def)

lemma replayFromGenesis_genesis:
  "replayFromGenesis vf (genesisBlock # bs) now_s D R =
   (case replay_loop vf now_s D R 1 (block_hash (blk_header genesisBlock)) GENESIS_TIMESTAMP
           (applyGenesis []) bs of
      Inl v \<Rightarrow> v
    | Inr s \<Rightarrow> if balance_sum s \<noteq> GENESIS_SUPPLY + word_of_nat (length bs) * R
        then vr_fail (word_of_nat (length bs)) BAD_SUPPLY ''supply mismatch'' else vr_pass)"
  by (simp add: replayFromGenesis_def computeTxnsHash_def Let_def split: sum.split)

text \<open>One block: the loop body and \<^verbatim>\<open>connectBlock\<close> fail with the same reason.\<close>

lemma replay_one_block:
  "connectBlock vf c b now_s = (r, c') \<Longrightarrow>
   (case replay_loop vf now_s (ch_difficulty c) (ch_reward c) (length (ch_blocks c)) (tipHash c)
        (bh_timestamp (blk_header (last (ch_blocks c)))) (ch_state c) [b] of
      Inr s \<Rightarrow> r = OK \<and> s = ch_state c'
    | Inl v \<Rightarrow> r \<noteq> OK \<and> \<not> vr_ok v \<and> vr_failIndex v = height c + 1 \<and> vr_reason v = r)"
  by (cases "applyBlockTxns vf (ch_state c) b (ch_reward c)")
    (auto simp: connectBlock_def replay_loop.simps(2) Let_def vr_fail_def not_less not_le next_index
      split: if_splits)

definition supply_matches :: "chain \<Rightarrow> bool" where
  "supply_matches c \<longleftrightarrow> balance_sum (ch_state c) = GENESIS_SUPPLY + height c * ch_reward c"

lemma height_append: "ch_blocks c = b # bs \<Longrightarrow> height c = word_of_nat (length bs)"
  by (simp add: height_def)

lemma validate_reached:
  assumes "chain_reach vf D R t c" "t \<le> now_s" "clock_ok now_s"
  shows "validateChain vf c now_s = (if supply_matches c then OK else BAD_SUPPLY)"
proof -
  obtain bs where "ch_blocks c = genesisBlock # bs" "replays vf now_s D R bs (ch_state c)"
    using chain_reach_replays [OF assms] by blast
  then show ?thesis
    using chain_reach_params [OF assms(1)]
    by (simp add: validateChain_def replayFromGenesis_genesis replays_def supply_matches_def height_def
        vr_pass_def vr_fail_def)
qed

text \<open>
  C1. The incremental path and the ground truth agree.  On a reachable chain, \<^verbatim>\<open>connectBlock\<close>
  rejects a block with a reason exactly when \<^verbatim>\<open>replayFromGenesis\<close> over the extended block list
  fails at that block's index with that reason; when it accepts, the replay passes, up to the
  closing comparison of the supply.
\<close>

theorem connect_agrees_with_replay:
  assumes reach: "chain_reach vf D R t c" and now: "t \<le> now_s" "clock_ok now_s"
    and step: "connectBlock vf c b now_s = (r, c')"
  shows "let v = replayFromGenesis vf (ch_blocks c @ [b]) now_s D R
         in if r = OK
            then v = (if supply_matches c' then vr_pass
                      else vr_fail (height c') BAD_SUPPLY ''supply mismatch'')
            else \<not> vr_ok v \<and> vr_failIndex v = height c + 1 \<and> vr_reason v = r"
proof -
  obtain bs where bs: "ch_blocks c = genesisBlock # bs" "replays vf now_s D R bs (ch_state c)"
    using chain_reach_replays [OF reach now] by blast
  note par = chain_reach_params [OF reach]
  note one = replay_one_block [OF step]
  have ext: "replayFromGenesis vf (ch_blocks c @ [b]) now_s D R =
    (case replay_loop vf now_s D R (length (ch_blocks c)) (tipHash c)
        (bh_timestamp (blk_header (last (ch_blocks c)))) (ch_state c) [b] of
      Inl v \<Rightarrow> v
    | Inr s \<Rightarrow> if balance_sum s \<noteq> GENESIS_SUPPLY + word_of_nat (length (bs @ [b])) * R
        then vr_fail (word_of_nat (length (bs @ [b]))) BAD_SUPPLY ''supply mismatch'' else vr_pass)"
    using replay_extended [OF bs, of "[b]"]
    by (simp only: bs(1) append_Cons replayFromGenesis_genesis)
  show ?thesis
  proof (cases "r = OK")
    case True
    with step obtain w where c': "c' = appended c b w" by (auto simp: connectBlock_OK_iff)
    have "height c' = word_of_nat (length (bs @ [b]))" by (simp add: c' bs(1) height_def)
    with one show ?thesis
      unfolding ext using par True c'
      by (auto simp: supply_matches_def Let_def split: sum.splits)
  next
    case False
    with one show ?thesis unfolding ext using par by (auto simp: Let_def split: sum.splits)
  qed
qed

text \<open>A first block over genesis; the witnesses of this theory use it.\<close>

definition empty_block :: block where
  "empty_block = \<lparr>blk_header = \<lparr>bh_index = 1, bh_timestamp = 1704067201,
     bh_prevHash = block_hash (blk_header genesisBlock), bh_txnsHash = txns_hash [], bh_nonce = 0\<rparr>,
     blk_txns = []\<rparr>"

lemma empty_block_connects:
  "connectBlock any_sig (new_chain 0 0) empty_block 1704067201 =
   (OK, appended (new_chain 0 0) empty_block (applyGenesis []))"
  by (simp add: connectBlock_OK_iff tip_accepts_def block_accepts_def empty_block_def tipHash_def
      GENESIS_TIMESTAMP_def MAX_CLOCK_SKEW_S_def computeTxnsHash_def meets_difficulty_0
      applyBlockTxns_def bar_ok_def)

theorem connect_agrees_with_replay_witness:
  "replayFromGenesis any_sig [genesisBlock, empty_block] 1704067201 0 0 = vr_pass"
proof -
  have "supply_matches (appended (new_chain 0 0) empty_block (applyGenesis []))"
    by (simp add: supply_matches_def balance_sum_of_supply GENESIS_SUPPLY_def)
  moreover have "chain_reach any_sig 0 0 1704067201 (new_chain 0 0)" by (rule reach_new)
  moreover have "clock_ok 1704067201" by (simp add: clock_ok_def MAX_CLOCK_SKEW_S_def)
  ultimately show ?thesis
    using connect_agrees_with_replay [OF _ order.refl _ empty_block_connects] by (simp add: Let_def)
qed

section \<open>What a chain has accepted\<close>

lemma replays_accepts:
  "replays vf now_s D R bs s \<Longrightarrow> k < length bs \<Longrightarrow>
   \<exists>s0 s1. block_accepts vf now_s D R (word_of_nat (Suc k))
     (block_hash (blk_header ((genesisBlock # bs) ! k)))
     (bh_timestamp (blk_header ((genesisBlock # bs) ! k))) s0 (bs ! k) s1"
proof (induction bs arbitrary: s rule: rev_induct)
  case Nil
  then show ?case by simp
next
  case (snoc b bs)
  then obtain s0 where s0: "replays vf now_s D R bs s0"
    "block_accepts vf now_s D R (word_of_nat (length (genesisBlock # bs)))
       (block_hash (blk_header (last (genesisBlock # bs))))
       (bh_timestamp (blk_header (last (genesisBlock # bs)))) s0 b s"
    unfolding replays_snoc_iff by blast
  show ?case
  proof (cases "k < length bs")
    case True
    with snoc.IH [OF s0(1)] show ?thesis by (simp add: nth_append nth_Cons split: nat.splits)
  next
    case False
    with snoc.prems have k: "k = length bs" by simp
    have "last (genesisBlock # bs) = (genesisBlock # bs @ [b]) ! k"
      by (simp add: k last_conv_nth nth_Cons nth_append split: nat.splits)
    with s0(2) show ?thesis by (auto simp: k simp del: last.simps)
  qed
qed

definition linked_at :: "u32 \<Rightarrow> u64 \<Rightarrow> block list \<Rightarrow> nat \<Rightarrow> bool" where
  "linked_at D now_s bs k \<longleftrightarrow>
     (let h = blk_header (bs ! Suc k); p = blk_header (bs ! k)
      in bh_index h = word_of_nat (Suc k) \<and> bh_prevHash h = block_hash p \<and>
         bh_timestamp p < bh_timestamp h \<and> bh_timestamp h \<le> now_s + MAX_CLOCK_SKEW_S \<and>
         leading_zero_bits (block_hash h) \<ge> unat D \<and>
         bh_txnsHash h = txns_hash (blk_txns (bs ! Suc k)) \<and>
         length (blk_txns (bs ! Suc k)) \<le> MAX_TXNS_PER_BLOCK)"

text \<open>
  C2. Every reachable chain starts at genesis and each later block has its position as index, the
  recomputed hash of its predecessor as link, a strictly later timestamp within the skew bound, a
  hash with at least \<open>D\<close> leading zero bits, the commitment of its own transactions and at most
  eight of them.
\<close>

theorem reachable_chain_linked:
  assumes reach: "chain_reach vf D R t c" and now: "t \<le> now_s" "clock_ok now_s"
  shows "ch_blocks c ! 0 = genesisBlock \<and>
    (\<forall>k. Suc k < length (ch_blocks c) \<longrightarrow> linked_at D now_s (ch_blocks c) k)"
proof -
  obtain bs where bs: "ch_blocks c = genesisBlock # bs" "replays vf now_s D R bs (ch_state c)"
    using chain_reach_replays [OF reach now] by blast
  have "linked_at D now_s (genesisBlock # bs) k" if k: "k < length bs" for k
    using replays_accepts [OF bs(2) k]
    by (auto simp: linked_at_def block_accepts_def Let_def computeTxnsHash_def meets_difficulty_iff_lz)
  with bs(1) show ?thesis by simp
qed

lemma empty_block_widths: "block_widths empty_block"
  by (simp add: block_widths_def header_widths_def empty_block_def)

lemma empty_block_reached:
  "chain_reach any_sig 0 0 1704067201 (appended (new_chain 0 0) empty_block (applyGenesis []))"
  using chain_reach.reach_connect [OF reach_new [of any_sig 0 0 1704067201] order.refl _ empty_block_widths]
  by (simp add: empty_block_connects clock_ok_def MAX_CLOCK_SKEW_S_def)

theorem reachable_chain_linked_witness: "linked_at 0 1704067201 [genesisBlock, empty_block] 0"
proof -
  have "clock_ok 1704067201" by (simp add: clock_ok_def MAX_CLOCK_SKEW_S_def)
  from reachable_chain_linked [OF empty_block_reached order.refl this]
  show ?thesis by simp
qed

text \<open>
  A rejected block leaves the chain as it was; an accepted one is appended, with the work of
  one block added and one undo record pushed, and the earlier blocks kept.
\<close>

theorem connectBlock_atomic:
  "case connectBlock vf c b now_s of
     (OK, c') \<Rightarrow> ch_blocks c' = ch_blocks c @ [b] \<and> height c' = height c + 1 \<and>
       tipHash c' = block_hash (blk_header b) \<and> ch_cumWork c' = ch_cumWork c + block_work (ch_difficulty c) \<and>
       length (ch_undoLog c') = Suc (length (ch_undoLog c)) \<and>
       ch_difficulty c' = ch_difficulty c \<and> ch_reward c' = ch_reward c \<and>
       applyBlockTxns vf (ch_state c) b (ch_reward c) = (bar_ok, ch_state c')
   | (_, c') \<Rightarrow> c' = c"
proof (cases rule: connectBlock_cases [of vf c b now_s])
  case (committed w)
  then show ?thesis
    by (simp add: height_def tipHash_def tip_accepts_def block_accepts_def)
next
  case (rejected r)
  then show ?thesis by (simp split: reason.split)
qed

end
