(* ===== verification/Supply.thy ===== *)
theory Supply
  imports Agreement
begin

text \<open>
  The money supply of a chain: what each accepted block adds, the closed form the replay compares
  with at its end, and the two cases in which the incremental path accepts a block that breaks it.
\<close>

section \<open>One block\<close>

definition block_minted :: "block \<Rightarrow> nat" where
  "block_minted b = sum_list (map minted (blk_txns b))"

definition self_transfer :: "txn \<Rightarrow> bool" where
  "self_transfer t \<longleftrightarrow> tx_from t \<noteq> kNullAddr \<and> tx_from t = tx_to t"

lemma block_accepts_loop:
  assumes "block_accepts vf now_s D R i h pt s b s'"
  obtains n where "block_loop vf i s 0 0 (blk_txns b) = Inr (n, s')" "R > 0 \<longrightarrow> 0 < n"
  using assms applyBlockTxns_OK_iff [of vf s b R bar_ok s']
  by (auto simp: block_accepts_def bar_ok_def)

lemma block_accepts_wf:
  "block_accepts vf now_s D R i h pt s b s' \<Longrightarrow> wf_ledger s \<Longrightarrow> wf_ledger s'"
  by (metis block_accepts_loop block_loop_wf)

lemma block_accepts_total:
  "block_accepts vf now_s D R i h pt s b s' \<Longrightarrow> wf_ledger s \<Longrightarrow>
   total_supply s + block_minted b < 2 ^ 64 \<Longrightarrow> total_supply s' = total_supply s + block_minted b"
  unfolding block_minted_def by (metis block_accepts_loop block_loop_total)

text \<open>What a list of transactions mints: fifty for each coinbase, and the amounts of the self transfers.\<close>

definition self_amounts :: "txn list \<Rightarrow> nat" where
  "self_amounts ts = sum_list (map (\<lambda>t. unat (tx_amount t)) (filter self_transfer ts))"

lemma sum_minted: "sum_list (map minted ts) = 50 * length (filter is_coinbase ts) + self_amounts ts"
  by (induction ts) (auto simp: minted_def is_coinbase_def self_transfer_def self_amounts_def)

lemma one_coinbase:
  assumes "block_loop vf i s 0 0 ts = Inr (n, s')" "0 < n"
  shows "length (filter is_coinbase ts) = 1"
proof (cases ts)
  case Nil
  with assms show ?thesis by simp
next
  case (Cons t ts')
  obtain w1 where step:
    "block_loop vf i w1 (if is_coinbase t then Suc 0 else 0) (Suc 0) ts' = Inr (n, s')"
    using block_loop_Cons [OF assms(1) [unfolded Cons]] by metis
  have "filter is_coinbase ts' = []" using block_loop_coinbases [OF step] by simp
  moreover have "n = length (filter is_coinbase ts)" using block_loop_coinbases [OF assms(1)] by simp
  ultimately show ?thesis using assms(2) Cons by (cases "is_coinbase t") simp_all
qed

lemma at_most_one_coinbase:
  "block_loop vf i s 0 0 ts = Inr (n, s') \<Longrightarrow> length (filter is_coinbase ts) \<le> 1"
  using one_coinbase [of vf i s ts n s'] block_loop_coinbases [of vf i s 0 0 ts n s'] by (cases n) auto

lemma block_accepts_reward:
  assumes acc: "block_accepts vf now_s D R i h pt s b s'" and R: "R > 0"
    and noself: "\<forall>t \<in> set (blk_txns b). \<not> self_transfer t"
  shows "block_minted b = 50"
proof -
  obtain n where n: "block_loop vf i s 0 0 (blk_txns b) = Inr (n, s')" "0 < n"
    using block_accepts_loop [OF acc] R by metis
  have "self_amounts (blk_txns b) = 0" using noself by (simp add: self_amounts_def filter_empty_conv)
  with one_coinbase [OF n] show ?thesis by (simp add: block_minted_def sum_minted)
qed

section \<open>Along a chain\<close>

definition chain_minted :: "block list \<Rightarrow> nat" where
  "chain_minted bs = sum_list (map block_minted bs)"

definition chain_txns :: "block list \<Rightarrow> txn list" where
  "chain_txns bs = concat (map blk_txns bs)"

lemma chain_minted_eq:
  "chain_minted bs = 50 * length (filter is_coinbase (chain_txns bs)) + self_amounts (chain_txns bs)"
  by (induction bs) (simp_all add: chain_minted_def block_minted_def chain_txns_def sum_minted self_amounts_def)

lemma replays_wf: "replays vf now_s D R bs s \<Longrightarrow> wf_ledger s"
proof (induction bs arbitrary: s rule: rev_induct)
  case Nil
  then show ?case by (auto simp: replays_def)
next
  case (snoc b bs)
  then show ?case unfolding replays_snoc_iff by (blast intro: block_accepts_wf)
qed

lemma replays_total:
  "replays vf now_s D R bs s \<Longrightarrow> 5000 + chain_minted bs < 2 ^ 64 \<Longrightarrow>
   total_supply s = 5000 + chain_minted bs"
proof (induction bs arbitrary: s rule: rev_induct)
  case Nil
  then show ?case by (auto simp: replays_def chain_minted_def)
next
  case (snoc b bs)
  obtain s0 where s0: "replays vf now_s D R bs s0"
    "block_accepts vf now_s D R (word_of_nat (length (genesisBlock # bs)))
       (block_hash (blk_header (last (genesisBlock # bs))))
       (bh_timestamp (blk_header (last (genesisBlock # bs)))) s0 b s"
    using snoc.prems(1) unfolding replays_snoc_iff by blast
  have small: "5000 + chain_minted bs + block_minted b < 2 ^ 64"
    using snoc.prems(2) by (simp add: chain_minted_def)
  then have "total_supply s0 = 5000 + chain_minted bs" using snoc.IH [OF s0(1)] by linarith
  with block_accepts_total [OF s0(2) replays_wf [OF s0(1)]] small show ?case
    by (simp add: chain_minted_def)
qed

lemma replays_minted:
  "replays vf now_s D R bs s \<Longrightarrow> R > 0 \<Longrightarrow>
   \<forall>b \<in> set bs. \<forall>t \<in> set (blk_txns b). \<not> self_transfer t \<Longrightarrow> chain_minted bs = 50 * length bs"
proof (induction bs arbitrary: s rule: rev_induct)
  case Nil
  then show ?case by (simp add: chain_minted_def)
next
  case (snoc b bs)
  obtain s0 h pt i where "replays vf now_s D R bs s0" "block_accepts vf now_s D R i h pt s0 b s"
    using snoc.prems(1) unfolding replays_snoc_iff by blast
  with snoc block_accepts_reward [of vf now_s D R i h pt s0 b s] show ?case
    by (simp add: chain_minted_def)
qed

lemma block_loop_coinbase_amount:
  "block_loop vf idx work cb ti ts = Inr (n, w) \<Longrightarrow> t \<in> set ts \<Longrightarrow> is_coinbase t \<Longrightarrow> tx_amount t = COINBASE_REWARD"
proof (induction ts arbitrary: work cb ti)
  case Nil
  then show ?case by simp
next
  case (Cons t' ts)
  obtain w1 where step: "applyTxn vf work t' idx ti = (OK, w1)"
    "block_loop vf idx w1 (if is_coinbase t' then Suc cb else cb) (Suc ti) ts = Inr (n, w)"
    using block_loop_Cons [OF Cons.prems(1)] by metis
  show ?case
  proof (cases "t = t'")
    case True
    with step(1) Cons.prems(3) show ?thesis
      by (simp add: is_coinbase_def applyTxn_coinbase_OK_iff coinbase_ok_def)
  next
    case False
    with Cons.IH [OF step(2)] Cons.prems show ?thesis by simp
  qed
qed

lemma replays_coinbases:
  "replays vf now_s D R bs s \<Longrightarrow> t \<in> set (chain_txns bs) \<Longrightarrow> is_coinbase t \<Longrightarrow> tx_amount t = 50"
proof (induction bs arbitrary: s rule: rev_induct)
  case Nil
  then show ?case by (simp add: chain_txns_def)
next
  case (snoc b bs)
  obtain s0 h pt i where "replays vf now_s D R bs s0" and acc: "block_accepts vf now_s D R i h pt s0 b s"
    using snoc.prems(1) unfolding replays_snoc_iff by blast
  obtain n where n: "block_loop vf i s0 0 0 (blk_txns b) = Inr (n, s)" using block_accepts_loop [OF acc] by metis
  show ?case
    using snoc.IH [OF \<open>replays vf now_s D R bs s0\<close> _ snoc.prems(3)] snoc.prems(2)
      block_loop_coinbase_amount [OF n _ snoc.prems(3)]
    by (auto simp: chain_txns_def COINBASE_REWARD_def)
qed

lemma replays_coinbase_count:
  "replays vf now_s D R bs s \<Longrightarrow> length (filter is_coinbase (chain_txns bs)) \<le> length bs"
proof (induction bs arbitrary: s rule: rev_induct)
  case Nil
  then show ?case by (simp add: chain_txns_def)
next
  case (snoc b bs)
  obtain s0 h pt i where "replays vf now_s D R bs s0" and acc: "block_accepts vf now_s D R i h pt s0 b s"
    using snoc.prems(1) unfolding replays_snoc_iff by blast
  obtain n where n: "block_loop vf i s0 0 0 (blk_txns b) = Inr (n, s)" using block_accepts_loop [OF acc] by metis
  show ?case
    using snoc.IH [OF \<open>replays vf now_s D R bs s0\<close>] at_most_one_coinbase [OF n] by (simp add: chain_txns_def)
qed

text \<open>
  C3. The supply of a reachable chain is the genesis supply, fifty per coinbase in its blocks and the
  amount of each transfer of an account to itself; no other transfer changes it, and no coinbase of
  another amount gets in.
\<close>

theorem supply_accounting:
  assumes reach: "chain_reach vf D R t c" and now: "t \<le> now_s" "clock_ok now_s"
    and txns: "ts = chain_txns (tl (ch_blocks c))"
    and small: "5000 + 50 * length (filter is_coinbase ts) + self_amounts ts < 2 ^ 64"
  shows "wf_ledger (ch_state c) \<and>
    total_supply (ch_state c) = 5000 + 50 * length (filter is_coinbase ts) + self_amounts ts \<and>
    (\<forall>x \<in> set ts. is_coinbase x \<longrightarrow> tx_amount x = 50)"
proof -
  obtain bs where bs: "ch_blocks c = genesisBlock # bs" "replays vf now_s D R bs (ch_state c)"
    using chain_reach_replays [OF reach now] by blast
  with replays_wf [OF bs(2)] replays_total [OF bs(2)] replays_coinbases [OF bs(2)] small txns show ?thesis
    by (simp add: chain_minted_eq)
qed

lemma replays_mined_total:
  assumes "replays vf now_s D COINBASE_REWARD bs s" "5000 + 50 * length bs < 2 ^ 64"
    and "\<forall>b \<in> set bs. \<forall>t \<in> set (blk_txns b). \<not> self_transfer t"
  shows "total_supply s = 5000 + 50 * length bs"
proof -
  have "chain_minted bs = 50 * length bs"
    using replays_minted [OF assms(1) _ assms(3)] by (simp add: COINBASE_REWARD_def)
  with replays_total [OF assms(1)] assms(2) show ?thesis by simp
qed

lemma issuance_holds:
  assumes reach: "chain_reach vf D COINBASE_REWARD t c" and now: "t \<le> now_s" "clock_ok now_s"
    and noself: "\<forall>b \<in> set (ch_blocks c). \<forall>x \<in> set (blk_txns b). \<not> self_transfer x"
    and small: "5000 + 50 * length (ch_blocks c) < 2 ^ 64"
  shows "total_supply (ch_state c) = 5000 + 50 * unat (height c) \<and> validateChain vf c now_s = OK"
proof -
  let ?R = COINBASE_REWARD
  obtain bs where bs: "ch_blocks c = genesisBlock # bs" "replays vf now_s D ?R bs (ch_state c)"
    using chain_reach_replays [OF reach now] by blast
  have par: "ch_difficulty c = D" "ch_reward c = ?R" using chain_reach_params [OF reach] by simp_all
  have h: "height c = word_of_nat (length bs)" using bs(1) by (rule height_append)
  have total: "total_supply (ch_state c) = 5000 + 50 * length bs"
    using replays_mined_total [OF bs(2)] small bs(1) noself by simp
  have "unat (height c) = length bs" unfolding h using small bs(1) by (simp add: unat_of_nat)
  moreover have "balance_sum (ch_state c) = GENESIS_SUPPLY + word_of_nat (length bs) * ?R"
    by (simp add: balance_sum_of_supply total GENESIS_SUPPLY_def COINBASE_REWARD_def)
  ultimately show ?thesis
    using bs(2) by (simp add: total validateChain_def par bs(1) replayFromGenesis_genesis replays_def vr_pass_def)
qed

text \<open>
  C4. With the fixed reward on and no transfer of an account to itself, the supply of a chain of
  height \<open>h\<close> is \<open>5000 + 50 h\<close>, and \<^verbatim>\<open>validateChain\<close> passes.
\<close>

theorem issuance_closed_form:
  assumes reach: "chain_reach vf D COINBASE_REWARD t c" and now: "t \<le> now_s" "clock_ok now_s"
    and noself: "\<forall>b \<in> set (ch_blocks c). \<forall>x \<in> set (blk_txns b). \<not> self_transfer x"
    and small: "5000 + 50 * length (ch_blocks c) < 2 ^ 64"
  shows "total_supply (ch_state c) = 5000 + 50 * unat (height c) \<and> validateChain vf c now_s = OK"
  using issuance_holds [OF assms] .

text \<open>A first block with a coinbase.\<close>

definition coinbase_block :: "address \<Rightarrow> block" where
  "coinbase_block a = \<lparr>blk_header = \<lparr>bh_index = 1, bh_timestamp = 1704067201,
     bh_prevHash = block_hash (blk_header genesisBlock),
     bh_txnsHash = txns_hash [coinbaseTxn a 1], bh_nonce = 0\<rparr>,
     blk_txns = [coinbaseTxn a 1]\<rparr>"

lemma coinbase_block_connects:
  "connectBlock vf (new_chain 0 R) (coinbase_block a) 1704067201 =
   (OK, appended (new_chain 0 R) (coinbase_block a) (credit (applyGenesis []) a 50))"
  by (simp add: connectBlock_OK_iff tip_accepts_def block_accepts_def coinbase_block_def tipHash_def
      GENESIS_TIMESTAMP_def MAX_CLOCK_SKEW_S_def computeTxnsHash_def meets_difficulty_0
      MAX_TXNS_PER_BLOCK_def applyBlockTxns_def bar_ok_def coinbaseTxn_def COINBASE_REWARD_def)

lemma coinbase_block_widths: "length a = 20 \<Longrightarrow> block_widths (coinbase_block a)"
  by (simp add: block_widths_def header_widths_def coinbase_block_def txn_widths_def coinbaseTxn_def
      kNullAddr_def kNullPub_def kNullSig_def)

lemma coinbase_block_reached:
  "length a = 20 \<Longrightarrow> chain_reach vf 0 R 1704067201
     (appended (new_chain 0 R) (coinbase_block a) (credit (applyGenesis []) a 50))"
  using chain_reach.reach_connect [OF reach_new [of vf 0 R 1704067201] order.refl _ coinbase_block_widths, of a]
  by (simp add: coinbase_block_connects clock_ok_def MAX_CLOCK_SKEW_S_def)

theorem issuance_closed_form_witness:
  "validateChain any_sig (appended (new_chain 0 COINBASE_REWARD) (coinbase_block kNullAddr)
     (credit (applyGenesis []) kNullAddr 50)) 1704067201 = OK"
proof -
  have "clock_ok 1704067201" by (simp add: clock_ok_def MAX_CLOCK_SKEW_S_def)
  moreover have "length kNullAddr = 20" by (simp add: kNullAddr_def)
  moreover have "\<forall>b \<in> set [genesisBlock, coinbase_block kNullAddr]. \<forall>x \<in> set (blk_txns b). \<not> self_transfer x"
    by (simp add: coinbase_block_def self_transfer_def coinbaseTxn_def)
  ultimately show ?thesis
    using issuance_closed_form [OF coinbase_block_reached order.refl, of kNullAddr any_sig] by simp
qed

text \<open>
  A chain configured for no reward still accepts a coinbase of fifty, and the replay then
  rejects the very chain that \<^verbatim>\<open>connectBlock\<close> built.
\<close>

theorem unexpected_coinbase_accepted:
  assumes len: "length a = 20"
  shows "fst (connectBlock vf (new_chain 0 0) (coinbase_block a) 1704067201) = OK \<and>
   validateChain vf (snd (connectBlock vf (new_chain 0 0) (coinbase_block a) 1704067201)) 1704067201
     = BAD_SUPPLY"
proof -
  let ?b = "coinbase_block a"
  let ?s = "credit (applyGenesis []) a 50"
  let ?c = "appended (new_chain 0 0) ?b ?s"
  have step: "connectBlock vf (new_chain 0 0) ?b 1704067201 = (OK, ?c)" by (rule coinbase_block_connects)
  have "total_supply ?s = 5050" using total_credit [OF wf_genesis, of "[]" 50 a] by simp
  then have "\<not> supply_matches ?c"
    by (simp add: supply_matches_def balance_sum_of_supply GENESIS_SUPPLY_def)
  moreover have "clock_ok 1704067201" by (simp add: clock_ok_def MAX_CLOCK_SKEW_S_def)
  ultimately show ?thesis
    using validate_reached [OF coinbase_block_reached order.refl, of a vf 0] len by (simp add: step)
qed

theorem unexpected_coinbase_accepted_witness:
  "validateChain any_sig (snd (connectBlock any_sig (new_chain 0 0) (coinbase_block sample_addr) 1704067201))
     1704067201 = BAD_SUPPLY"
  using unexpected_coinbase_accepted [of sample_addr any_sig] by simp

section \<open>A transfer of an account to itself\<close>

text \<open>
  C5. A transfer whose sender is its receiver is credited from the balance read before the debit:
  the balance grows by the amount, the nonce does not advance, and the same transaction passes the
  gate again.
\<close>

theorem self_transfer_mints:
  assumes ok: "transfer_ok vf w t" and self: "self_transfer t"
    and small: "unat (acc_balance (acct w (tx_from t))) + unat (tx_amount t) < 2 ^ 64"
  shows "\<exists>w'. applyTxn vf w t idx ti = (OK, w') \<and>
    acc_balance (acct w' (tx_from t)) = acc_balance (acct w (tx_from t)) + tx_amount t \<and>
    acc_nonce (acct w' (tx_from t)) = acc_nonce (acct w (tx_from t)) \<and>
    (\<forall>a. a \<noteq> tx_from t \<longrightarrow> acct w' a = acct w a) \<and> transfer_ok vf w' t"
proof -
  have st: "tx_from t \<noteq> kNullAddr" "tx_to t = tx_from t" using self by (auto simp: self_transfer_def)
  have "applyTxn vf w t idx ti = (OK, moved w t)" using ok st by (simp add: applyTxn_transfer_OK_iff)
  moreover have "tx_amount t \<le> acc_balance (acct w (tx_from t)) + tx_amount t"
    using small by (simp add: word_le_nat_alt unat_add_lem [THEN iffD1])
  ultimately show ?thesis using ok st(2) by (simp add: moved_def ledger_simps transfer_ok_def)
qed

theorem self_transfer_mints_witness:
  "\<exists>w'. applyTxn any_sig [(sample_addr, \<lparr>acc_balance = 10, acc_nonce = 3\<rparr>)] (sample_transfer sample_addr 10 3) 1 1
     = (OK, w') \<and> acct w' sample_addr = \<lparr>acc_balance = 20, acc_nonce = 3\<rparr>"
proof -
  let ?w = "[(sample_addr, \<lparr>acc_balance = 10, acc_nonce = 3\<rparr>)]"
  let ?t = "sample_transfer sample_addr 10 3"
  have a: "acct ?w sample_addr = \<lparr>acc_balance = 10, acc_nonce = 3\<rparr>" by (simp add: acct_def)
  have "transfer_ok any_sig ?w ?t" by (simp add: sample_transfer_ok a)
  moreover have "self_transfer ?t" by (simp add: self_transfer_def)
  ultimately obtain w' where w': "applyTxn any_sig ?w ?t 1 1 = (OK, w')"
    "acc_balance (acct w' sample_addr) = 20" "acc_nonce (acct w' sample_addr) = 3"
    using self_transfer_mints [of any_sig ?w ?t 1 1] by (auto simp: a)
  from w'(2,3) have "acct w' sample_addr = \<lparr>acc_balance = 20, acc_nonce = 3\<rparr>"
    by (cases "acct w' sample_addr") simp
  with w'(1) show ?thesis by blast
qed

text \<open>The block that carries such a transfer, over a first block that funds the account.\<close>

definition self_block :: block where
  "self_block =
     (let txns = [coinbaseTxn sample_addr 2, sample_transfer sample_addr 30 0]
      in \<lparr>blk_header = \<lparr>bh_index = 2, bh_timestamp = 1704067202,
             bh_prevHash = block_hash (blk_header (coinbase_block sample_addr)),
             bh_txnsHash = txns_hash txns, bh_nonce = 0\<rparr>,
           blk_txns = txns\<rparr>)"

definition funded_chain :: chain where
  "funded_chain = appended (new_chain 0 COINBASE_REWARD) (coinbase_block sample_addr)
     (credit (applyGenesis []) sample_addr 50)"

lemma funded_chain_sel [simp]:
  "ch_blocks funded_chain = [genesisBlock, coinbase_block sample_addr]"
  "ch_state funded_chain = credit (applyGenesis []) sample_addr 50"
  "ch_difficulty funded_chain = 0" "ch_reward funded_chain = COINBASE_REWARD"
  by (simp_all add: funded_chain_def)

lemma funded_chain_reached: "chain_reach vf 0 COINBASE_REWARD 1704067201 funded_chain"
  unfolding funded_chain_def by (rule coinbase_block_reached) simp

lemma self_block_connects:
  "\<exists>w. connectBlock any_sig funded_chain self_block 1704067202 = (OK, appended funded_chain self_block w) \<and>
     total_supply w = 5130"
proof -
  let ?w1 = "credit (applyGenesis []) sample_addr 50"
  let ?w2 = "credit ?w1 sample_addr 50"
  let ?t = "sample_transfer sample_addr 30 0"
  have bal: "acct ?w2 sample_addr = \<lparr>acc_balance = 100, acc_nonce = 0\<rparr>"
    by (simp add: credit_def ledger_simps sample_not_genesis no_account_def)
  have wf: "wf_ledger ?w2" and tot: "total_supply ?w2 = 5100"
    using total_credit [OF wf_genesis, of "[]" 50 sample_addr]
      total_credit [of ?w1 50 sample_addr] by (simp_all add: ledger_simps)
  have tok: "transfer_ok any_sig ?w2 ?t" by (simp add: sample_transfer_ok bal)
  have "total_supply (moved ?w2 ?t) = 5130"
    using total_moved [OF wf tok] by (simp add: tot minted_def)
  moreover have "applyTxn any_sig ?w2 ?t 2 1 = (OK, moved ?w2 ?t)"
    using tok by (simp add: applyTxn_transfer_OK_iff)
  then have "connectBlock any_sig funded_chain self_block 1704067202 =
      (OK, appended funded_chain self_block (moved ?w2 ?t))"
    by (simp add: connectBlock_OK_iff tip_accepts_def block_accepts_def self_block_def tipHash_def computeTxnsHash_def meets_difficulty_0 MAX_TXNS_PER_BLOCK_def MAX_CLOCK_SKEW_S_def
        applyBlockTxns_def bar_ok_def coinbase_block_def coinbaseTxn_def COINBASE_REWARD_def Let_def)
  ultimately show ?thesis by blast
qed

lemma self_block_widths: "block_widths self_block"
  using sample_transfer_widths [of sample_addr]
  by (simp add: block_widths_def header_widths_def self_block_def txn_widths_def
      coinbaseTxn_def kNullAddr_def kNullPub_def kNullSig_def Let_def)

text \<open>Two coinbases and one transfer of thirty to its own account.\<close>

theorem supply_accounting_witness:
  "\<exists>w. connectBlock any_sig funded_chain self_block 1704067202 = (OK, appended funded_chain self_block w) \<and>
     total_supply w = 5000 + 50 * 2 + 30"
proof -
  let ?ts = "[coinbaseTxn sample_addr 1, coinbaseTxn sample_addr 2, sample_transfer sample_addr 30 0]"
  obtain w where w: "connectBlock any_sig funded_chain self_block 1704067202 = (OK, appended funded_chain self_block w)"
    using self_block_connects by blast
  have clock: "clock_ok 1704067202" by (simp add: clock_ok_def MAX_CLOCK_SKEW_S_def)
  then have reach: "chain_reach any_sig 0 COINBASE_REWARD 1704067202 (appended funded_chain self_block w)"
    using chain_reach.reach_connect [OF funded_chain_reached [of any_sig], of 1704067202 self_block]
      self_block_widths by (simp add: w)
  have ts: "?ts = chain_txns (tl (ch_blocks (appended funded_chain self_block w)))"
    by (simp add: chain_txns_def coinbase_block_def self_block_def Let_def)
  have parts: "length (filter is_coinbase ?ts) = 2" "self_amounts ?ts = 30"
    by (simp_all add: is_coinbase_def self_amounts_def self_transfer_def coinbaseTxn_def)
  from supply_accounting [OF reach order.refl clock ts] have "total_supply w = 5000 + 50 * 2 + 30"
    unfolding parts by simp
  with w show ?thesis by blast
qed

text \<open>
  C6. So the two validators do disagree: a chain of two blocks that \<^verbatim>\<open>connectBlock\<close> accepted, the
  second with a transfer of an account to itself, is rejected by the replay with \<open>BAD_SUPPLY\<close>.
\<close>

theorem self_transfer_splits_validators:
  "fst (connectBlock any_sig funded_chain self_block 1704067202) = OK \<and>
   validateChain any_sig (snd (connectBlock any_sig funded_chain self_block 1704067202)) 1704067202
     = BAD_SUPPLY"
proof -
  obtain w where w: "connectBlock any_sig funded_chain self_block 1704067202 =
      (OK, appended funded_chain self_block w)" "total_supply w = 5130"
    using self_block_connects by blast
  let ?c = "appended funded_chain self_block w"
  have "\<not> supply_matches ?c"
    by (simp add: supply_matches_def balance_sum_of_supply w(2) GENESIS_SUPPLY_def COINBASE_REWARD_def
        height_def)
  moreover have "clock_ok 1704067202" by (simp add: clock_ok_def MAX_CLOCK_SKEW_S_def)
  moreover have "chain_reach any_sig 0 COINBASE_REWARD 1704067202 ?c"
    using chain_reach.reach_connect [OF funded_chain_reached [of any_sig], of 1704067202 self_block]
      self_block_widths by (simp add: w(1) clock_ok_def MAX_CLOCK_SKEW_S_def)
  ultimately show ?thesis
    using validate_reached [of any_sig 0 COINBASE_REWARD 1704067202 ?c 1704067202] by (simp add: w(1))
qed

end
