(* ===== verification/Nonces.thy ===== *)
theory Nonces
  imports Supply
begin

text \<open>
  Account nonces along a chain: the spends of an account carry the nonces 0, 1, 2, \<dots> in block
  order, so no transfer is in a chain twice, and a spent transaction is stale.  The committed
  state is the one \<^verbatim>\<open>replayState\<close> rebuilds.
\<close>

section \<open>Spends of one account\<close>

definition spends :: "address \<Rightarrow> txn \<Rightarrow> bool" where
  "spends a t \<longleftrightarrow> tx_from t = a \<and> a \<noteq> kNullAddr \<and> tx_to t \<noteq> a"

lemma applyTxn_nonce:
  "applyTxn vf w t idx ti = (OK, w') \<Longrightarrow>
   acc_nonce (acct w' a) = acc_nonce (acct w a) + (if spends a t then 1 else 0) \<and>
   (spends a t \<longrightarrow> tx_nonce t = acc_nonce (acct w a))"
  by (cases "tx_from t = kNullAddr")
    (auto simp: applyTxn_coinbase_OK_iff applyTxn_transfer_OK_iff spends_def credit_def moved_def
      transfer_ok_def ledger_simps)

lemma block_loop_nonces:
  "block_loop vf idx w cb ti ts = Inr (n, w') \<Longrightarrow>
   map tx_nonce (filter (spends a) ts) =
     map (\<lambda>k. acc_nonce (acct w a) + word_of_nat k) [0..<length (filter (spends a) ts)] \<and>
   acc_nonce (acct w' a) = acc_nonce (acct w a) + word_of_nat (length (filter (spends a) ts))"
proof (induction ts arbitrary: w cb ti)
  case Nil
  then show ?case by simp
next
  case (Cons t ts)
  obtain w1 where step: "applyTxn vf w t idx ti = (OK, w1)"
    "block_loop vf idx w1 (if is_coinbase t then Suc cb else cb) (Suc ti) ts = Inr (n, w')"
    using block_loop_Cons [OF Cons.prems] by metis
  note one = applyTxn_nonce [OF step(1), of a] and rest = Cons.IH [OF step(2)]
  show ?case
  proof (cases "spends a t")
    case True
    let ?m = "length (filter (spends a) ts)"
    have "map (\<lambda>k. acc_nonce (acct w a) + word_of_nat k) [0..<Suc ?m] =
        acc_nonce (acct w a) # map (\<lambda>k. acc_nonce (acct w a) + 1 + word_of_nat k) [0..<?m]"
      unfolding upt_conv_Cons [OF zero_less_Suc] map_Suc_upt [symmetric]
      by (simp add: comp_def add.assoc)
    with True one rest show ?thesis by (simp add: add.assoc)
  next
    case False
    with one rest show ?thesis by simp
  qed
qed

lemma block_loop_replay_txns:
  "block_loop vf idx w cb ti ts = Inr (n, w') \<Longrightarrow> replay_txns vf idx ti w ts = w'"
proof (induction ts arbitrary: w cb ti)
  case Nil
  then show ?case by simp
next
  case (Cons t ts)
  obtain w1 where step: "applyTxn vf w t idx ti = (OK, w1)"
    "block_loop vf idx w1 (if is_coinbase t then Suc cb else cb) (Suc ti) ts = Inr (n, w')"
    using block_loop_Cons [OF Cons.prems] by metis
  with Cons.IH [OF step(2)] show ?case by simp
qed

section \<open>Along a chain\<close>

lemma word_of_nat_upt_add:
  "map (word_of_nat :: nat \<Rightarrow> u64) [0..<m + n] =
   map word_of_nat [0..<m] @ map (\<lambda>k. word_of_nat m + word_of_nat k) [0..<n]"
  by (induction n) simp_all

lemma replays_nonces:
  "replays vf now_s D R bs s \<Longrightarrow>
   map tx_nonce (filter (spends a) (chain_txns bs)) =
     map word_of_nat [0..<length (filter (spends a) (chain_txns bs))] \<and>
   acc_nonce (acct s a) = word_of_nat (length (filter (spends a) (chain_txns bs)))"
proof (induction bs arbitrary: s rule: rev_induct)
  case Nil
  then show ?case by (auto simp: replays_def chain_txns_def)
next
  case (snoc b bs)
  obtain s0 i h pt where s0: "replays vf now_s D R bs s0" "block_accepts vf now_s D R i h pt s0 b s"
    using snoc.prems unfolding replays_snoc_iff by blast
  obtain n where "block_loop vf i s0 0 0 (blk_txns b) = Inr (n, s)"
    using block_accepts_loop [OF s0(2)] by metis
  from block_loop_nonces [OF this, of a] snoc.IH [OF s0(1)] show ?case
    by (simp add: chain_txns_def word_of_nat_upt_add)
qed

lemma replays_length:
  "replays vf now_s D R bs s \<Longrightarrow> length (chain_txns bs) \<le> 8 * length bs"
proof (induction bs arbitrary: s rule: rev_induct)
  case Nil
  then show ?case by (simp add: chain_txns_def)
next
  case (snoc b bs)
  obtain s0 i h pt where s0: "replays vf now_s D R bs s0" "block_accepts vf now_s D R i h pt s0 b s"
    using snoc.prems unfolding replays_snoc_iff by blast
  from s0(2) snoc.IH [OF s0(1)] show ?case
    by (simp add: chain_txns_def block_accepts_def MAX_TXNS_PER_BLOCK_def)
qed

lemma replays_state:
  "replays vf now_s D R bs s \<Longrightarrow> replayState vf (genesisBlock # bs) = s"
proof (induction bs arbitrary: s rule: rev_induct)
  case Nil
  then show ?case by (simp add: replays_def replayState_def)
next
  case (snoc b bs)
  obtain s0 i h pt where s0: "replays vf now_s D R bs s0" "block_accepts vf now_s D R i h pt s0 b s"
    using snoc.prems unfolding replays_snoc_iff by blast
  obtain n where n: "block_loop vf i s0 0 0 (blk_txns b) = Inr (n, s)"
    using block_accepts_loop [OF s0(2)] by metis
  have "bh_index (blk_header b) = i" using s0(2) by (simp add: block_accepts_def)
  with snoc.IH [OF s0(1)] block_loop_replay_txns [OF n] show ?case by (simp add: replayState_def)
qed

lemma genesis_no_txns: "chain_txns (genesisBlock # bs) = chain_txns bs"
  by (simp add: chain_txns_def)

text \<open>
  C7. In a reachable chain the transfers out of an account to other accounts carry, in block order,
  the nonces 0, 1, 2, \<dots>, and the account's nonce is their number.
\<close>

theorem nonces_in_order:
  assumes reach: "chain_reach vf D R t c" and now: "t \<le> now_s" "clock_ok now_s"
  shows "map tx_nonce (filter (spends a) (chain_txns (ch_blocks c))) =
      map word_of_nat [0..<length (filter (spends a) (chain_txns (ch_blocks c)))] \<and>
    acc_nonce (account c a) = word_of_nat (length (filter (spends a) (chain_txns (ch_blocks c))))"
proof -
  obtain bs where bs: "ch_blocks c = genesisBlock # bs" "replays vf now_s D R bs (ch_state c)"
    using chain_reach_replays [OF reach now] by blast
  from replays_nonces [OF bs(2), of a] show ?thesis
    by (simp add: bs(1) genesis_no_txns account_def)
qed

text \<open>A second block over the funded chain, with a coinbase and a transfer.\<close>

definition spend_block :: block where
  "spend_block =
     (let txns = [coinbaseTxn sample_addr 2, sample_transfer kNullAddr 30 0]
      in \<lparr>blk_header = \<lparr>bh_index = 2, bh_timestamp = 1704067202,
             bh_prevHash = block_hash (blk_header (coinbase_block sample_addr)),
             bh_txnsHash = txns_hash txns, bh_nonce = 0\<rparr>,
           blk_txns = txns\<rparr>)"

definition spend_ledger :: ledger where
  "spend_ledger = moved (credit (credit (applyGenesis []) sample_addr 50) sample_addr 50)
     (sample_transfer kNullAddr 30 0)"

definition spend_chain :: chain where
  "spend_chain = appended funded_chain spend_block spend_ledger"

lemma spend_block_txns [simp]:
  "blk_txns spend_block = [coinbaseTxn sample_addr 2, sample_transfer kNullAddr 30 0]"
  by (simp add: spend_block_def Let_def)

lemma spend_chain_sel [simp]:
  "ch_blocks spend_chain = [genesisBlock, coinbase_block sample_addr, spend_block]"
  "ch_difficulty spend_chain = 0" "ch_reward spend_chain = COINBASE_REWARD"
  "ch_state spend_chain = spend_ledger"
  by (simp_all add: spend_chain_def)

lemma spend_block_connects:
  "connectBlock any_sig funded_chain spend_block 1704067202 = (OK, spend_chain)"
proof -
  let ?w2 = "credit (credit (applyGenesis []) sample_addr 50) sample_addr 50"
  let ?t = "sample_transfer kNullAddr 30 0"
  have bal: "acct ?w2 sample_addr = \<lparr>acc_balance = 100, acc_nonce = 0\<rparr>"
    by (simp add: credit_def ledger_simps sample_not_genesis no_account_def)
  have "applyTxn any_sig ?w2 ?t 2 1 = (OK, moved ?w2 ?t)"
    by (simp add: applyTxn_transfer_OK_iff sample_transfer_ok bal)
  then show ?thesis
    by (simp add: connectBlock_OK_iff tip_accepts_def block_accepts_def spend_block_def spend_chain_def
        spend_ledger_def tipHash_def computeTxnsHash_def meets_difficulty_0 MAX_TXNS_PER_BLOCK_def
        MAX_CLOCK_SKEW_S_def applyBlockTxns_def bar_ok_def coinbase_block_def coinbaseTxn_def
        COINBASE_REWARD_def Let_def)
qed

lemma spend_block_widths: "block_widths spend_block"
  using sample_transfer_widths [of kNullAddr]
  by (simp add: block_widths_def header_widths_def spend_block_def txn_widths_def coinbaseTxn_def
      kNullAddr_def kNullPub_def kNullSig_def Let_def)

lemma clock_2024 [simp]: "clock_ok 1704067202" "clock_ok 1704067201"
  by (simp_all add: clock_ok_def MAX_CLOCK_SKEW_S_def)

lemma spend_chain_reached: "chain_reach any_sig 0 COINBASE_REWARD 1704067202 spend_chain"
  using chain_reach.reach_connect [OF funded_chain_reached [of any_sig] _ clock_2024(1) spend_block_widths]
  by (simp add: spend_block_connects)

lemma spend_chain_txns: "chain_txns (ch_blocks spend_chain) =
  [coinbaseTxn sample_addr 1, coinbaseTxn sample_addr 2, sample_transfer kNullAddr 30 0]"
  by (simp add: chain_txns_def coinbase_block_def)

lemma spend_chain_spends:
  "filter (spends sample_addr) (chain_txns (ch_blocks spend_chain)) = [sample_transfer kNullAddr 30 0]"
  by (simp only: spend_chain_txns) (simp add: spends_def coinbaseTxn_def)

theorem nonces_in_order_witness: "acc_nonce (account spend_chain sample_addr) = 1"
  using nonces_in_order [OF spend_chain_reached order.refl clock_2024(1), of sample_addr]
  unfolding spend_chain_spends by simp

text \<open>Transfers to another account: neither a coinbase nor a transfer to oneself.\<close>

definition proper_transfer :: "txn \<Rightarrow> bool" where
  "proper_transfer t \<longleftrightarrow> tx_from t \<noteq> kNullAddr \<and> tx_to t \<noteq> tx_from t"

lemma distinct_by_class:
  assumes "\<And>a. distinct (filter (\<lambda>x. P x \<and> f x = a) xs)"
  shows "distinct (filter P xs)"
  using assms
proof (induction xs)
  case Nil
  then show ?case by simp
next
  case (Cons x xs)
  have "distinct (filter (\<lambda>x. P x \<and> f x = a) xs)" for a
    using Cons.prems [of a] by (cases "P x \<and> f x = a") simp_all
  then have "distinct (filter P xs)" by (rule Cons.IH)
  with Cons.prems [of "f x"] show ?case by (auto split: if_splits)
qed

text \<open>
  C8. No transfer to another account is in a reachable chain twice: leaving out coinbases and
  transfers of an account to itself, the transactions of the chain are distinct.
\<close>

theorem no_transfer_twice:
  assumes reach: "chain_reach vf D R t c" and now: "t \<le> now_s" "clock_ok now_s"
    and small: "8 * length (ch_blocks c) < 2 ^ 64"
  shows "distinct (filter proper_transfer (chain_txns (ch_blocks c)))"
proof -
  obtain bs where bs: "ch_blocks c = genesisBlock # bs" "replays vf now_s D R bs (ch_state c)"
    using chain_reach_replays [OF reach now] by blast
  have "distinct (filter (\<lambda>x. proper_transfer x \<and> tx_from x = a) (chain_txns bs))" for a
  proof -
    let ?xs = "filter (\<lambda>x. proper_transfer x \<and> tx_from x = a) (chain_txns bs)"
    have eq: "(\<lambda>x. proper_transfer x \<and> tx_from x = a) = spends a"
      by (auto simp: fun_eq_iff proper_transfer_def spends_def)
    have "length (filter (spends a) (chain_txns bs)) \<le> 8 * length bs"
      using replays_length [OF bs(2)] length_filter_le order_trans by blast
    then have lt: "length (filter (spends a) (chain_txns bs)) < 2 ^ 64" using small bs(1) by simp
    have "inj_on (word_of_nat :: nat \<Rightarrow> u64) {0..<length (filter (spends a) (chain_txns bs))}"
      using lt by (intro inj_onI) (simp add: word_of_nat_eq_iff take_bit_nat_eq_self)
    then have "distinct (map tx_nonce (filter (spends a) (chain_txns bs)))"
      by (simp add: replays_nonces [OF bs(2), THEN conjunct1] distinct_map)
    then show ?thesis unfolding eq by (simp add: distinct_map)
  qed
  from distinct_by_class [OF this] show ?thesis by (simp add: bs(1) genesis_no_txns)
qed

theorem no_transfer_twice_witness: "distinct (filter proper_transfer (chain_txns (ch_blocks spend_chain)))"
  by (rule no_transfer_twice [OF spend_chain_reached order.refl clock_2024(1)]) simp

text \<open>An accepted transfer to another account is stale afterwards, in every later position.\<close>

theorem spent_is_stale:
  assumes "applyTxn vf w t idx ti = (OK, w')" "proper_transfer t"
  shows "applyTxn vf w' t idx' ti' = (STALE_NONCE, w')"
proof -
  have null: "tx_from t \<noteq> kNullAddr" using assms(2) by (simp add: proper_transfer_def)
  have ok: "transfer_ok vf w t" using assms(1) by (simp add: applyTxn_transfer_OK_iff [OF null])
  have "acc_nonce (acct w' (tx_from t)) = acc_nonce (acct w (tx_from t)) + 1"
    using applyTxn_nonce [OF assms(1), of "tx_from t"] assms(2)
    by (simp add: proper_transfer_def spends_def)
  with ok null show ?thesis by (simp add: applyTxn_def transfer_ok_def Let_def)
qed

theorem spent_is_stale_witness:
  "applyTxn any_sig spend_ledger (sample_transfer kNullAddr 30 0) 7 3 = (STALE_NONCE, spend_ledger)"
proof -
  let ?w2 = "credit (credit (applyGenesis []) sample_addr 50) sample_addr 50"
  let ?t = "sample_transfer kNullAddr 30 0"
  have "acct ?w2 sample_addr = \<lparr>acc_balance = 100, acc_nonce = 0\<rparr>"
    by (simp add: credit_def ledger_simps sample_not_genesis no_account_def)
  then have "applyTxn any_sig ?w2 ?t 2 1 = (OK, spend_ledger)"
    by (simp add: applyTxn_transfer_OK_iff sample_transfer_ok spend_ledger_def)
  then show ?thesis by (rule spent_is_stale) (simp add: proper_transfer_def)
qed

text \<open>
  C9. The cached account map of a reachable chain is the one \<^verbatim>\<open>replayState\<close> rebuilds from the
  genesis table and the block list.
\<close>

theorem cached_state_is_replayed:
  assumes reach: "chain_reach vf D R t c" and now: "t \<le> now_s" "clock_ok now_s"
  shows "replayState vf (ch_blocks c) = ch_state c"
proof -
  obtain bs where "ch_blocks c = genesisBlock # bs" "replays vf now_s D R bs (ch_state c)"
    using chain_reach_replays [OF reach now] by blast
  then show ?thesis by (simp add: replays_state)
qed

theorem cached_state_is_replayed_witness: "replayState any_sig (ch_blocks spend_chain) = spend_ledger"
  using cached_state_is_replayed [OF spend_chain_reached order.refl clock_2024(1)] by simp

end
