(* ===== verification/Tamper.thy ===== *)
theory Tamper
  imports Nonces
begin

text \<open>
  What the tip hash commits to.  Two chains of the program with the same tip hash have the same
  blocks, unless two different byte strings that the program hashed for them collide under
  SHA-256; the pair is among the serialised headers and transaction lists of the two chains.
\<close>

section \<open>The byte strings behind the hashes of a chain\<close>

definition header_input :: "block \<Rightarrow> byte list" where
  "header_input b = serialize_header (blk_header b)"

definition txns_input :: "block \<Rightarrow> byte list" where
  "txns_input b = concat (map serialize_txn (blk_txns b))"

definition hash_inputs :: "block list \<Rightarrow> byte list set" where
  "hash_inputs bs = header_input ` set bs \<union> txns_input ` set bs"

definition collision_between :: "byte list set \<Rightarrow> byte list set \<Rightarrow> bool" where
  "collision_between A B \<longleftrightarrow> (\<exists>x \<in> A. \<exists>y \<in> B. x \<noteq> y \<and> sha256 x = sha256 y)"

lemma collision_mono:
  "collision_between A B \<Longrightarrow> A \<subseteq> A' \<Longrightarrow> B \<subseteq> B' \<Longrightarrow> collision_between A' B'"
  unfolding collision_between_def by blast

lemma hash_inputs_append: "hash_inputs (as @ bs) = hash_inputs as \<union> hash_inputs bs"
  by (auto simp: hash_inputs_def)

lemma serialize_txn_inj:
  assumes "txn_widths t" "txn_widths u" "serialize_txn t = serialize_txn u"
  shows "t = u"
proof -
  let ?v = "\<lambda>t. t\<lparr>tx_ver := kTxnVersion\<rparr>"
  have w: "txn_widths (?v t)" "txn_widths (?v u)" using assms(1,2) by (simp_all add: txn_widths_def)
  have "serialize_txn (?v t) = kTxnVersion # tl (serialize_txn t)" if "txn_widths t" for t
    using that by (subst serialize_txn_eq) (simp_all add: serialize_txn_eq txn_widths_def)
  then have "serialize_txn (?v t) = serialize_txn (?v u)" using assms by simp
  then have "?v t = ?v u"
    using w by (intro txn_codec.enc_inj) (simp_all add: wf_txn_def)
  moreover have "tx_ver t = tx_ver u"
    using assms by (simp add: serialize_txn_eq)
  ultimately show ?thesis by (cases t; cases u) simp
qed

lemma txns_input_inj:
  assumes "list_all txn_widths ts" "list_all txn_widths us"
    and "concat (map serialize_txn ts) = concat (map serialize_txn us)"
  shows "ts = us"
proof (rule concat_map_inj_fixed_width [OF _ _ _ assms(3)])
  show "length (serialize_txn t) = kTxnSize" if "t \<in> set ts \<union> set us" for t
    using that assms(1,2) by (auto simp: list_all_iff length_serialize_txn)
  show "0 < kTxnSize" by (simp add: kTxnSize_def)
  show "t = u" if "t \<in> set ts" "u \<in> set us" "serialize_txn t = serialize_txn u" for t u
    using that assms(1,2) serialize_txn_inj by (auto simp: list_all_iff)
qed

text \<open>Equal header hashes and matching commitments: the blocks are equal or there is a collision.\<close>

definition committed :: "block \<Rightarrow> bool" where
  "committed b \<longleftrightarrow> block_widths b \<and> bh_txnsHash (blk_header b) = computeTxnsHash b"

lemma block_hash_binds:
  assumes "committed a" "committed b" "block_hash (blk_header a) = block_hash (blk_header b)"
    and "\<not> collision_between (hash_inputs [a]) (hash_inputs [b])"
  shows "a = b"
proof -
  have no: "x = y" if "sha256 x = sha256 y" "x \<in> hash_inputs [a]" "y \<in> hash_inputs [b]" for x y
    using that assms(4) unfolding collision_between_def by blast
  have "header_input a = header_input b"
    by (rule no) (use assms(3) in \<open>simp_all add: block_hash_def header_input_def hash_inputs_def\<close>)
  then have h: "blk_header a = blk_header b"
    using assms(1,2) header_codec.enc_inj by (simp add: header_input_def committed_def block_widths_def)
  then have "sha256 (txns_input a) = sha256 (txns_input b)"
    using assms(1,2) by (simp add: committed_def computeTxnsHash_def txns_hash_eq txns_input_def)
  then have "txns_input a = txns_input b" by (rule no) (simp_all add: hash_inputs_def)
  then have "blk_txns a = blk_txns b"
    using assms(1,2) txns_input_inj by (simp add: txns_input_def committed_def block_widths_def)
  with h show ?thesis by simp
qed

section \<open>Linked lists of blocks\<close>

definition links :: "block list \<Rightarrow> bool" where
  "links bs \<longleftrightarrow> (\<forall>k. Suc k < length bs \<longrightarrow>
     bh_prevHash (blk_header (bs ! Suc k)) = block_hash (blk_header (bs ! k)))"

lemma links_snoc:
  assumes "links (as @ [b])"
  shows "links as" "as \<noteq> [] \<Longrightarrow> bh_prevHash (blk_header b) = block_hash (blk_header (last as))"
proof -
  show "links as"
    unfolding links_def
  proof (intro allI impI)
    fix k assume "Suc k < length as"
    then show "bh_prevHash (blk_header (as ! Suc k)) = block_hash (blk_header (as ! k))"
      using assms [unfolded links_def, rule_format, of k] by (simp add: nth_append)
  qed
  assume "as \<noteq> []"
  then show "bh_prevHash (blk_header b) = block_hash (blk_header (last as))"
    using assms [unfolded links_def, rule_format, of "length as - 1"]
    by (simp add: nth_append last_conv_nth)
qed

lemma equal_length_chains:
  assumes "length as = length bs" "as \<noteq> []" "links as" "links bs"
    and "list_all committed as" "list_all committed bs"
    and "block_hash (blk_header (last as)) = block_hash (blk_header (last bs))"
    and "\<not> collision_between (hash_inputs as) (hash_inputs bs)"
  shows "as = bs"
  using assms
proof (induction as arbitrary: bs rule: rev_induct)
  case Nil
  then show ?case by simp
next
  case (snoc a as)
  obtain bs' b where bs: "bs = bs' @ [b]" "length as = length bs'"
    using snoc.prems(1) by (cases bs rule: rev_cases) auto
  have nocol: "\<not> collision_between (hash_inputs as) (hash_inputs bs')"
      "\<not> collision_between (hash_inputs [a]) (hash_inputs [b])"
    by (rule contrapos_nn [OF snoc.prems(8)], erule collision_mono; simp add: bs hash_inputs_append)+
  have ab: "a = b"
    using snoc.prems(5-7) nocol(2) by (intro block_hash_binds) (simp_all add: bs)
  show ?case
  proof (cases "as = []")
    case True
    with bs ab show ?thesis by simp
  next
    case False
    then have "bs' \<noteq> []" using bs(2) by auto
    then have "block_hash (blk_header (last as)) = block_hash (blk_header (last bs'))"
      using links_snoc(2) [OF snoc.prems(3) False] links_snoc(2) [of bs' b] snoc.prems(4) ab bs(1) by simp
    then have "as = bs'"
      using snoc.prems(3-6) nocol(1) bs False links_snoc(1)
      by (intro snoc.IH) auto
    with ab bs show ?thesis by simp
  qed
qed

section \<open>Chains of the program\<close>

lemma reachable_links:
  assumes "chain_reach vf D R t c" "t \<le> now_s" "clock_ok now_s"
  shows "links (ch_blocks c)" "list_all committed (ch_blocks c)" "ch_blocks c \<noteq> []"
    "bh_index (blk_header (last (ch_blocks c))) = word_of_nat (length (ch_blocks c) - 1)"
proof -
  obtain bs where bs: "ch_blocks c = genesisBlock # bs" "replays vf now_s D R bs (ch_state c)"
    using chain_reach_replays [OF assms] by blast
  note acc = replays_accepts [OF bs(2)]
  have "bh_prevHash (blk_header (bs ! k)) = block_hash (blk_header ((genesisBlock # bs) ! k))"
    if "k < length bs" for k using acc [OF that] by (auto simp: block_accepts_def)
  then show "links (ch_blocks c)" by (simp add: links_def bs(1))
  have "bh_txnsHash (blk_header b) = computeTxnsHash b" if "b \<in> set bs" for b
    using that acc by (auto simp: in_set_conv_nth block_accepts_def)
  then show "list_all committed (ch_blocks c)"
    using chain_reach_widths [OF assms(1)] bs(1)
    by (auto simp: list_all_iff committed_def computeTxnsHash_def)
  show "ch_blocks c \<noteq> []" using bs(1) by simp
  show "bh_index (blk_header (last (ch_blocks c))) = word_of_nat (length (ch_blocks c) - 1)"
  proof (cases bs rule: rev_cases)
    case Nil
    with bs(1) show ?thesis by simp
  next
    case (snoc bs' b)
    with acc [of "length bs'"] bs(1) show ?thesis by (auto simp: block_accepts_def)
  qed
qed

text \<open>
  C10. Two reachable chains with the same tip hash, whatever their configurations, hold the same
  blocks, or two different byte strings among those hashed for them have the same SHA-256 digest.
\<close>

theorem tip_hash_commits_to_chain:
  assumes c1: "chain_reach vf1 D1 R1 t1 c1" "t1 \<le> now_s" and c2: "chain_reach vf2 D2 R2 t2 c2" "t2 \<le> now_s"
    and clock: "clock_ok now_s"
    and small: "length (ch_blocks c1) < 2 ^ 64" "length (ch_blocks c2) < 2 ^ 64"
    and tip: "tipHash c1 = tipHash c2"
  shows "ch_blocks c1 = ch_blocks c2 \<or>
    collision_between (hash_inputs (ch_blocks c1)) (hash_inputs (ch_blocks c2))"
proof (rule disjCI)
  assume nocol: "\<not> collision_between (hash_inputs (ch_blocks c1)) (hash_inputs (ch_blocks c2))"
  note r1 = reachable_links [OF c1 clock] and r2 = reachable_links [OF c2 clock]
  let ?l1 = "last (ch_blocks c1)" and ?l2 = "last (ch_blocks c2)"
  have sub: "hash_inputs [?l1] \<subseteq> hash_inputs (ch_blocks c1)" "hash_inputs [?l2] \<subseteq> hash_inputs (ch_blocks c2)"
    using r1(3) r2(3) by (auto simp: hash_inputs_def)
  have com: "committed ?l1" "committed ?l2"
    using r1(2,3) r2(2,3) by (simp_all add: list_all_iff)
  have eq: "?l1 = ?l2"
    using com tip nocol collision_mono [OF _ sub] by (intro block_hash_binds) (auto simp: tipHash_def)
  then have "(word_of_nat (length (ch_blocks c1) - 1) :: u64) = word_of_nat (length (ch_blocks c2) - 1)"
    using r1(4) r2(4) by simp
  then have "length (ch_blocks c1) - 1 = length (ch_blocks c2) - 1"
    using small by (simp add: word_of_nat_eq_iff take_bit_nat_eq_self)
  then have "length (ch_blocks c1) = length (ch_blocks c2)"
    using r1(3) r2(3) by (cases "ch_blocks c1"; cases "ch_blocks c2") simp_all
  then show "ch_blocks c1 = ch_blocks c2"
    using r1(1-3) r2(1,2) tip nocol
    by (intro equal_length_chains) (simp_all add: tipHash_def)
qed

theorem tip_hash_commits_to_chain_witness:
  "ch_blocks spend_chain = ch_blocks spend_chain \<or>
   collision_between (hash_inputs (ch_blocks spend_chain)) (hash_inputs (ch_blocks spend_chain))"
  by (rule tip_hash_commits_to_chain [OF spend_chain_reached order.refl spend_chain_reached order.refl
        clock_2024(1)]) simp_all

end
