(* ===== verification/Pow.thy ===== *)
theory Pow
  imports Candidate Tamper
begin

text \<open>
  The nonce search (\<^verbatim>\<open>pow/miner.cpp\<close>) and the cumulative-work fork choice
  (\<^verbatim>\<open>pow/forkchoice.cpp\<close>).  The search may run forever and is stopped from another thread: it is a
  partial function whose argument \<open>stop\<close> gives the value of the flag at each time it is polled.
\<close>

section \<open>The nonce search\<close>

text \<open>
  \<open>None\<close>: the loop does not end.  \<open>Some None\<close>: it was stopped.  \<open>polls\<close> counts the reads of the
  flag so far.
\<close>

partial_function (option) mine_loop :: "(nat \<Rightarrow> bool) \<Rightarrow> u32 \<Rightarrow> txn list \<Rightarrow> nat \<Rightarrow> block_header \<Rightarrow> u64 \<Rightarrow>
    block option option" where
  "mine_loop stop difficulty txns polls hdr nonce =
     (let polled = (nonce AND 0x3FFF = 0)
      in if polled \<and> stop polls then Some None
         else
           let polls = (if polled then Suc polls else polls);
               hdr = hdr\<lparr>bh_nonce := nonce\<rparr>
           in if meets_difficulty (block_hash hdr) difficulty
              then Some (Some \<lparr>blk_header = hdr, blk_txns = txns\<rparr>)
              else if nonce = 0xFFFFFFFFFFFFFFFF
                then mine_loop stop difficulty txns polls (hdr\<lparr>bh_timestamp := bh_timestamp hdr + 1\<rparr>) 0
              else mine_loop stop difficulty txns polls hdr (nonce + 1))"

definition mine :: "(nat \<Rightarrow> bool) \<Rightarrow> candidate \<Rightarrow> u32 \<Rightarrow> block option option" where
  "mine stop cand difficulty = mine_loop stop difficulty (cd_txns cand) 0 (cd_hdr cand) 0"

text \<open>What a returned block is.\<close>

definition same_work :: "block_header \<Rightarrow> block_header \<Rightarrow> bool" where
  "same_work h h' \<longleftrightarrow> bh_index h' = bh_index h \<and> bh_prevHash h' = bh_prevHash h \<and> bh_txnsHash h' = bh_txnsHash h"

lemma mine_loop_sound:
  assumes "mine_loop stop D txns polls hdr nonce = Some y"
  shows "\<forall>b. y = Some b \<longrightarrow> meets_difficulty (block_hash (blk_header b)) D \<and> blk_txns b = txns \<and>
    same_work hdr (blk_header b)"
proof (rule mine_loop.raw_induct [OF _ assms, where P = "\<lambda>stop D txns polls hdr nonce y.
    \<forall>b. y = Some b \<longrightarrow> meets_difficulty (block_hash (blk_header b)) D \<and> blk_txns b = txns \<and>
      same_work hdr (blk_header b)"])
  fix rec_loop stop D txns polls hdr nonce y
  assume IH: "\<And>stop D txns polls hdr nonce y. rec_loop stop D txns polls hdr nonce = Some y \<Longrightarrow>
      \<forall>b. y = Some b \<longrightarrow> meets_difficulty (block_hash (blk_header b)) D \<and> blk_txns b = txns \<and>
        same_work hdr (blk_header b)"
    and body: "(let polled = (nonce AND 0x3FFF = 0)
      in if polled \<and> stop polls then Some None
         else let polls = (if polled then Suc polls else polls); hdr = hdr\<lparr>bh_nonce := nonce\<rparr>
           in if meets_difficulty (block_hash hdr) D then Some (Some \<lparr>blk_header = hdr, blk_txns = txns\<rparr>)
              else if nonce = 0xFFFFFFFFFFFFFFFF
                then rec_loop stop D txns polls (hdr\<lparr>bh_timestamp := bh_timestamp hdr + 1\<rparr>) 0
              else rec_loop stop D txns polls hdr (nonce + 1)) = Some y"
  let ?p = "if nonce AND 0x3FFF = 0 then Suc polls else polls" and ?h = "hdr\<lparr>bh_nonce := nonce\<rparr>"
  show "\<forall>b. y = Some b \<longrightarrow> meets_difficulty (block_hash (blk_header b)) D \<and> blk_txns b = txns \<and>
      same_work hdr (blk_header b)"
  proof (cases "(nonce AND 0x3FFF = 0 \<and> stop polls) \<or> meets_difficulty (block_hash ?h) D")
    case True
    with body show ?thesis by (auto simp: Let_def same_work_def split: if_splits)
  next
    case False
    show ?thesis
    proof (cases "nonce = 0xFFFFFFFFFFFFFFFF")
      case True
      with False body have "rec_loop stop D txns ?p (?h\<lparr>bh_timestamp := bh_timestamp ?h + 1\<rparr>) 0 = Some y"
        by (cases "nonce AND 0x3FFF = 0") (simp_all add: Let_def)
      from IH [OF this] show ?thesis by (simp add: same_work_def)
    next
      case nmax: False
      with False body have "rec_loop stop D txns ?p ?h (nonce + 1) = Some y"
        by (cases "nonce AND 0x3FFF = 0") (simp_all add: Let_def)
      from IH [OF this] show ?thesis by (simp add: same_work_def)
    qed
  qed
qed

lemma mine_sound:
  assumes "mine stop cand D = Some (Some b)"
  shows "meets_difficulty (block_hash (blk_header b)) D" "blk_txns b = cd_txns cand"
    "same_work (cd_hdr cand) (blk_header b)"
  using mine_loop_sound [OF assms [unfolded mine_def]] by simp_all

text \<open>
  The search returns: if some nonce meets the target at the candidate's timestamp and the flag is
  not raised on the way, it ends with the least such nonce.
\<close>

definition solves :: "u32 \<Rightarrow> block_header \<Rightarrow> u64 \<Rightarrow> bool" where
  "solves D hdr n \<longleftrightarrow> meets_difficulty (block_hash (hdr\<lparr>bh_nonce := n\<rparr>)) D"

lemma mine_loop_reaches:
  assumes "solves D hdr n" "\<And>k. nonce \<le> k \<Longrightarrow> k < n \<Longrightarrow> \<not> solves D hdr k" "nonce \<le> n"
    and "\<And>p. \<not> stop p"
  shows "mine_loop stop D txns polls hdr nonce =
    Some (Some \<lparr>blk_header = hdr\<lparr>bh_nonce := n\<rparr>, blk_txns = txns\<rparr>)"
  using assms
proof (induction "unat n - unat nonce" arbitrary: nonce polls hdr)
  case 0
  then have "nonce = n" by (simp add: word_le_nat_alt unat_arith_simps)
  with 0 show ?case by (simp add: mine_loop.simps solves_def Let_def)
next
  case (Suc d)
  have lt: "nonce < n" using Suc.hyps(2) by (simp add: word_less_nat_alt)
  then have no: "\<not> solves D hdr nonce" using Suc.prems(2) by simp
  have nmax: "nonce \<noteq> 0xFFFFFFFFFFFFFFFF"
    using lt unsigned_less [of n, where ?'a = nat] by (auto simp: word_less_nat_alt)
  have nx: "unat (nonce + 1) = unat nonce + 1"
    using lt unsigned_less [of n, where ?'a = nat]
    by (subst unat_add_lem [THEN iffD1]) (simp_all add: word_less_nat_alt)
  let ?hdr = "hdr\<lparr>bh_nonce := nonce\<rparr>"
  have same: "solves D ?hdr k = solves D hdr k" for k by (simp add: solves_def)
  have "mine_loop stop D txns polls' ?hdr (nonce + 1) =
      Some (Some \<lparr>blk_header = ?hdr\<lparr>bh_nonce := n\<rparr>, blk_txns = txns\<rparr>)" for polls'
  proof (rule Suc.hyps(1))
    show "d = unat n - unat (nonce + 1)" using Suc.hyps(2) nx by simp
    show "nonce + 1 \<le> n" using lt nx by (simp add: word_le_nat_alt word_less_nat_alt)
    show "\<not> solves D ?hdr k" if "nonce + 1 \<le> k" "k < n" for k
      unfolding same using that nx by (intro Suc.prems(2)) (simp_all add: word_le_nat_alt)
  qed (use Suc.prems in \<open>simp_all add: same\<close>)
  then show ?case
    using no nmax Suc.prems(4) by (subst mine_loop.simps) (simp add: solves_def Let_def)
qed

text \<open>
  C14. Mining a candidate returns.  If some nonce meets the target at the candidate's timestamp
  and the stop flag is never seen raised, \<^verbatim>\<open>mine\<close> ends with the candidate's block under the least
  such nonce; if the flag is up at the first poll, it ends at once without a block.
\<close>

theorem mine_returns:
  assumes "solves D (cd_hdr cand) n" "\<And>k. k < n \<Longrightarrow> \<not> solves D (cd_hdr cand) k"
  shows "mine (\<lambda>_. False) cand D =
      Some (Some \<lparr>blk_header = (cd_hdr cand)\<lparr>bh_nonce := n\<rparr>, blk_txns = cd_txns cand\<rparr>) \<and>
    mine (\<lambda>_. True) cand D = Some None"
  using mine_loop_reaches [of D "cd_hdr cand" n 0 "\<lambda>_. False" "cd_txns cand" 0] assms
  by (simp add: mine_def mine_loop.simps [of "\<lambda>_. True"])

theorem mine_returns_witness:
  "mine (\<lambda>_. False) \<lparr>cd_hdr = blk_header genesisBlock, cd_txns = []\<rparr> 0 =
   Some (Some \<lparr>blk_header = (blk_header genesisBlock)\<lparr>bh_nonce := 0\<rparr>, blk_txns = []\<rparr>)"
  using mine_returns [of 0 "\<lparr>cd_hdr = blk_header genesisBlock, cd_txns = []\<rparr>" 0]
  by (simp add: solves_def meets_difficulty_0)

section \<open>Mined candidates connect\<close>

lemma mined_connects:
  assumes inv: "mempool_inv vf mp"
    and cand: "cand = buildCandidate miner (height c) (tipHash c) tip_ts now0 mp (account c)"
    and tip: "tip_ts = bh_timestamp (blk_header (last (ch_blocks c)))"
    and mined: "mine stop cand (ch_difficulty c) = Some (Some b)"
    and time: "tip_ts < bh_timestamp (blk_header b)" "bh_timestamp (blk_header b) \<le> now_s + MAX_CLOCK_SKEW_S"
  shows "\<exists>w. tip_accepts vf c b now_s w"
proof -
  note b = mine_sound [OF mined]
  have acct: "account c = acct (ch_state c)" by (simp add: account_def fun_eq_iff)
  obtain new w' where new: "cd_txns cand = coinbaseTxn miner (height c + 1) # new"
    "block_loop vf (height c + 1) (ch_state c) 0 0 (coinbaseTxn miner (height c + 1) # new) = Inr (1, w')"
    "length new < MAX_TXNS_PER_BLOCK"
    using buildCandidate_txns [OF inv, of miner "height c" "tipHash c" tip_ts now0 "ch_state c"]
    unfolding cand acct by blast
  have hdr: "bh_index (blk_header b) = height c + 1" "bh_prevHash (blk_header b) = tipHash c"
    "bh_txnsHash (blk_header b) = txns_hash (blk_txns b)"
    using b(2,3) unfolding cand by (simp_all add: same_work_def buildCandidate_sel)
  have gate: "applyBlockTxns vf (ch_state c) b (ch_reward c) = (bar_ok, w')"
    using new(1,2) b(2) hdr(1) by (simp add: applyBlockTxns_def bar_ok_def)
  have "tip_accepts vf c b now_s w'"
    using hdr gate time b(1,2) new(1,3) tip
    by (simp add: tip_accepts_def block_accepts_def next_index computeTxnsHash_def)
  then show ?thesis ..
qed

text \<open>
  C15. A block mined from a candidate that was built over the tip of a reachable chain is accepted
  by that chain, whatever its reward setting: if the search kept the timestamp (the nonce space
  was not exhausted) and the tip is not already at the edge of the clock skew, \<^verbatim>\<open>connectBlock\<close>
  returns \<open>OK\<close>.
\<close>

theorem mined_candidate_connects:
  assumes inv: "mempool_inv vf mp"
    and cand: "cand = buildCandidate miner (height c) (tipHash c) tip_ts now_s mp (account c)"
    and tip: "tip_ts = bh_timestamp (blk_header (last (ch_blocks c)))"
    and mined: "mine stop cand (ch_difficulty c) = Some (Some b)"
    and kept: "bh_timestamp (blk_header b) = bh_timestamp (cd_hdr cand)"
    and clock: "clock_ok now_s" "unat tip_ts < unat now_s + unat MAX_CLOCK_SKEW_S"
  shows "fst (connectBlock vf c b now_s) = OK"
proof -
  have time: "bh_timestamp (blk_header b) = max now_s (tip_ts + 1)"
    using kept unfolding cand by (simp add: buildCandidate_sel)
  have skew: "unat (now_s + MAX_CLOCK_SKEW_S) = unat now_s + unat MAX_CLOCK_SKEW_S"
    using clock(1) by (simp add: clock_ok_def unat_add_lem [THEN iffD1])
  have next_ts: "unat (tip_ts + 1) = unat tip_ts + 1"
    using clock by (subst unat_add_lem [THEN iffD1]) (simp_all add: clock_ok_def)
  have lo: "tip_ts < max now_s (tip_ts + 1)"
    using clock by (intro less_max_succ) (simp add: clock_ok_def)
  have hi: "max now_s (tip_ts + 1) \<le> now_s + MAX_CLOCK_SKEW_S"
    using next_ts skew clock(2) by (simp only: max.bounded_iff word_le_nat_alt)
  obtain w where "tip_accepts vf c b now_s w"
    using mined_connects [OF inv cand tip mined] lo hi unfolding time by blast
  then show ?thesis by (simp add: connectBlock_OK_iff [THEN iffD2, of vf c b now_s "appended c b w"] exI)
qed

lemma mine_at_difficulty_0:
  "mine (\<lambda>_. False) cand 0 =
   Some (Some \<lparr>blk_header = (cd_hdr cand)\<lparr>bh_nonce := 0\<rparr>, blk_txns = cd_txns cand\<rparr>)"
  unfolding mine_def by (rule mine_loop_reaches) (simp_all add: solves_def meets_difficulty_0)

theorem mined_candidate_connects_witness:
  "let cand = buildCandidate sample_addr (height funded_chain) (tipHash funded_chain) 1704067201
        1704067202 (new_mempool 8) (account funded_chain)
   in fst (connectBlock any_sig funded_chain
        \<lparr>blk_header = (cd_hdr cand)\<lparr>bh_nonce := 0\<rparr>, blk_txns = cd_txns cand\<rparr> 1704067202) = OK"
proof -
  let ?cand = "buildCandidate sample_addr (height funded_chain) (tipHash funded_chain) 1704067201
        1704067202 (new_mempool 8) (account funded_chain)"
  have "mine (\<lambda>_. False) ?cand (ch_difficulty funded_chain) =
      Some (Some \<lparr>blk_header = (cd_hdr ?cand)\<lparr>bh_nonce := 0\<rparr>, blk_txns = cd_txns ?cand\<rparr>)"
    by (simp add: mine_at_difficulty_0)
  from mined_candidate_connects [OF mempool_inv_new refl _ this, of any_sig] show ?thesis
    by (simp add: Let_def coinbase_block_def MAX_CLOCK_SKEW_S_def)
qed

section \<open>Fork choice\<close>

definition blockWork :: "u32 \<Rightarrow> u128" where
  "blockWork difficulty = block_work difficulty"

definition cumulativeWork :: "block list \<Rightarrow> u32 \<Rightarrow> u128" where
  "cumulativeWork blocks difficulty =
     (if blocks = [] then 0 else word_of_nat (length blocks - 1) * blockWork difficulty)"

definition candidateWins :: "u128 \<Rightarrow> u128 \<Rightarrow> bool" where
  "candidateWins candidateCumWork activeCumWork \<longleftrightarrow> candidateCumWork > activeCumWork"

record import_result =
  ir_valid :: bool
  ir_won :: bool
  ir_status :: verify_result
  ir_active_work :: u128
  ir_candidate_work :: u128

definition evaluateImport :: "verifier \<Rightarrow> block list \<Rightarrow> block list \<Rightarrow> u64 \<Rightarrow> u32 \<Rightarrow> u64 \<Rightarrow> import_result" where
  "evaluateImport vf active candidate now_s difficulty reward =
     (let status = replayFromGenesis vf candidate now_s difficulty reward;
          active_work = cumulativeWork active difficulty;
          candidate_work = cumulativeWork candidate difficulty
      in \<lparr>ir_valid = vr_ok status, ir_won = vr_ok status \<and> candidateWins candidate_work active_work,
          ir_status = status, ir_active_work = active_work, ir_candidate_work = candidate_work\<rparr>)"

text \<open>
  The work the chain accumulates block by block is the closed form of the fork choice.
\<close>

theorem cached_work:
  "chain_reach vf D R t c \<Longrightarrow> ch_cumWork c = cumulativeWork (ch_blocks c) D"
proof (induction rule: chain_reach.induct)
  case (reach_new now_s)
  then show ?case by (simp add: cumulativeWork_def)
next
  case (reach_connect t c now_s b)
  have par: "ch_difficulty c = D" using chain_reach_params [OF reach_connect.hyps(1)] by simp
  have "ch_blocks c \<noteq> []"
    using reach_connect.hyps(1) by (induction) (auto elim: connectBlock_cases simp: connectBlock_def Let_def split: prod.splits)
  then have "(word_of_nat (length (ch_blocks c)) :: u128) = word_of_nat (length (ch_blocks c) - 1) + 1"
    by (cases "ch_blocks c") simp_all
  with reach_connect.IH \<open>ch_blocks c \<noteq> []\<close> show ?case
    by (cases rule: connectBlock_cases [of vf c b now_s])
      (simp_all add: par cumulativeWork_def blockWork_def distrib_right)
qed

theorem cached_work_witness: "ch_cumWork spend_chain = 2"
proof -
  have "block_work 0 = 1" by (simp add: block_work_def)
  with cached_work [OF spend_chain_reached] show ?thesis
    by (simp add: cumulativeWork_def blockWork_def)
qed

lemma replay_empty [simp]: "\<not> vr_ok (replayFromGenesis vf [] now_s D R)"
  by (simp add: replayFromGenesis_def vr_fail_def)

text \<open>
  An import replaces the active chain only if the replay accepts the candidate from genesis
  and the candidate has strictly more blocks: work never buys validity, and a tie keeps the
  incumbent.
\<close>

theorem import_wins_iff:
  assumes "D < 128" "length active * 2 ^ unat D < 2 ^ 128" "length candidate * 2 ^ unat D < 2 ^ 128"
    and "active \<noteq> []"
  shows "ir_won (evaluateImport vf active candidate now_s D R) \<longleftrightarrow>
    vr_ok (replayFromGenesis vf candidate now_s D R) \<and> length active < length candidate"
proof -
  have work: "unat (cumulativeWork bs D) = (length bs - 1) * 2 ^ unat D"
    if "length bs * 2 ^ unat D < 2 ^ 128" "bs \<noteq> []" for bs
  proof -
    have w: "unat (block_work D) = 2 ^ unat D" using assms(1) by (simp add: unat_block_work)
    have le: "(length bs - 1) * 2 ^ unat D \<le> length bs * 2 ^ unat D" by simp
    have "length bs * 1 \<le> length bs * 2 ^ unat D" by (intro mult_le_mono) simp_all
    then have "length bs < 2 ^ 128" using that(1) by linarith
    then have n: "unat (word_of_nat (length bs - 1) :: u128) = length bs - 1" by (simp add: unat_of_nat)
    have "unat (word_of_nat (length bs - 1) :: u128) * unat (block_work D) < 2 ^ LENGTH(128)"
      unfolding n w by (rule order.strict_trans1 [OF le]) (use that(1) in simp)
    from unat_mult_lem [THEN iffD1, OF this]
    have "unat (word_of_nat (length bs - 1) * block_work D) = (length bs - 1) * 2 ^ unat D"
      unfolding n w .
    with that(2) show ?thesis by (simp add: cumulativeWork_def blockWork_def)
  qed
  show ?thesis
  proof (cases "candidate = []")
    case True
    then show ?thesis by (simp add: evaluateImport_def Let_def)
  next
    case False
    then have "candidateWins (cumulativeWork candidate D) (cumulativeWork active D) \<longleftrightarrow> length active < length candidate"
      using assms by (cases active; cases candidate) (simp_all add: candidateWins_def word_less_nat_alt work)
    then show ?thesis by (simp add: evaluateImport_def Let_def)
  qed
qed

theorem import_wins_iff_witness:
  "\<not> ir_won (evaluateImport any_sig [genesisBlock] [genesisBlock] 1704067201 16 0)"
  using import_wins_iff [of 16 "[genesisBlock]" "[genesisBlock]"] by simp

end
