(* ===== verification/Node.thy ===== *)
theory Node
  imports Config Store Pow
begin

text \<open>
  The life of a node process (\<^verbatim>\<open>node/node.hpp\<close>, \<^verbatim>\<open>node/node.cpp\<close>): the boot gate that loads and
  replays the block file, the sealing of a batch of transactions and the commit of a mined block.
  The file system is the node's block file; the result of its system calls is the argument \<open>io\<close>.  A boot
  has no result (\<open>None\<close>) if a write never ends, and ends with \<open>Raises\<close> if the JSON parser throws.

  The lemmas show that the second pass of the boot cannot fail, that a boot restores exactly the
  chain in memory when the file was written, and what happens when a write fails.
\<close>

record node =
  nd_cfg :: node_config
  nd_file :: fcontent
  nd_chain :: chain

record boot_result =
  br_ok :: bool
  br_status :: verify_result

definition node_reward :: "node_config \<Rightarrow> u64" where
  "node_reward cfg = (if cfg_difficulty cfg > 0 then COINBASE_REWARD else 0)"

definition new_node :: "node_config \<Rightarrow> fcontent \<Rightarrow> node" where
  "new_node cfg f = \<lparr>nd_cfg = cfg, nd_file = f, nd_chain = new_chain (cfg_difficulty cfg) (node_reward cfg)\<rparr>"

text \<open>The result of the append is discarded, here and in the two operations below.\<close>

definition node_append :: "io \<Rightarrow> node \<Rightarrow> block \<Rightarrow> node option" where
  "node_append io n b = map_option (\<lambda>(ok, f). n\<lparr>nd_file := f\<rparr>) (appendBlock io (nd_file n) b)"

text \<open>The second pass of the boot: \<open>i\<close> is the loop index.\<close>

fun reconnect :: "verifier \<Rightarrow> u64 \<Rightarrow> nat \<Rightarrow> block list \<Rightarrow> chain \<Rightarrow> (verify_result \<times> chain) + chain" where
  "reconnect vf now_s i [] c = Inr c"
| "reconnect vf now_s i (b # bs) c =
     (let (r, c) = connectBlock vf c b now_s
      in if r \<noteq> OK then Inl (vr_fail (word_of_nat i) r ''reconnect failed'', c)
         else reconnect vf now_s (Suc i) bs c)"

definition boot_ok :: boot_result where
  "boot_ok = \<lparr>br_ok = True, br_status = vr_pass\<rparr>"

definition refuse :: "verify_result \<Rightarrow> boot_result" where
  "refuse status = \<lparr>br_ok = False, br_status = status\<rparr>"

definition boot :: "verifier \<Rightarrow> (double \<Rightarrow> u64) \<Rightarrow> json_parser \<Rightarrow> io \<Rightarrow> node_config \<Rightarrow>
    fcontent \<Rightarrow> u64 \<Rightarrow> (boot_result \<times> node) raised option" where
  "boot vf ub parse io cfg f now_s =
     (let n = new_node cfg f;
          has_blocks = (case f of None \<Rightarrow> False | Some s \<Rightarrow> length s > 0)
      in if \<not> has_blocks then map_option (\<lambda>n. Returns (boot_ok, n)) (node_append io n genesisBlock)
         else
           case load ub parse f of
             Raises \<Rightarrow> Some Raises
           | Returns lr \<Rightarrow>
              if \<not> vr_ok (lr_status lr) then Some (Returns (refuse (lr_status lr), n))
              else case lr_blocks lr of
                [] \<Rightarrow> map_option (\<lambda>n. Returns (boot_ok, n)) (node_append io n genesisBlock)
              | b0 # bs \<Rightarrow>
                  if b0 \<noteq> genesisBlock then Some (Returns (refuse (vr_fail 0 BAD_LINK ''genesis mismatch''), n))
                  else
                    let vr = replayFromGenesis vf (b0 # bs) now_s (cfg_difficulty cfg) (node_reward cfg)
                    in if \<not> vr_ok vr then Some (Returns (refuse vr, n))
                       else case reconnect vf now_s 1 bs (nd_chain n) of
                         Inl (v, c) \<Rightarrow> Some (Returns (refuse v, n\<lparr>nd_chain := c\<rparr>))
                       | Inr c \<Rightarrow> Some (Returns (boot_ok, n\<lparr>nd_chain := c\<rparr>)))"

definition seal_next_block :: "verifier \<Rightarrow> io \<Rightarrow> node \<Rightarrow> u64 \<Rightarrow> txn list \<Rightarrow> (reason \<times> node) option" where
  "seal_next_block vf io n now_s txns =
     (let c = nd_chain n;
          tip = blk_header (ch_blocks c ! unat (height c));
          hdr = \<lparr>bh_index = height c + 1, bh_timestamp = max now_s (bh_timestamp tip + 1),
                 bh_prevHash = tipHash c, bh_txnsHash = txns_hash txns, bh_nonce = 0\<rparr>;
          b = \<lparr>blk_header = hdr, blk_txns = txns\<rparr>;
          (r, c) = connectBlock vf c b now_s;
          n = n\<lparr>nd_chain := c\<rparr>
      in if r \<noteq> OK then Some (r, n) else map_option (\<lambda>n. (OK, n)) (node_append io n b))"

definition commitBlock :: "verifier \<Rightarrow> io \<Rightarrow> node \<Rightarrow> block \<Rightarrow> u64 \<Rightarrow> (reason \<times> node) option" where
  "commitBlock vf io n b now_s =
     (let (r, c) = connectBlock vf (nd_chain n) b now_s;
          n = n\<lparr>nd_chain := c\<rparr>
      in if r \<noteq> OK then Some (r, n) else map_option (\<lambda>n. (OK, n)) (node_append io n b))"

section \<open>The second pass cannot fail\<close>

lemma reconnect_snoc:
  "reconnect vf now_s i bs c = Inr c1 \<Longrightarrow>
   reconnect vf now_s i (bs @ [b]) c = reconnect vf now_s (i + length bs) [b] c1"
  by (induction bs arbitrary: i c) (auto split: prod.splits if_splits)

lemma reconnect_replays:
  "replays vf now_s D R bs s \<Longrightarrow>
   \<exists>c. reconnect vf now_s 1 bs (new_chain D R) = Inr c \<and> ch_blocks c = genesisBlock # bs \<and>
     ch_state c = s \<and> ch_difficulty c = D \<and> ch_reward c = R"
proof (induction bs arbitrary: s rule: rev_induct)
  case Nil
  then show ?case by (simp add: replays_def)
next
  case (snoc b bs)
  from snoc.prems obtain s0 where s0: "replays vf now_s D R bs s0"
    unfolding replays_snoc_iff by blast
  obtain c where c: "reconnect vf now_s 1 bs (new_chain D R) = Inr c" "ch_blocks c = genesisBlock # bs"
    "ch_state c = s0" "ch_difficulty c = D" "ch_reward c = R"
    using snoc.IH [OF s0] by blast
  have "tip_accepts vf c b now_s s"
    using tip_accepts_iff [OF c(2,4,5)] s0 snoc.prems c(3) by simp
  then have "connectBlock vf c b now_s = (OK, appended c b s)" by (auto simp: connectBlock_OK_iff)
  then show ?case using c by (simp add: reconnect_snoc)
qed

text \<open>
  After the replay has passed, reconnecting the blocks through \<^verbatim>\<open>connectBlock\<close> never fails, and
  gives a chain with exactly these blocks: the third check of the boot is redundant.
\<close>

theorem reconnect_never_fails:
  assumes "vr_ok (replayFromGenesis vf (genesisBlock # bs) now_s D R)"
  shows "\<exists>c. reconnect vf now_s 1 bs (new_chain D R) = Inr c \<and> ch_blocks c = genesisBlock # bs \<and>
    supply_matches c"
proof -
  obtain s where s: "replays vf now_s D R bs s" "balance_sum s = GENESIS_SUPPLY + word_of_nat (length bs) * R"
    using assms unfolding replayFromGenesis_genesis replays_def
    by (fastforce simp: vr_fail_def split: sum.splits if_splits dest: replay_loop_Inl)
  show ?thesis using reconnect_replays [OF s(1)] s(2) by (auto simp: supply_matches_def height_def)
qed

theorem reconnect_never_fails_witness:
  "\<exists>c. reconnect any_sig 1704067201 1 [empty_block] (new_chain 0 0) = Inr c \<and>
     ch_blocks c = [genesisBlock, empty_block] \<and> supply_matches c"
proof (rule reconnect_never_fails)
  have "replays any_sig 1704067201 0 0 [empty_block] (applyGenesis [])"
    using chain_reach_replays [OF empty_block_reached order.refl clock_2024(2)] by simp
  then show "vr_ok (replayFromGenesis any_sig [genesisBlock, empty_block] 1704067201 0 0)"
    by (simp add: replayFromGenesis_genesis replays_def balance_sum_of_supply GENESIS_SUPPLY_def vr_pass_def)
qed

section \<open>What a boot restores\<close>

lemma connectBlock_mono:
  assumes "connectBlock vf c b t = (OK, c')" "t \<le> now_s" "clock_ok now_s"
  shows "connectBlock vf c b now_s = (OK, c')"
  using assms block_accepts_mono by (fastforce simp: connectBlock_OK_iff tip_accepts_def)

lemma reconnect_reached:
  "chain_reach vf D R t c \<Longrightarrow> t \<le> now_s \<Longrightarrow> clock_ok now_s \<Longrightarrow>
   reconnect vf now_s 1 (tl (ch_blocks c)) (new_chain D R) = Inr c \<and> ch_blocks c \<noteq> []"
proof (induction arbitrary: now_s rule: chain_reach.induct)
  case (reach_new t)
  then show ?case by simp
next
  case (reach_connect t0 c t b)
  have "t0 \<le> now_s" using reach_connect.hyps(2) reach_connect.prems(1) by simp
  note IH = reach_connect.IH [OF this reach_connect.prems(2)]
  show ?case
  proof (cases rule: connectBlock_cases [of vf c b t])
    case (committed w)
    then have "connectBlock vf c b now_s = (OK, appended c b w)"
      using connectBlock_mono reach_connect.prems by blast
    then show ?thesis
      using IH committed(2) by (simp add: reconnect_snoc tl_append2)
  next
    case rejected
    with IH show ?thesis by simp
  qed
qed

lemma file_of_nonempty: "bs \<noteq> [] \<Longrightarrow> file_of bs \<noteq> []"
  by (cases bs) (simp_all add: file_of_def block_line_def)

text \<open>The boot over any file that loads as the blocks of a reachable chain.\<close>

lemma boot_loaded:
  assumes reach: "chain_reach vf (cfg_difficulty cfg) (node_reward cfg) t c" and now: "t \<le> now_s" "clock_ok now_s"
    and valid: "validateChain vf c now_s = OK" and ne: "s \<noteq> []"
    and ld: "load ub parse (Some s) = Returns \<lparr>lr_status = vr_pass, lr_blocks = ch_blocks c\<rparr>"
  shows "boot vf ub parse io cfg (Some s) now_s =
    Some (Returns (boot_ok, \<lparr>nd_cfg = cfg, nd_file = Some s, nd_chain = c\<rparr>))"
proof -
  obtain bs where bs: "ch_blocks c = genesisBlock # bs"
    using chain_reach_replays [OF reach now] by blast
  have "vr_ok (replayFromGenesis vf (genesisBlock # bs) now_s (cfg_difficulty cfg) (node_reward cfg))"
    using valid chain_reach_params [OF reach] bs
    by (auto simp: validateChain_def replayFromGenesis_genesis vr_pass_def vr_fail_def
        dest: replay_loop_Inl split: sum.splits if_splits)
  moreover have "reconnect vf now_s 1 bs (new_chain (cfg_difficulty cfg) (node_reward cfg)) = Inr c"
    using reconnect_reached [OF reach now] bs by simp
  ultimately show ?thesis
    using ld ne bs by (simp add: boot_def new_node_def Let_def vr_pass_def)
qed

text \<open>
  C19. A node that is restarted comes back as it was: if the block file holds the blocks of a
  reachable chain that validates, with fields below \<open>2 ^ 63\<close>, the boot succeeds and rebuilds exactly that
  chain, accounts, work and undo records included.
\<close>

theorem boot_restores_chain:
  assumes reach: "chain_reach vf (cfg_difficulty cfg) (node_reward cfg) t c" and now: "t \<le> now_s" "clock_ok now_s"
    and valid: "validateChain vf c now_s = OK" and small: "list_all block_small (ch_blocks c)"
  shows "boot vf ub picojson io cfg (Some (file_of (ch_blocks c))) now_s =
    Some (Returns (boot_ok, \<lparr>nd_cfg = cfg, nd_file = Some (file_of (ch_blocks c)), nd_chain = c\<rparr>))"
proof -
  have "ch_blocks c \<noteq> []" using chain_reach_replays [OF reach now] by auto
  then show ?thesis
    by (intro boot_loaded [OF reach now valid file_of_nonempty load_file_of [OF small]])
qed

theorem boot_restores_chain_witness:
  "boot any_sig (\<lambda>_. 0) picojson (io_fine 0) default_config (Some (file_of [genesisBlock])) 1704067201 =
   Some (Returns (boot_ok, \<lparr>nd_cfg = default_config, nd_file = Some (file_of [genesisBlock]), nd_chain = new_chain 0 0\<rparr>))"
proof -
  have cfg: "cfg_difficulty default_config = 0" "node_reward default_config = 0"
    by (simp_all add: default_config_def node_reward_def)
  have reach: "chain_reach any_sig (cfg_difficulty default_config) (node_reward default_config) 1704067201 (new_chain 0 0)"
    unfolding cfg by (rule reach_new)
  have "supply_matches (new_chain 0 0)"
    by (simp add: supply_matches_def balance_sum_of_supply GENESIS_SUPPLY_def)
  then have "validateChain any_sig (new_chain 0 0) 1704067201 = OK"
    using validate_reached [OF reach_new order.refl clock_2024(2)] by simp
  with boot_restores_chain [OF reach order.refl clock_2024(2)] show ?thesis
    by (simp add: genesis_small)
qed

section \<open>A write that fails\<close>

lemma commitBlock_OK:
  assumes "commitBlock vf io n b now_s = Some (OK, n')"
  obtains w ok f where "tip_accepts vf (nd_chain n) b now_s w" "appendBlock io (nd_file n) b = Some (ok, f)"
    "n' = n\<lparr>nd_chain := appended (nd_chain n) b w, nd_file := f\<rparr>"
proof (cases rule: connectBlock_cases [of vf "nd_chain n" b now_s])
  case (committed w)
  with assms that show thesis by (auto simp: commitBlock_def node_append_def)
next
  case (rejected r)
  with assms show thesis by (simp add: commitBlock_def)
qed

text \<open>
  C20. The commit of a mined block whose append fails (the block file cannot be opened) still reports
  \<open>OK\<close>, and leaves the block in memory only; the commit of the next block is appended without an error.
  The block file then has a gap, and the next boot refuses it.
\<close>

theorem lost_append_breaks_boot:
  assumes reach: "chain_reach vf (cfg_difficulty cfg) (node_reward cfg) t c" and now: "t \<le> now_s" "clock_ok now_s"
    and n: "n = \<lparr>nd_cfg = cfg, nd_file = Some (file_of (ch_blocks c)), nd_chain = c\<rparr>"
    and accepted: "connectBlock vf c b1 now_s = (OK, c1)" "connectBlock vf c1 b2 now_s = (OK, c2)"
    and lost: "\<not> io_open io1" and kept: "length (block_line b2) \<le> k"
    and small: "list_all block_small (ch_blocks c @ [b2])"
  shows "\<exists>n1 n2. commitBlock vf io1 n b1 now_s = Some (OK, n1) \<and> nd_chain n1 = c1 \<and> nd_file n1 = nd_file n \<and>
    commitBlock vf (io_fine k) n1 b2 now_s = Some (OK, n2) \<and> nd_chain n2 = c2 \<and>
    nd_file n2 = Some (file_of (ch_blocks c @ [b2])) \<and>
    (\<exists>n3. boot vf ub picojson io cfg (nd_file n2) now_s =
       Some (Returns (refuse (vr_fail (height c + 1) BAD_LINK ''index mismatch''), n3)))"
proof (intro exI conjI)
  let ?n1 = "n\<lparr>nd_chain := c1\<rparr>"
  let ?n2 = "?n1\<lparr>nd_chain := c2, nd_file := Some (file_of (ch_blocks c) @ block_line b2)\<rparr>"
  show "commitBlock vf io1 n b1 now_s = Some (OK, ?n1)"
    using accepted(1) lost n by (simp add: commitBlock_def node_append_def appendBlock_def write_file_def Let_def)
  show "commitBlock vf (io_fine k) ?n1 b2 now_s = Some (OK, ?n2)"
    using accepted(2) append_fine [OF kept, of "file_of (ch_blocks c)"] n
    by (simp add: commitBlock_def node_append_def)
  show f: "nd_file ?n2 = Some (file_of (ch_blocks c @ [b2]))" by (simp add: file_of_def)
  obtain w1 where c1: "c1 = appended c b1 w1" using accepted(1) by (auto simp: connectBlock_OK_iff)
  obtain w2 where acc2: "tip_accepts vf (appended c b1 w1) b2 now_s w2"
    using accepted(2) unfolding c1 by (auto simp: connectBlock_OK_iff)
  obtain bs where bs: "ch_blocks c = genesisBlock # bs" "replays vf now_s (cfg_difficulty cfg) (node_reward cfg) bs (ch_state c)"
    using chain_reach_replays [OF reach now] by blast
  have "bh_index (blk_header b2) = word_of_nat (Suc (length (ch_blocks c)))"
    using acc2 by (simp add: tip_accepts_def block_accepts_def)
  then have idx: "bh_index (blk_header b2) \<noteq> word_of_nat (length (ch_blocks c))" by simp
  have "replay_loop vf now_s (cfg_difficulty cfg) (node_reward cfg) 1 (block_hash (blk_header genesisBlock))
      GENESIS_TIMESTAMP (applyGenesis []) (bs @ [b2]) = Inl (vr_fail (height c + 1) BAD_LINK ''index mismatch'')"
    using replay_extended [OF bs, of "[b2]"] idx next_index [of c] by (simp add: replay_loop.simps(2) Let_def)
  then have "replayFromGenesis vf (genesisBlock # bs @ [b2]) now_s (cfg_difficulty cfg) (node_reward cfg) =
      vr_fail (height c + 1) BAD_LINK ''index mismatch''"
    by (simp only: replayFromGenesis_genesis sum.case)
  moreover have "load ub picojson (nd_file ?n2) = Returns \<lparr>lr_status = vr_pass, lr_blocks = genesisBlock # bs @ [b2]\<rparr>"
    using load_file_of [OF small, of ub] f bs by simp
  ultimately show "boot vf ub picojson io cfg (nd_file ?n2) now_s =
      Some (Returns (refuse (vr_fail (height c + 1) BAD_LINK ''index mismatch''), new_node cfg (nd_file ?n2)))"
    using f file_of_nonempty [of "ch_blocks c @ [b2]"] by (simp add: boot_def vr_pass_def Let_def vr_fail_def)
qed (simp_all add: n)

definition second_block :: block where
  "second_block = \<lparr>blk_header = \<lparr>bh_index = 2, bh_timestamp = 1704067202,
     bh_prevHash = block_hash (blk_header empty_block), bh_txnsHash = txns_hash [], bh_nonce = 0\<rparr>,
     blk_txns = []\<rparr>"

lemma sample_blocks_small: "block_small empty_block" "block_small second_block"
  by (simp_all add: block_small_def empty_block_def second_block_def header_widths_def small_def)

text \<open>The sample blocks on the default node: the first one on genesis, the second one on the first.\<close>

abbreviation first_chain :: chain where
  "first_chain \<equiv> appended (new_chain 0 0) empty_block (applyGenesis [])"

abbreviation second_chain :: chain where
  "second_chain \<equiv> appended first_chain second_block (applyGenesis [])"

lemma sample_connects:
  "connectBlock any_sig (new_chain 0 0) empty_block 1704067202 = (OK, first_chain)"
  "connectBlock any_sig first_chain second_block 1704067202 = (OK, second_chain)"
proof -
  show "connectBlock any_sig (new_chain 0 0) empty_block 1704067202 = (OK, first_chain)"
    by (rule connectBlock_mono [OF empty_block_connects _ clock_2024(1)]) simp
  show "connectBlock any_sig first_chain second_block 1704067202 = (OK, second_chain)"
    by (simp add: connectBlock_OK_iff tip_accepts_def block_accepts_def second_block_def tipHash_def
        empty_block_def MAX_CLOCK_SKEW_S_def computeTxnsHash_def meets_difficulty_0 applyBlockTxns_def bar_ok_def)
qed

lemma sample_node:
  "chain_reach any_sig (cfg_difficulty default_config) (node_reward default_config) 1704067201 (new_chain 0 0)"
  "(1704067201 :: u64) \<le> 1704067202"
proof -
  have "cfg_difficulty default_config = 0" "node_reward default_config = 0"
    by (simp_all add: default_config_def node_reward_def)
  then show "chain_reach any_sig (cfg_difficulty default_config) (node_reward default_config) 1704067201 (new_chain 0 0)"
    by (simp add: reach_new)
qed simp

theorem lost_append_breaks_boot_witness:
  "let n = \<lparr>nd_cfg = default_config, nd_file = Some (file_of [genesisBlock]), nd_chain = new_chain 0 0\<rparr>
   in \<exists>n1 n2 n3. commitBlock any_sig \<lparr>io_open = False, io_writes = [], io_fsync = False\<rparr> n empty_block 1704067202 = Some (OK, n1) \<and>
     commitBlock any_sig (io_fine (length (block_line second_block))) n1 second_block 1704067202 = Some (OK, n2) \<and>
     nd_file n2 = Some (file_of [genesisBlock, second_block]) \<and>
     boot any_sig (\<lambda>_. 0) picojson (io_fine 0) default_config (nd_file n2) 1704067202 =
       Some (Returns (refuse (vr_fail 1 BAD_LINK ''index mismatch''), n3))"
proof -
  have "list_all block_small (ch_blocks (new_chain 0 0) @ [second_block])"
    by (simp add: genesis_small sample_blocks_small)
  from lost_append_breaks_boot [OF sample_node clock_2024(1) refl sample_connects _ order.refl this,
      where ?io1.0 = "\<lparr>io_open = False, io_writes = [], io_fsync = False\<rparr>" and ub = "\<lambda>_. 0" and io = "io_fine 0"]
  show ?thesis by (simp add: height_def) blast
qed

text \<open>
  C21. A mined block of which the append has written all but the line break is reported as committed
  and is there after a restart; but the next block, committed and appended without any error, is
  glued to that line.  The next boot succeeds and comes back without it.
\<close>

theorem torn_append_loses_next:
  assumes reach: "chain_reach vf (cfg_difficulty cfg) (node_reward cfg) t c" and now: "t \<le> now_s" "clock_ok now_s"
    and n: "n = \<lparr>nd_cfg = cfg, nd_file = Some (file_of (ch_blocks c)), nd_chain = c\<rparr>"
    and torn: "commitBlock vf io1 n b1 now_s = Some (OK, n1)"
      "io_open io1" "io_writes io1 = [W_N (length (to_json_line b1)), W_ERR]"
    and kept: "commitBlock vf (io_fine k) n1 b2 now_s = Some (OK, n2)" "length (block_line b2) \<le> k"
    and small: "list_all block_small (ch_blocks c @ [b1])" "block_widths b1"
    and valid: "validateChain vf (nd_chain n1) now_s = OK"
  shows "ch_blocks (nd_chain n2) = ch_blocks c @ [b1, b2] \<and>
    boot vf ub picojson io cfg (nd_file n2) now_s = Some (Returns (boot_ok, n2\<lparr>nd_chain := nd_chain n1\<rparr>)) \<and>
    ch_blocks (nd_chain n1) = ch_blocks c @ [b1]"
proof -
  obtain w1 where acc1: "tip_accepts vf c b1 now_s w1"
    and n1: "n1 = n\<lparr>nd_chain := appended c b1 w1, nd_file := Some (file_of (ch_blocks c) @ to_json_line b1)\<rparr>"
    using commitBlock_OK [OF torn(1)] append_torn [OF torn(2,3), of "file_of (ch_blocks c)"] n by auto
  obtain w2 where n2: "n2 = n1\<lparr>nd_chain := appended (appended c b1 w1) b2 w2,
      nd_file := Some (file_of (ch_blocks c) @ to_json_line b1 @ block_line b2)\<rparr>"
    using commitBlock_OK [OF kept(1)] append_fine [OF kept(2), of "file_of (ch_blocks c) @ to_json_line b1"] n1 by auto
  have "connectBlock vf c b1 now_s = (OK, appended c b1 w1)" using acc1 connectBlock_OK_iff by blast
  then have "chain_reach vf (cfg_difficulty cfg) (node_reward cfg) now_s (appended c b1 w1)"
    using reach_connect [OF reach now small(2)] by simp
  from boot_loaded [OF this order.refl now(2)] show ?thesis
    using valid load_torn(2) [OF small(1)] line_nonempty [of b1] n n1 n2 by simp
qed

theorem torn_append_loses_next_witness:
  "let f = file_of [genesisBlock] @ to_json_line empty_block @ block_line second_block in
   boot any_sig (\<lambda>_. 0) picojson (io_fine 0) default_config (Some f) 1704067202 =
     Some (Returns (boot_ok, \<lparr>nd_cfg = default_config, nd_file = Some f, nd_chain = first_chain\<rparr>))"
proof -
  let ?n = "\<lparr>nd_cfg = default_config, nd_file = Some (file_of (ch_blocks (new_chain 0 0))), nd_chain = new_chain 0 0\<rparr>"
  let ?io = "\<lparr>io_open = True, io_writes = [W_N (length (to_json_line empty_block)), W_ERR], io_fsync = True\<rparr>"
  let ?n1 = "?n\<lparr>nd_chain := first_chain, nd_file := Some (file_of [genesisBlock] @ to_json_line empty_block)\<rparr>"
  let ?n2 = "?n1\<lparr>nd_chain := second_chain, nd_file := Some (file_of [genesisBlock] @ to_json_line empty_block @ block_line second_block)\<rparr>"
  have 1: "commitBlock any_sig ?io ?n empty_block 1704067202 = Some (OK, ?n1)"
    using sample_connects(1) append_torn [of ?io empty_block "file_of [genesisBlock]"]
    by (simp add: commitBlock_def node_append_def)
  have 2: "commitBlock any_sig (io_fine (length (block_line second_block))) ?n1 second_block 1704067202 = Some (OK, ?n2)"
    using sample_connects(2) append_fine [OF order.refl, of second_block "file_of [genesisBlock] @ to_json_line empty_block"]
    by (simp add: commitBlock_def node_append_def)
  have reach: "chain_reach any_sig 0 0 1704067202 first_chain"
    using reach_connect [OF reach_new, of 1704067202 1704067202 empty_block any_sig 0 0] sample_connects(1) clock_2024(1)
    by (simp add: empty_block_def block_widths_def header_widths_def)
  have "supply_matches first_chain"
    by (simp add: supply_matches_def balance_sum_of_supply GENESIS_SUPPLY_def)
  then have "validateChain any_sig (nd_chain ?n1) 1704067202 = OK"
    using validate_reached [OF reach order.refl clock_2024(1)] by simp
  moreover have "list_all block_small (ch_blocks (new_chain 0 0) @ [empty_block])"
    by (simp add: genesis_small sample_blocks_small)
  moreover have "block_widths empty_block" by (simp add: empty_block_def block_widths_def header_widths_def)
  ultimately have "boot any_sig (\<lambda>_. 0) picojson (io_fine 0) default_config (nd_file ?n2) 1704067202 =
      Some (Returns (boot_ok, ?n2\<lparr>nd_chain := nd_chain ?n1\<rparr>))"
    using torn_append_loses_next [OF sample_node clock_2024(1) refl 1 _ _ 2 order.refl] by simp
  then show ?thesis by (simp add: Let_def)
qed

end
