(* ===== verification/Rpc.thy ===== *)
theory Rpc
  imports Node
begin

text \<open>
  The request surface of a node (\<^verbatim>\<open>rpc/rpc.hpp\<close>, \<^verbatim>\<open>rpc/rpc.cpp\<close>): the pure dispatch over method,
  target and body, and the field extractors the command line uses on a response.  The read closures
  are the fields of \<open>rpc_context\<close>; the pool is the state, with its own account lookup.
\<close>

section \<open>Field extractors\<close>

text \<open>The exception of the parser goes through.\<close>

definition json_get_string :: "json_parser \<Rightarrow> string \<Rightarrow> string \<Rightarrow> string option raised" where
  "json_get_string parse json key =
     map_raised (\<lambda>v. case v of
        Some (JObj obj) \<Rightarrow> (case map_of obj key of Some (JStr s) \<Rightarrow> Some s | _ \<Rightarrow> None)
      | _ \<Rightarrow> None) (parse json)"

text \<open>A double that is a NaN fails the comparison; the finite ones and infinity are as in the block reader.\<close>

definition json_get_u64 :: "(double \<Rightarrow> u64) \<Rightarrow> json_parser \<Rightarrow> string \<Rightarrow> string \<Rightarrow> u64 option raised" where
  "json_get_u64 ub parse json key =
     map_raised (\<lambda>v. case v of
        Some (JObj obj) \<Rightarrow>
          (case map_of obj key of
             Some (JInt x) \<Rightarrow> if sint x \<ge> 0 then Some x else None
           | Some (JDouble d) \<Rightarrow>
               (case d of Finite m e \<Rightarrow> if m \<ge> 0 then Some (cast_u64 ub d) else None | Infinite \<Rightarrow> Some (cast_u64 ub d))
           | _ \<Rightarrow> None)
      | _ \<Rightarrow> None) (parse json)"

section \<open>Responses\<close>

record tip_info =
  ti_index :: u64
  ti_blockHash :: "byte list"
  ti_prevHash :: "byte list"
  ti_cumWork :: u128
  ti_difficulty :: u32
  ti_timestamp :: u64

record rpc_context =
  rc_account :: "address \<Rightarrow> account_state"
  rc_tip :: tip_info

record rpc_response =
  rr_status :: int
  rr_body :: string

definition json_error :: "string \<Rightarrow> string \<Rightarrow> string" where
  "json_error token detail =
     ''{'' @ quoted ''error'' @ '':'' @ quoted token @ '','' @ quoted ''detail'' @ '':'' @ quoted detail @ ''}''"

text \<open>The digits of a 128-bit value, least significant first, and their reverse.\<close>

function u128_digits :: "u128 \<Rightarrow> string" where
  "u128_digits v = (if v > 0 then digit_char (unat (v mod 10)) # u128_digits (v div 10) else [])"
  by pat_completeness auto
termination
proof (relation "measure unat")
  fix v :: u128 assume "v > 0"
  then have "0 < unat v" by (simp add: word_less_nat_alt)
  then show "(v div 10, v) \<in> measure unat" by (simp add: unat_div)
qed simp

declare u128_digits.simps [simp del]

definition u128_to_string :: "u128 \<Rightarrow> string" where
  "u128_to_string v = (if v = 0 then ''0'' else rev (u128_digits v))"

definition trim_char :: "char \<Rightarrow> bool" where
  "trim_char c \<longleftrightarrow> c = CHR 0x20 \<or> c = CHR 0x09 \<or> c = CHR 0x0D \<or> c = CHR 0x0A"

text \<open>The first loop advances over the leading blanks, the second stops at the latest where it did.\<close>

definition trim :: "string \<Rightarrow> string" where
  "trim s = rev (dropWhile trim_char (rev (dropWhile trim_char s)))"

fun admit_status :: "admit_result \<Rightarrow> int" where
  "admit_status A_OK = 200"
| "admit_status A_STALE_NONCE = 409"
| "admit_status A_DUPLICATE = 409"
| "admit_status A_PENDING_SLOT_BUSY = 409"
| "admit_status A_MEMPOOL_FULL = 503"
| "admit_status A_UNPARSEABLE = 400"
| "admit_status A_BAD_ADDR = 400"
| "admit_status A_BAD_SIG = 400"
| "admit_status A_INSUFFICIENT_FUNDS = 400"

definition submit_tx :: "verifier \<Rightarrow> (address \<Rightarrow> account_state) \<Rightarrow> string \<Rightarrow> mempool \<Rightarrow> rpc_response \<times> mempool" where
  "submit_tx vf lookup body m =
     (case from_hex kTxnSize (trim body) of
        None \<Rightarrow> (\<lparr>rr_status = 400, rr_body = json_error ''PARSE_ERROR'' ''body must be a 153-byte hex-encoded txn''\<rparr>, m)
      | Some bytes \<Rightarrow>
          let (ar, m) = admit_bytes vf lookup m bytes
          in if ar = A_OK
               then (\<lparr>rr_status = 200,
                      rr_body = ''{'' @ quoted ''txid'' @ '':'' @ quoted (to_hex (sha256 bytes)) @ ''}''\<rparr>, m)
             else
               let token = (if ar = A_UNPARSEABLE then ''PARSE_ERROR'' else admit_result_name ar)
               in (\<lparr>rr_status = admit_status ar, rr_body = json_error token ''rejected by admit()''\<rparr>, m))"

definition account_resp :: "string \<Rightarrow> rpc_context \<Rightarrow> mempool \<Rightarrow> rpc_response" where
  "account_resp addr_hex ctx m =
     (case from_hex 20 addr_hex of
        None \<Rightarrow> \<lparr>rr_status = 400, rr_body = json_error ''BAD_REQUEST'' ''address must be 40 hex chars''\<rparr>
      | Some a \<Rightarrow>
          let acc = rc_account ctx a;
              confirmed = acc_nonce acc;
              pending = confirmed + (if hasPending m a then 1 else 0)
          in \<lparr>rr_status = 200,
              rr_body = ''{'' @ quoted ''address'' @ '':'' @ quoted (to_hex a) @
                '','' @ quoted ''balance'' @ '':'' @ to_string (unat (acc_balance acc)) @
                '','' @ quoted ''confirmedNonce'' @ '':'' @ to_string (unat confirmed) @
                '','' @ quoted ''pendingNonce'' @ '':'' @ to_string (unat pending) @ ''}''\<rparr>)"

definition tip_resp :: "rpc_context \<Rightarrow> rpc_response" where
  "tip_resp ctx =
     (let t = rc_tip ctx
      in \<lparr>rr_status = 200,
          rr_body = ''{'' @ quoted ''index'' @ '':'' @ to_string (unat (ti_index t)) @
            '','' @ quoted ''blockHash'' @ '':'' @ quoted (to_hex (ti_blockHash t)) @
            '','' @ quoted ''prevHash'' @ '':'' @ quoted (to_hex (ti_prevHash t)) @
            '','' @ quoted ''cumWork'' @ '':'' @ quoted (u128_to_string (ti_cumWork t)) @
            '','' @ quoted ''difficulty'' @ '':'' @ to_string (unat (ti_difficulty t)) @
            '','' @ quoted ''timestamp'' @ '':'' @ to_string (unat (ti_timestamp t)) @ ''}''\<rparr>)"

definition handle_request :: "verifier \<Rightarrow> (address \<Rightarrow> account_state) \<Rightarrow> rpc_context \<Rightarrow>
    string \<Rightarrow> string \<Rightarrow> string \<Rightarrow> mempool \<Rightarrow> rpc_response \<times> mempool" where
  "handle_request vf lookup ctx meth target body m =
     (let path = takeWhile (\<lambda>c. c \<noteq> CHR ''?'') target
      in if meth = ''POST'' \<and> path = ''/tx'' then submit_tx vf lookup body m
         else if meth = ''GET'' \<and> path = ''/tip'' then (tip_resp ctx, m)
         else if meth = ''GET'' \<and> take (length ''/account/'') path = ''/account/''
           then (account_resp (drop (length ''/account/'') path) ctx m, m)
         else (\<lparr>rr_status = 404, rr_body = json_error ''NOT_FOUND'' ''unknown route''\<rparr>, m))"

section \<open>Facts on the pieces\<close>

lemma rev_u128_digits: "v \<noteq> 0 \<Longrightarrow> rev (u128_digits v) = to_string (unat v)"
proof (induction v rule: u128_digits.induct)
  case (1 v)
  have pos: "v > 0" using 1(2) by (simp add: word_gt_0)
  have d: "unat (v mod 10) = unat v mod 10" "unat (v div 10) = unat v div 10"
    by (simp_all add: unat_mod unat_div)
  show ?case
  proof (cases "v div 10 = 0")
    case True
    then have "unat v div 10 = 0" using d(2) by (metis unat_0)
    then have "unat v < 10" by simp
    moreover have "u128_digits 0 = []" by (subst u128_digits.simps) simp
    ultimately show ?thesis
      using pos True d(1) by (subst u128_digits.simps, subst to_string.simps) simp
  next
    case False
    then have "unat v div 10 \<noteq> 0" using d(2) by (metis unat_eq_zero)
    then have "\<not> unat v < 10" by simp
    then show ?thesis
      using pos d 1(1) [OF pos False] by (subst u128_digits.simps, subst to_string.simps) simp
  qed
qed

lemma u128_to_string_eq: "u128_to_string v = to_string (unat v)"
proof (cases "v = 0")
  case True
  have "to_string 0 = ''0''" by code_simp
  with True show ?thesis by (simp add: u128_to_string_def)
next
  case False
  then show ?thesis by (simp add: u128_to_string_def rev_u128_digits)
qed

lemma kHex_not_trimmed: "n < 16 \<Longrightarrow> \<not> trim_char (kHex ! n) \<and> kHex ! n \<noteq> CHR ''?''"
  by (drule less16_cases) (auto simp: kHex_def trim_char_def)

lemma to_hex_not_trimmed: "c \<in> set (to_hex bs) \<Longrightarrow> \<not> trim_char c \<and> c \<noteq> CHR ''?''"
  by (induction bs) (auto simp: kHex_not_trimmed nibbles_bound)

lemma dropWhile_all: "list_all P xs \<Longrightarrow> dropWhile P (xs @ ys) = dropWhile P ys"
  by (induction xs) auto

lemma dropWhile_none: "(\<And>c. c \<in> set xs \<Longrightarrow> \<not> P c) \<Longrightarrow> dropWhile P xs = xs"
  by (cases xs) auto

lemma trim_padded:
  assumes "list_all trim_char pre" "list_all trim_char post" "\<And>c. c \<in> set s \<Longrightarrow> \<not> trim_char c"
  shows "trim (pre @ s @ post) = s"
proof (cases "s = []")
  case True
  then show ?thesis
    using assms(1,2) by (auto simp: trim_def list_all_iff dest: set_dropWhileD)
next
  case False
  then have "dropWhile trim_char (s @ post) = s @ post" using assms(3) by (cases s) auto
  moreover have "dropWhile trim_char (rev s) = rev s" using assms(3) by (intro dropWhile_none) simp
  ultimately show ?thesis
    using assms(1,2) by (simp add: trim_def dropWhile_all list_all_rev)
qed

lemma to_hex_trim: "list_all trim_char pre \<Longrightarrow> list_all trim_char post \<Longrightarrow> trim (pre @ to_hex bs @ post) = to_hex bs"
  using to_hex_not_trimmed by (intro trim_padded) auto

definition account_json :: "address \<Rightarrow> account_state \<Rightarrow> u64 \<Rightarrow> json" where
  "account_json a acc pending = JObj [(''address'', JStr (to_hex a)), (''balance'', JInt (acc_balance acc)),
     (''confirmedNonce'', JInt (acc_nonce acc)), (''pendingNonce'', JInt pending)]"

definition txid_json :: "byte list \<Rightarrow> json" where
  "txid_json i = JObj [(''txid'', JStr (to_hex i))]"

definition next_nonce :: "(address \<Rightarrow> account_state) \<Rightarrow> mempool \<Rightarrow> address \<Rightarrow> u64" where
  "next_nonce look m a = acc_nonce (look a) + (if hasPending m a then 1 else 0)"

lemma account_route:
  assumes "length a = 20"
  shows "handle_request vf lookup ctx ''GET'' (''/account/'' @ to_hex a) body m =
    (\<lparr>rr_status = 200, rr_body = render (account_json a (rc_account ctx a) (next_nonce (rc_account ctx) m a))\<rparr>, m)"
proof -
  have q: "takeWhile (\<lambda>c. c \<noteq> CHR ''?'') (to_hex a) = to_hex a"
    using to_hex_not_trimmed by (subst takeWhile_eq_all_conv) blast
  show ?thesis
    using assms by (simp add: q handle_request_def account_resp_def account_json_def next_nonce_def Let_def)
qed

lemma submit_route:
  assumes "wf_txn t" "list_all trim_char pre" "list_all trim_char post"
  shows "handle_request vf lookup ctx ''POST'' ''/tx'' (pre @ to_hex (serialize_txn t) @ post) m =
    (let (ar, m') = admit vf lookup m t
     in (if ar = A_OK then \<lparr>rr_status = 200, rr_body = render (txid_json (txid t))\<rparr>
         else \<lparr>rr_status = admit_status ar,
               rr_body = json_error (if ar = A_UNPARSEABLE then ''PARSE_ERROR'' else admit_result_name ar) ''rejected by admit()''\<rparr>, m'))"
proof -
  have "from_hex kTxnSize (trim (pre @ to_hex (serialize_txn t) @ post)) = Some (serialize_txn t)"
    using assms by (simp add: to_hex_trim length_serialize_txn wf_txn_def)
  moreover have "deserialize_txn (serialize_txn t) = Some t" using assms(1) by (rule txn_codec.dec_enc)
  ultimately show ?thesis
    by (simp add: handle_request_def submit_tx_def admit_bytes_def txid_json_def txid_def Let_def split: prod.splits)
qed

end
