(* ===== verification/Http.thy ===== *)
theory Http
  imports Rpc
begin

text \<open>
  The HTTP layer on both ends (\<^verbatim>\<open>rpc/http_server.cpp\<close>, \<^verbatim>\<open>rpc/http_client.cpp\<close>): the request
  reader and the response writer of the server, and the client.  The bytes of a connection arrive
  as the events of \<open>Sys\<close>; the route handler is an argument with its own state.

  The lemmas prove that what the client sends is what the handler gets, and that what the handler
  answers is what the client returns, for every chunking of the two byte streams.
\<close>

section \<open>Strings\<close>

text \<open>\<^verbatim>\<open>std::string::find\<close> of a string; \<open>None\<close> is \<^verbatim>\<open>npos\<close>.\<close>

fun find_sub :: "string \<Rightarrow> string \<Rightarrow> nat option" where
  "find_sub p [] = (if p = [] then Some 0 else None)"
| "find_sub p (c # cs) = (if take (length p) (c # cs) = p then Some 0 else map_option Suc (find_sub p cs))"

definition CRLF :: string where "CRLF = [CHR 0x0D, CHR 0x0A]"

definition tolower :: "char \<Rightarrow> char" where
  "tolower c = (if (65 :: nat) \<le> of_char c \<and> of_char c \<le> (90 :: nat) then char_of (of_char c + (32 :: nat)) else c)"

definition int_to_string :: "int \<Rightarrow> string" where
  "int_to_string n = (if n < 0 then CHR ''-'' # to_string (nat (- n)) else to_string (nat n))"

section \<open>The server\<close>

definition kMaxRequestBytes :: nat where "kMaxRequestBytes = 1048576"

definition reason_phrase :: "int \<Rightarrow> string" where
  "reason_phrase status =
     (if status = 200 then ''OK'' else if status = 400 then ''Bad Request'' else if status = 404 then ''Not Found''
      else if status = 409 then ''Conflict'' else if status = 503 then ''Service Unavailable'' else ''Error'')"

text \<open>
  The loop to the end of the headers: its position, or \<open>None\<close> when the reader gives up, then what
  has been read.
\<close>

function read_headers :: "char read_event list \<Rightarrow> string \<Rightarrow>
    (nat option \<times> string \<times> char read_event list) option" where
  "read_headers evs req =
     (case recv 4096 evs of
        None \<Rightarrow> None
      | Some (Got c, evs) \<Rightarrow>
          let req = req @ c
          in if length req > kMaxRequestBytes then Some (None, req, evs)
             else (case find_sub (CRLF @ CRLF) req of
                     None \<Rightarrow> read_headers evs req
                   | Some header_end \<Rightarrow> Some (Some header_end, req, evs))
      | Some (_, evs) \<Rightarrow> Some (None, req, evs))"
  by pat_completeness auto
termination
  by (relation "measure (\<lambda>(evs, req). stream_size evs)") (auto dest: recv_size)

declare read_headers.simps [simp del]

definition content_length :: "string \<Rightarrow> u64" where
  "content_length headers =
     (let lower = map tolower headers
      in case find_sub ''content-length:'' lower of
           None \<Rightarrow> 0
         | Some cl \<Rightarrow>
             let rest = dropWhile (\<lambda>c. c = CHR 0x20 \<or> c = CHR 0x09) (drop (cl + length ''content-length:'') lower)
             in fold (\<lambda>c v. v * 10 + word_of_nat (digit_val c)) (takeWhile is_digit rest) 0)"

text \<open>The loop over the rest of the body.\<close>

function read_body :: "nat \<Rightarrow> char read_event list \<Rightarrow> string \<Rightarrow>
    (bool \<times> string \<times> char read_event list) option" where
  "read_body need evs req =
     (if need > 0 then
        (case recv 4096 evs of
           None \<Rightarrow> None
         | Some (Got c, evs) \<Rightarrow>
             let req = req @ c
             in if length req > kMaxRequestBytes then Some (False, req, evs)
                else read_body (need - min need (length c)) evs req
         | Some (_, evs) \<Rightarrow> Some (True, req, evs))
      else Some (True, req, evs))"
  by pat_completeness auto
termination
  by (relation "measure (\<lambda>(need, evs, req). stream_size evs)") (auto dest: recv_size)

declare read_body.simps [simp del]

definition read_request :: "char read_event list \<Rightarrow> (bool \<times> string) option" where
  "read_request evs =
     (case read_headers evs [] of
        None \<Rightarrow> None
      | Some (None, req, evs) \<Rightarrow> Some (False, req)
      | Some (Some header_end, req, evs) \<Rightarrow>
          let cl = unat (content_length (take header_end req));
              body_have = length req - (header_end + 4);
              need = (if cl > body_have then cl - body_have else 0)
          in map_option (\<lambda>(ok, req, evs). (ok, req)) (read_body need evs req))"

text \<open>
  The write loop; its result is discarded.  The plain \<^verbatim>\<open>write\<close> to a closed connection (\<open>W_PIPE\<close>) ends the
  process.
\<close>

definition http_write_all :: "write_result list \<Rightarrow> string \<Rightarrow> string option" where
  "http_write_all ws data = map_option snd (write_loop ws data [])"

definition http_response_text :: "rpc_response \<Rightarrow> string" where
  "http_response_text resp =
     ''HTTP/1.1 '' @ int_to_string (rr_status resp) @ '' '' @ reason_phrase (rr_status resp) @ CRLF @
     ''Content-Type: application/json'' @ CRLF @ ''Content-Length: '' @ to_string (length (rr_body resp)) @ CRLF @
     ''Connection: close'' @ CRLF @ CRLF @ rr_body resp"

text \<open>What goes out on the connection, and the state of the handler after it.\<close>

definition serve_connection :: "(string \<Rightarrow> string \<Rightarrow> string \<Rightarrow> 's \<Rightarrow> rpc_response \<times> 's) \<Rightarrow>
    char read_event list \<Rightarrow> write_result list \<Rightarrow> 's \<Rightarrow> (string \<times> 's) option" where
  "serve_connection handler evs ws s =
     (case read_request evs of
        None \<Rightarrow> None
      | Some (False, req) \<Rightarrow> Some ([], s)
      | Some (True, req) \<Rightarrow>
          let line = (case find_sub CRLF req of None \<Rightarrow> req | Some line_end \<Rightarrow> take line_end req);
              (resp, s) =
                (case find_sub '' '' line of
                   None \<Rightarrow> (\<lparr>rr_status = 400, rr_body = json_error ''BAD_REQUEST'' ''malformed request line''\<rparr>, s)
                 | Some sp1 \<Rightarrow>
                     (case find_sub '' '' (drop (sp1 + 1) line) of
                        None \<Rightarrow> (\<lparr>rr_status = 400, rr_body = json_error ''BAD_REQUEST'' ''malformed request line''\<rparr>, s)
                      | Some n \<Rightarrow>
                          let body = (case find_sub (CRLF @ CRLF) req of None \<Rightarrow> [] | Some h \<Rightarrow> drop (h + 4) req)
                          in handler (take sp1 line) (take n (drop (sp1 + 1) line)) body s))
          in map_option (\<lambda>out. (out, s)) (http_write_all ws (http_response_text resp)))"

section \<open>The client\<close>

record http_result =
  hr_ok :: bool
  hr_status :: int
  hr_body :: string

text \<open>The outcomes of name resolution, socket and connection, of the writes, and what arrives.\<close>

record http_net =
  hn_resolves :: bool
  hn_socket :: bool
  hn_connects :: bool
  hn_writes :: "write_result list"
  hn_reads :: "char read_event list"

definition http_request_text :: "string \<Rightarrow> string \<Rightarrow> string \<Rightarrow> string \<Rightarrow> string" where
  "http_request_text meth host path body =
     meth @ '' '' @ path @ '' HTTP/1.1'' @ CRLF @ ''Host: '' @ host @ CRLF @ ''Connection: close'' @ CRLF @
     ''Content-Type: application/json'' @ CRLF @ ''Content-Length: '' @ to_string (length body) @ CRLF @ CRLF @ body"

text \<open>
  The write loop of the client gives up on every error and on a write of nothing; its \<^verbatim>\<open>write\<close>, too, ends
  the process if the other end is closed.
\<close>

fun send_all :: "write_result list \<Rightarrow> string \<Rightarrow> string \<Rightarrow> (bool \<times> string) option" where
  "send_all ws [] sent = Some (True, sent)"
| "send_all [] rest sent = None"
| "send_all (W_N n # ws) rest sent =
     (if n = 0 then Some (False, sent) else send_all ws (drop n rest) (sent @ take n rest))"
| "send_all (W_PIPE # ws) rest sent = None"
| "send_all (_ # ws) rest sent = Some (False, sent)"

function read_all :: "char read_event list \<Rightarrow> string \<Rightarrow> string option" where
  "read_all evs resp =
     (case recv 4096 evs of
        None \<Rightarrow> None
      | Some (Got c, evs) \<Rightarrow> read_all evs (resp @ c)
      | Some (_, evs) \<Rightarrow> Some resp)"
  by pat_completeness auto
termination
  by (relation "measure (\<lambda>(evs, resp). stream_size evs)") (auto dest: recv_size)

declare read_all.simps [simp del]

definition http_failed :: http_result where
  "http_failed = \<lparr>hr_ok = False, hr_status = 0, hr_body = []\<rparr>"

text \<open>
  The status is an \<^verbatim>\<open>int\<close>; a run of digits that overflows it is undefined in C++ and its value here
  is the unbounded one.
\<close>

definition parse_response :: "string \<Rightarrow> http_result" where
  "parse_response resp =
     (case find_sub '' '' resp of
        None \<Rightarrow> http_failed
      | Some sp1 \<Rightarrow>
          \<lparr>hr_ok = True,
           hr_status = fold (\<lambda>c v. v * 10 + int (digit_val c)) (takeWhile is_digit (drop (sp1 + 1) resp)) 0,
           hr_body = (case find_sub (CRLF @ CRLF) resp of None \<Rightarrow> [] | Some h \<Rightarrow> drop (h + 4) resp)\<rparr>)"

text \<open>The result and the bytes that went out.\<close>

definition http_request :: "http_net \<Rightarrow> string \<Rightarrow> string \<Rightarrow> string \<Rightarrow> string \<Rightarrow> (http_result \<times> string) option" where
  "http_request net meth host path body =
     (if \<not> hn_resolves net \<or> \<not> hn_socket net \<or> \<not> hn_connects net then Some (http_failed, [])
      else case send_all (hn_writes net) (http_request_text meth host path body) [] of
             None \<Rightarrow> None
           | Some (False, sent) \<Rightarrow> Some (http_failed, sent)
           | Some (True, sent) \<Rightarrow>
               map_option (\<lambda>resp. (parse_response resp, sent)) (read_all (hn_reads net) []))"

section \<open>Searching\<close>

lemma find_sub_skip: "c \<notin> set w \<Longrightarrow> find_sub (c # p) (w @ ys) = map_option ((+) (length w)) (find_sub (c # p) ys)"
  by (induction w; cases "find_sub (c # p) ys") auto

lemma find_sub_here: "p \<noteq> [] \<Longrightarrow> find_sub p (p @ ys) = Some 0"
  by (cases p) simp_all

lemma find_sub_first: "c \<notin> set w \<Longrightarrow> find_sub (c # p) (w @ c # p @ ys) = Some (length w)"
  using find_sub_skip [of c w p "(c # p) @ ys"] find_sub_here [of "c # p" ys] by simp

lemma find_sub_le: "find_sub p s = Some i \<Longrightarrow> i + length p \<le> length s"
proof (induction s arbitrary: i)
  case (Cons c cs)
  have "take (length p) (c # cs) = p \<Longrightarrow> length p \<le> length (c # cs)"
    by (metis length_take min.cobounded1)
  with Cons show ?case by (auto split: if_splits)
qed (auto split: if_splits)

lemma find_sub_extend: "find_sub p xs = Some j \<Longrightarrow> find_sub p (xs @ ys) = Some j"
proof (induction xs arbitrary: j)
  case Nil
  then show ?case by (cases ys) (auto split: if_splits)
next
  case (Cons x xs)
  have "length p \<le> length (x # xs)" using find_sub_le [OF Cons.prems] by simp
  then have "take (length p) (x # xs @ ys) = take (length p) (x # xs)"
    by (metis append_Cons take_append append.right_neutral diff_is_0_eq' take0)
  with Cons show ?case by (auto split: if_splits)
qed

text \<open>A pattern that ends in its only \<open>d\<close> is looked for at the places where a \<open>d\<close> is.\<close>

lemma take_upto_first:
  assumes "d \<notin> set p" "d \<notin> set w" "take (length (p @ [d])) (w @ d # ys) = p @ [d]"
  shows "p = w"
proof -
  have "p @ d # drop (length (p @ [d])) (w @ d # ys) = w @ d # ys"
    using append_take_drop_id [of "length (p @ [d])" "w @ d # ys"] unfolding assms(3) by simp
  then have "takeWhile (\<lambda>c. c \<noteq> d) (p @ d # drop (length (p @ [d])) (w @ d # ys)) = takeWhile (\<lambda>c. c \<noteq> d) (w @ d # ys)"
    by (rule arg_cong)
  moreover have "takeWhile (\<lambda>c. c \<noteq> d) (v @ d # z) = v" if "d \<notin> set v" for v z
    using that by (subst takeWhile_append2) auto
  ultimately show ?thesis using assms(1,2) by simp
qed

lemma find_sub_past:
  "d \<notin> set w \<Longrightarrow> d \<notin> set p \<Longrightarrow> \<not> suffix p w \<Longrightarrow>
   find_sub (p @ [d]) (w @ d # ys) = map_option ((+) (Suc (length w))) (find_sub (p @ [d]) ys)"
proof (induction w)
  case Nil
  then show ?case
    using take_upto_first [of d p "[]" ys] by (auto intro!: option.map_cong)
next
  case (Cons x w)
  then have no: "take (length (p @ [d])) ((x # w) @ d # ys) \<noteq> p @ [d]"
    using take_upto_first [of d p "x # w" ys] by auto
  have IH: "find_sub (p @ [d]) (w @ d # ys) = map_option ((+) (Suc (length w))) (find_sub (p @ [d]) ys)"
    by (rule Cons.IH) (use Cons.prems in \<open>auto simp: suffix_Cons\<close>)
  have "find_sub (p @ [d]) ((x # w) @ d # ys) = map_option Suc (find_sub (p @ [d]) (w @ d # ys))"
    using no by simp
  then show ?case
    unfolding IH by (cases "find_sub (p @ [d]) ys") simp_all
qed

lemma find_sub_hit:
  "d \<notin> set (w @ p) \<Longrightarrow> find_sub (p @ [d]) (w @ p @ d # ys) = Some (length w)"
proof (induction w)
  case Nil
  then show ?case using find_sub_here [of "p @ [d]" ys] by simp
next
  case (Cons x w)
  then have "take (length (p @ [d])) ((x # w @ p) @ d # ys) \<noteq> p @ [d]"
    using take_upto_first [of d p "x # w @ p" ys] by (auto dest: arg_cong [where f = length])
  then have "find_sub (p @ [d]) ((x # w) @ p @ d # ys) = map_option Suc (find_sub (p @ [d]) (w @ p @ d # ys))"
    by simp
  then show ?case using Cons by simp
qed

text \<open>A block of header lines ends at the first empty line.\<close>

definition header_block :: "string list \<Rightarrow> string" where
  "header_block ls = concat (map (\<lambda>l. l @ CRLF) ls)"

lemma find_sub_line:
  "CHR 0x0D \<notin> set l \<Longrightarrow> ys \<noteq> [] \<Longrightarrow> hd ys \<noteq> CHR 0x0D \<Longrightarrow>
   find_sub (CRLF @ CRLF) (l @ CRLF @ ys) = map_option ((+) (length l + 2)) (find_sub (CRLF @ CRLF) ys)"
  using find_sub_skip [of "CHR 0x0D" l "[CHR 0x0A] @ CRLF" "CRLF @ ys"]
  by (cases ys) (auto simp: CRLF_def option.map_comp o_def add.assoc)

lemma drop_headers: "2 \<le> length hb \<Longrightarrow> drop (length hb - 2 + 4) (hb @ CRLF @ body) = body"
proof -
  assume "2 \<le> length hb"
  then have "length hb - 2 + 4 = length (hb @ CRLF)" by (simp add: CRLF_def)
  moreover have "drop (length (hb @ CRLF)) ((hb @ CRLF) @ body) = body" by (rule drop_append_exact) (rule refl)
  ultimately show ?thesis by (simp only: append_assoc)
qed

lemma find_headers_end:
  "\<forall>l \<in> set ls. l \<noteq> [] \<and> CHR 0x0D \<notin> set l \<Longrightarrow> ls \<noteq> [] \<Longrightarrow>
   find_sub (CRLF @ CRLF) (header_block ls @ CRLF @ body) = Some (length (header_block ls) - 2)"
proof (induction ls)
  case (Cons l ls)
  show ?case
  proof (cases ls)
    case Nil
    then show ?thesis
      using Cons.prems find_sub_first [of "CHR 0x0D" l "[CHR 0x0A] @ CRLF" body]
      by (simp add: header_block_def CRLF_def)
  next
    case (Cons l2 ls2)
    have hd: "header_block ls @ CRLF @ body \<noteq> []" "hd (header_block ls @ CRLF @ body) \<noteq> CHR 0x0D"
      using Cons Cons.prems by (cases l2; auto simp: header_block_def)+
    have len: "2 \<le> length (header_block ls)" using Cons by (simp add: header_block_def CRLF_def)
    have "find_sub (CRLF @ CRLF) (header_block (l # ls) @ CRLF @ body) =
        map_option ((+) (length l + 2)) (Some (length (header_block ls) - 2))"
      using find_sub_line [OF _ hd, of l] Cons.IH Cons.prems Cons by (simp add: header_block_def)
    then show ?thesis using len by (simp add: header_block_def CRLF_def)
  qed
qed simp

section \<open>What the server reads\<close>

lemma read_headers_data:
  "data_only evs \<Longrightarrow> find_sub (CRLF @ CRLF) req = None \<Longrightarrow>
   find_sub (CRLF @ CRLF) (req @ stream_of evs) = Some k \<Longrightarrow>
   length (req @ stream_of evs) \<le> kMaxRequestBytes \<Longrightarrow>
   \<exists>req' evs'. read_headers evs req = Some (Some k, req', evs') \<and> req' @ stream_of evs' = req @ stream_of evs \<and>
     data_only evs' \<and> find_sub (CRLF @ CRLF) req' = Some k"
proof (induction evs req rule: read_headers.induct)
  case (1 evs req)
  have "stream_of evs \<noteq> []" using 1(3,4) by auto
  then obtain c evs' where r: "recv 4096 evs = Some (Got c, evs')" "stream_of evs = c @ stream_of evs'"
      "c \<noteq> []" "data_only evs'"
    using recv_data [OF 1(2), of 4096] by auto
  have len: "\<not> length (req @ c) > kMaxRequestBytes" using 1(5) r(2) by simp
  show ?case
  proof (cases "find_sub (CRLF @ CRLF) (req @ c)")
    case None
    then have "\<exists>req' evs''. read_headers evs' (req @ c) = Some (Some k, req', evs'') \<and>
        req' @ stream_of evs'' = (req @ c) @ stream_of evs' \<and> data_only evs'' \<and> find_sub (CRLF @ CRLF) req' = Some k"
      by (intro 1(1) [OF r(1) refl refl refl len]) (use 1(4,5) r in simp_all)
    then show ?thesis using r(1,2) len None by (subst read_headers.simps) simp
  next
    case (Some j)
    then have "j = k" using find_sub_extend [OF Some, of "stream_of evs'"] 1(4) r(2) by simp
    then show ?thesis using r len Some by (subst read_headers.simps) simp
  qed
qed

lemma read_body_data:
  "data_only evs \<Longrightarrow> need = length (stream_of evs) \<Longrightarrow> length (req @ stream_of evs) \<le> kMaxRequestBytes \<Longrightarrow>
   \<exists>evs'. read_body need evs req = Some (True, req @ stream_of evs, evs')"
proof (induction need evs req rule: read_body.induct)
  case (1 need evs req)
  show ?case
  proof (cases "need > 0")
    case True
    then have "stream_of evs \<noteq> []" using 1(3) by auto
    then obtain c evs' where r: "recv 4096 evs = Some (Got c, evs')" "stream_of evs = c @ stream_of evs'"
        "c \<noteq> []" "data_only evs'"
      using recv_data [OF 1(2), of 4096] by auto
    have len: "\<not> length (req @ c) > kMaxRequestBytes" using 1(4) r(2) by simp
    have "\<exists>evs''. read_body (need - min need (length c)) evs' (req @ c) = Some (True, (req @ c) @ stream_of evs', evs'')"
      by (intro 1(1) [OF True r(1) refl refl refl len]) (use 1(3,4) r in simp_all)
    then show ?thesis using True r(1,2) len by (subst read_body.simps) simp
  next
    case False
    then show ?thesis using 1(3) by (subst read_body.simps) simp
  qed
qed

text \<open>A token of the request line or the host.\<close>

definition token :: "string \<Rightarrow> bool" where
  "token s \<longleftrightarrow> s \<noteq> [] \<and> CHR 0x0D \<notin> set s \<and> CHR 0x20 \<notin> set s \<and> CHR '':'' \<notin> set s"

definition request_headers :: "string \<Rightarrow> string \<Rightarrow> string \<Rightarrow> nat \<Rightarrow> string list" where
  "request_headers meth host path n =
     [meth @ '' '' @ path @ '' HTTP/1.1'', ''Host: '' @ host, ''Connection: close'',
      ''Content-Type: application/json'', ''Content-Length: '' @ to_string n]"

lemma request_text_headers:
  "http_request_text meth host path body = header_block (request_headers meth host path (length body)) @ CRLF @ body"
  by (simp add: http_request_text_def request_headers_def header_block_def)

lemma to_string_no: "\<not> is_digit c \<Longrightarrow> c \<notin> set (to_string n)"
  using to_string_digits by blast

lemma request_headers_lines:
  assumes "token meth" "token host" "token path"
  shows "\<forall>l \<in> set (request_headers meth host path n). l \<noteq> [] \<and> CHR 0x0D \<notin> set l"
  using assms by (auto simp: request_headers_def token_def is_digit_def dest: to_string_digits)

lemma tolower_colon: "tolower c = CHR '':'' \<longleftrightarrow> c = CHR '':''"
proof (cases "(65 :: nat) \<le> of_char c \<and> of_char c \<le> (90 :: nat)")
  case True
  define n where "n = (of_char c :: nat)"
  have "of_char (tolower c) = (n + 32) mod 256" using True
    by (simp add: tolower_def n_def of_char_of take_bit_nat_def)
  moreover have "(n + 32) mod 256 = n + 32" using True by (simp add: n_def)
  ultimately have "of_char (tolower c) \<noteq> (of_char CHR '':'' :: nat)" using True by (simp add: n_def)
  moreover have "c \<noteq> CHR '':''" using True by auto
  ultimately show ?thesis by metis
qed (auto simp: tolower_def)

lemma tolower_digits: "map tolower (to_string n) = to_string n"
  by (rule map_idI) (auto simp: tolower_def is_digit_def dest!: to_string_digits)

lemma fold_decimal:
  "fold (\<lambda>c v. v * 10 + word_of_nat (digit_val c)) ds 0 = (word_of_nat (dec_val ds) :: 'a::len word)"
  "fold (\<lambda>c v. v * 10 + int (digit_val c)) ds 0 = int (dec_val ds)"
  by (induction ds rule: rev_induct) (simp_all add: dec_val_def)

lemma takeWhile_decimal:
  "ys = [] \<or> \<not> is_digit (hd ys) \<Longrightarrow> takeWhile is_digit (to_string n @ ys) = to_string n"
  using to_string_digits by (cases ys) (auto simp: takeWhile_append)

lemma tolower_words:
  "map tolower '' HTTP/1.1'' = '' http/1.1''" "map tolower ''Host: '' = ''host: ''"
  "map tolower ''Connection: close'' = ''connection: close''"
  "map tolower ''Content-Type: application/json'' = ''content-type: application/json''"
  "map tolower ''Content-Length: '' = ''content-length: ''" "map tolower CRLF = CRLF" "map tolower '' '' = '' ''"
  by code_simp+

lemma content_length_at:
  assumes "map tolower headers = t" "find_sub ''content-length:'' t = Some at"
    and "drop (at + length ''content-length:'') t = z"
    and "dropWhile (\<lambda>c. c = CHR 0x20 \<or> c = CHR 0x09) z = to_string n"
  shows "content_length headers = word_of_nat n"
  unfolding content_length_def assms(1,2) Let_def option.case assms(3,4)
  using takeWhile_decimal [of "[]" n] by (simp only: fold_decimal dec_val_to_string append_Nil2 simp_thms)

lemma token_no_colon:
  assumes "token s"
  shows "CHR '':'' \<notin> set (map tolower s)"
proof
  assume "CHR '':'' \<in> set (map tolower s)"
  then obtain c where c: "c \<in> set s" "tolower c = CHR '':''" by (auto simp del: tolower_colon)
  then show False using assms tolower_colon [of c] by (simp add: token_def)
qed

lemma content_length_request:
  assumes "token meth" "token host" "token path"
  shows "content_length (take (length (header_block (request_headers meth host path n)) - 2)
      (header_block (request_headers meth host path n) @ rest)) = word_of_nat n"
proof -
  let ?w1 = "map tolower meth @ '' '' @ map tolower path @ '' http/1.1'' @ CRLF @ ''host''"
  let ?w2 = "'' '' @ map tolower host @ CRLF @ ''connection''"
  let ?w3 = "'' close'' @ CRLF @ ''content-type''"
  let ?w4 = "'' application/json'' @ CRLF"
  let ?p = "''content-length''"
  let ?z = "'' '' @ to_string n"
  let ?t = "?w1 @ CHR '':'' # ?w2 @ CHR '':'' # ?w3 @ CHR '':'' # ?w4 @ ?p @ CHR '':'' # ?z"
  let ?at = "Suc (length ?w1) + (Suc (length ?w2) + (Suc (length ?w3) + length ?w4))"
  let ?x = "(meth @ '' '' @ path @ '' HTTP/1.1'' @ CRLF) @ (''Host: '' @ host @ CRLF) @ (''Connection: close'' @ CRLF) @
     (''Content-Type: application/json'' @ CRLF) @ ''Content-Length: '' @ to_string n"
  have hb: "header_block (request_headers meth host path n) = ?x @ CRLF"
    by (simp add: header_block_def request_headers_def)
  have cut2: "take (length (x @ CRLF) - 2) ((x @ CRLF) @ rest) = x" for x
    by (simp add: CRLF_def)
  have "take (length (header_block (request_headers meth host path n)) - 2)
      (header_block (request_headers meth host path n) @ rest) = ?x"
    unfolding hb by (rule cut2)
  moreover have "map tolower ?x = ?t"
    unfolding map_append tolower_words tolower_digits by (simp only: append_assoc append.simps)
  ultimately have lower: "map tolower (take (length (header_block (request_headers meth host path n)) - 2)
      (header_block (request_headers meth host path n) @ rest)) = ?t" by simp
  have no1: "CHR '':'' \<notin> set ?w1" "CHR '':'' \<notin> set ?w2"
    using token_no_colon [OF assms(1)] token_no_colon [OF assms(2)] token_no_colon [OF assms(3)] by (simp_all add: CRLF_def)
  have no2: "CHR '':'' \<notin> set ?w3" "CHR '':'' \<notin> set (?w4 @ ?p)" "CHR '':'' \<notin> set ?p"
    by (simp_all add: CRLF_def)
  have nosuf: "\<not> suffix ?p ?w1" "\<not> suffix ?p ?w2" "\<not> suffix ?p ?w3"
    by (auto simp: suffix_def dest: arg_cong [where f = last])
  have pat: "''content-length:'' = ?p @ '':''" by simp
  have "find_sub ''content-length:'' ?t = Some ?at"
    unfolding pat
    using find_sub_past [OF no1(1) no2(3) nosuf(1)] find_sub_past [OF no1(2) no2(3) nosuf(2)]
      find_sub_past [OF no2(1,3) nosuf(3)] find_sub_hit [OF no2(2), of ?z]
    by (simp only: option.map append_assoc)
  moreover have "drop (?at + length ''content-length:'') ?t = ?z"
    unfolding pat
  proof -
    let ?u = "?w1 @ '':'' @ ?w2 @ '':'' @ ?w3 @ '':'' @ ?w4 @ ?p @ '':''"
    have t: "?t = ?u @ ?z" by (simp only: append_assoc append.simps)
    show "drop (?at + length (?p @ '':'')) ?t = ?z"
      unfolding t by (rule drop_append_exact) simp
  qed
  moreover have "dropWhile (\<lambda>c. c = CHR 0x20 \<or> c = CHR 0x09) ?z = to_string n"
    using to_string_no [of "CHR 0x20" n] to_string_no [of "CHR 0x09" n] by (simp add: is_digit_def dropWhile_eq_self_iff) (metis hd_in_set to_string_nonempty)
  ultimately show ?thesis by (rule content_length_at [OF lower])
qed

section \<open>One exchange\<close>

lemma read_request_data:
  assumes tok: "token meth" "token host" "token path"
    and evs: "data_only evs" "stream_of evs = http_request_text meth host path body"
    and small: "length (http_request_text meth host path body) \<le> kMaxRequestBytes"
  shows "read_request evs = Some (True, http_request_text meth host path body)"
proof -
  let ?hb = "header_block (request_headers meth host path (length body))"
  let ?req = "http_request_text meth host path body"
  have req: "?req = ?hb @ CRLF @ body" by (rule request_text_headers)
  have found: "find_sub (CRLF @ CRLF) ?req = Some (length ?hb - 2)"
    unfolding req by (rule find_headers_end [OF request_headers_lines [OF tok]]) (simp add: request_headers_def)
  obtain req' evs' where r: "read_headers evs [] = Some (Some (length ?hb - 2), req', evs')"
      "req' @ stream_of evs' = ?req" "data_only evs'" "find_sub (CRLF @ CRLF) req' = Some (length ?hb - 2)"
    using read_headers_data [OF evs(1), of "[]" "length ?hb - 2"] found small evs(2) by (auto simp: CRLF_def)
  have hb: "2 \<le> length ?hb" by (simp add: header_block_def request_headers_def CRLF_def)
  have in_req: "length ?hb + 2 \<le> length req'" using find_sub_le [OF r(4)] hb by (simp add: CRLF_def)
  then have "take (length ?hb - 2) req' = take (length ?hb - 2) (?hb @ CRLF @ body)"
    unfolding req [symmetric] r(2) [symmetric] by simp
  then have "content_length (take (length ?hb - 2) req') = word_of_nat (length body)"
    using content_length_request [OF tok] by simp
  moreover have "length body < 2 ^ 64" using small by (simp add: req kMaxRequestBytes_def)
  ultimately have cl: "unat (content_length (take (length ?hb - 2) req')) = length body"
    by (simp add: unat_of_nat)
  have "length (stream_of evs') = length ?req - length req'" by (simp flip: r(2))
  then have need: "length body - (length req' - (length ?hb - 2 + 4)) = length (stream_of evs')"
    using in_req hb r(2) by (simp add: req CRLF_def)
  obtain evs'' where "read_body (length (stream_of evs')) evs' req' = Some (True, ?req, evs'')"
    using read_body_data [OF r(3) refl, of req'] r(2) small by auto
  moreover have monus: "(if a > b then a - b else 0) = a - b" for a b :: nat by simp
  ultimately show ?thesis
    by (simp only: read_request_def r(1) cl need monus Let_def option.case prod.case option.map)
qed

lemma dispatch_request:
  fixes body :: string
  assumes tok: "token meth" "token host" "token path"
    and req0: "req = http_request_text meth host path body"
  shows "find_sub CRLF req = Some (length (meth @ '' '' @ path @ '' HTTP/1.1''))"
    and "take (length (meth @ '' '' @ path @ '' HTTP/1.1'')) req = meth @ '' '' @ path @ '' HTTP/1.1''"
    and "find_sub '' '' (meth @ '' '' @ path @ '' HTTP/1.1'') = Some (length meth)"
    and "find_sub '' '' (path @ '' HTTP/1.1'') = Some (length path)"
    and "map_option (\<lambda>h. drop (h + 4) req) (find_sub (CRLF @ CRLF) req) = Some body"
proof -
  let ?l = "meth @ '' '' @ path @ '' HTTP/1.1''"
  have line: "CHR 0x0D \<notin> set ?l" using tok by (simp add: token_def)
  have req: "req = ?l @ CRLF @ ''Host: '' @ host @ CRLF @ ''Connection: close'' @ CRLF @
     ''Content-Type: application/json'' @ CRLF @ ''Content-Length: '' @ to_string (length body) @ CRLF @ CRLF @ body"
    by (simp only: req0 http_request_text_def append_assoc)
  show "find_sub CRLF req = Some (length ?l)"
    unfolding req using find_sub_first [OF line, of "[CHR 0x0A]"] by (simp only: CRLF_def append.simps)
  show "take (length ?l) req = ?l" unfolding req by (rule take_append_exact) (rule refl)
  show "find_sub '' '' ?l = Some (length meth)"
    using find_sub_first [of "CHR '' ''" meth "[]"] tok(1) by (simp add: token_def)
  show "find_sub '' '' (path @ '' HTTP/1.1'') = Some (length path)"
    using find_sub_first [of "CHR '' ''" path "[]"] tok(3) by (simp add: token_def)
  let ?hb = "header_block (request_headers meth host path (length body))"
  have req2: "req = ?hb @ CRLF @ body" unfolding req0 by (rule request_text_headers)
  have "find_sub (CRLF @ CRLF) req = Some (length ?hb - 2)"
    unfolding req2 by (rule find_headers_end [OF request_headers_lines [OF tok]]) (simp add: request_headers_def)
  moreover have "2 \<le> length ?hb" by (simp add: header_block_def request_headers_def CRLF_def)
  from this have "drop (length ?hb - 2 + 4) req = body" unfolding req2 by (rule drop_headers)
  ultimately show "map_option (\<lambda>h. drop (h + 4) req) (find_sub (CRLF @ CRLF) req) = Some body"
    by (simp only: option.map)
qed

lemma serve_request:
  assumes tok: "token meth" "token host" "token path"
    and evs: "data_only evs" "stream_of evs = http_request_text meth host path body"
    and small: "length (http_request_text meth host path body) \<le> kMaxRequestBytes"
    and handler: "handler meth path body s = (resp, s')"
    and ws: "steady ws" "length (http_response_text resp) \<le> progress ws"
  shows "serve_connection handler evs ws s = Some (http_response_text resp, s')"
proof -
  note d = dispatch_request [OF tok refl [of "http_request_text meth host path body"]]
  obtain h where "find_sub (CRLF @ CRLF) (http_request_text meth host path body) = Some h"
    "drop (h + 4) (http_request_text meth host path body) = body"
    using d(5) by auto
  moreover have "drop (length meth + 1) (meth @ '' '' @ path @ '' HTTP/1.1'') = path @ '' HTTP/1.1''"
    "take (length meth) (meth @ '' '' @ path @ '' HTTP/1.1'') = meth"
    "take (length path) (path @ '' HTTP/1.1'') = path" by simp_all
  ultimately show ?thesis
    unfolding serve_connection_def read_request_data [OF tok evs small]
    by (simp only: d(1-4) handler http_write_all_def write_loop_completes [OF ws] snd_conv Let_def option.case prod.case bool.case
        option.map append_Nil)
qed

lemma recv_append: "recv m evs = Some (r, evs') \<Longrightarrow> recv m (evs @ xs) = Some (r, evs' @ xs)"
  by (auto simp: recv_def split: list.splits read_event.splits if_splits)

lemma read_all_data:
  "data_only evs \<Longrightarrow> read_all (evs @ [R_EOF]) resp = Some (resp @ stream_of evs)"
proof (induction evs resp rule: read_all.induct)
  case (1 evs resp)
  show ?case
  proof (cases "stream_of evs = []")
    case True
    then have "evs = []" using 1(2) by (cases evs rule: stream_of.cases) auto
    then show ?thesis by (subst read_all.simps) (simp add: recv_def)
  next
    case False
    then obtain c evs' where r: "recv 4096 evs = Some (Got c, evs')" "stream_of evs = c @ stream_of evs'"
        "c \<noteq> []" "data_only evs'"
      using recv_data [OF 1(2), of 4096] by auto
    have "read_all (evs' @ [R_EOF]) (resp @ c) = Some ((resp @ c) @ stream_of evs')"
      using r(4) by (rule 1(1) [OF r(1) refl refl])
    then show ?thesis using recv_append [OF r(1), of "[R_EOF]"] r(2) by (subst read_all.simps) simp
  qed
qed

lemma reason_phrase_chars: "CHR 0x0D \<notin> set (reason_phrase n)"
  by (simp add: reason_phrase_def)

lemma parse_response_text:
  assumes "0 \<le> rr_status resp"
  shows "parse_response (http_response_text resp) = \<lparr>hr_ok = True, hr_status = rr_status resp, hr_body = rr_body resp\<rparr>"
proof -
  let ?n = "to_string (nat (rr_status resp))"
  let ?tail = "'' '' @ reason_phrase (rr_status resp) @ CRLF @ ''Content-Type: application/json'' @ CRLF @
     ''Content-Length: '' @ to_string (length (rr_body resp)) @ CRLF @ ''Connection: close'' @ CRLF @ CRLF @ rr_body resp"
  let ?hb = "header_block [''HTTP/1.1 '' @ ?n @ '' '' @ reason_phrase (rr_status resp),
     ''Content-Type: application/json'', ''Content-Length: '' @ to_string (length (rr_body resp)), ''Connection: close'']"
  let ?t = "http_response_text resp"
  have t1: "?t = ''HTTP/1.1'' @ '' '' @ ?n @ ?tail"
    using assms by (simp add: http_response_text_def int_to_string_def)
  have t2: "?t = ?hb @ CRLF @ rr_body resp"
    using assms by (simp add: http_response_text_def int_to_string_def header_block_def)
  have "find_sub '' '' ?t = Some (length ''HTTP/1.1'')"
    unfolding t1 using find_sub_first [of "CHR '' ''" "''HTTP/1.1''" "[]" "?n @ ?tail"] by simp
  moreover have "takeWhile is_digit (drop (length ''HTTP/1.1'' + 1) ?t) = ?n"
    using takeWhile_decimal [of ?tail "nat (rr_status resp)"] by (simp add: t1 is_digit_def)
  moreover have "find_sub (CRLF @ CRLF) ?t = Some (length ?hb - 2)"
    unfolding t2 by (rule find_headers_end)
      (use reason_phrase_chars to_string_no [of "CHR 0x0D"] in \<open>simp_all add: is_digit_def\<close>)
  moreover have "drop (length ?hb - 2 + 4) ?t = rr_body resp"
    unfolding t2 by (rule drop_headers) (simp add: header_block_def CRLF_def)
  ultimately show ?thesis using assms by (simp add: parse_response_def fold_decimal)
qed

fun sent_by :: "write_result list \<Rightarrow> nat option" where
  "sent_by [] = Some 0"
| "sent_by (W_N n # ws) = (if n = 0 then None else map_option ((+) n) (sent_by ws))"
| "sent_by (_ # ws) = None"

lemma send_all_completes:
  "sent_by ws = Some k \<Longrightarrow> length rest \<le> k \<Longrightarrow> send_all ws rest sent = Some (True, sent @ rest)"
proof (induction ws rest sent arbitrary: k rule: send_all.induct)
  case (3 n ws c rest sent)
  then obtain j where j: "sent_by ws = Some j" "k = n + j" "n \<noteq> 0" by (auto split: if_splits)
  then have "send_all ws (drop n (c # rest)) (sent @ take n (c # rest)) =
      Some (True, (sent @ take n (c # rest)) @ drop n (c # rest))"
    using 3(3) by (intro 3(1)) auto
  then show ?case using j(3) by simp
qed auto

text \<open>
  C27. One exchange over the wire: for a request of at most a mebibyte, however the bytes of the two
  directions are split into chunks, the handler of the server is called with exactly the method,
  path and body the client was given, and the client returns exactly the handler's status and body.
\<close>

theorem http_exchange:
  assumes tok: "token meth" "token host" "token path"
    and small: "length (http_request_text meth host path body) \<le> kMaxRequestBytes"
    and up: "hn_resolves net" "hn_socket net" "hn_connects net"
      "sent_by (hn_writes net) = Some k" "length (http_request_text meth host path body) \<le> k"
    and there: "data_only evs" "stream_of evs = http_request_text meth host path body"
    and handler: "handler meth path body s = (resp, s')" "0 \<le> rr_status resp"
    and ws: "steady ws" "length (http_response_text resp) \<le> progress ws"
    and reply: "hn_reads net = ds @ [R_EOF]" "data_only ds" "stream_of ds = http_response_text resp"
  shows "http_request net meth host path body =
      Some (\<lparr>hr_ok = True, hr_status = rr_status resp, hr_body = rr_body resp\<rparr>, stream_of evs) \<and>
    serve_connection handler evs ws s = Some (stream_of ds, s')"
  using serve_request [OF tok there small, where handler = handler, OF handler(1) ws]
    send_all_completes [OF up(4,5), of "[]"] read_all_data [OF reply(2), of "[]"]
  by (simp add: http_request_def up(1-3) there(2) reply(1,3) parse_response_text [OF handler(2)])

theorem http_exchange_witness:
  "let req = http_request_text ''GET'' ''node'' ''/tip'' []; resp = \<lparr>rr_status = 404, rr_body = ''none''\<rparr>;
       net = \<lparr>hn_resolves = True, hn_socket = True, hn_connects = True, hn_writes = [W_N 5, W_N 1000],
              hn_reads = [R_DATA (take 3 (http_response_text resp)), R_DATA (drop 3 (http_response_text resp)), R_EOF]\<rparr>
   in http_request net ''GET'' ''node'' ''/tip'' [] = Some (\<lparr>hr_ok = True, hr_status = 404, hr_body = ''none''\<rparr>, req) \<and>
     serve_connection (\<lambda>m t b s. (resp, s + 1 :: nat)) [R_DATA (take 7 req), R_DATA (drop 7 req)] [W_EINTR, W_N 1000] 0 =
       Some (http_response_text resp, 1)"
proof -
  let ?req = "http_request_text ''GET'' ''node'' ''/tip'' []"
  let ?resp = "\<lparr>rr_status = 404, rr_body = ''none''\<rparr>"
  let ?text = "http_response_text ?resp"
  have "to_string 0 = ''0''" "to_string (Suc (Suc (Suc (Suc 0)))) = ''4''" "to_string 404 = ''404''" by code_simp+
  then have l: "10 < length ?req" "length ?req < 200" "10 < length ?text" "length ?text < 200"
    by (simp_all add: http_request_text_def http_response_text_def CRLF_def int_to_string_def reason_phrase_def)
  then have ne: "take 7 ?req \<noteq> []" "drop 7 ?req \<noteq> []" "take 3 ?text \<noteq> []" "drop 3 ?text \<noteq> []"
    by auto
  show ?thesis
    unfolding Let_def
    using http_exchange [where meth = "''GET''" and host = "''node''" and path = "''/tip''" and body = "[]"
        and net = "\<lparr>hn_resolves = True, hn_socket = True, hn_connects = True, hn_writes = [W_N 5, W_N 1000],
              hn_reads = [R_DATA (take 3 ?text), R_DATA (drop 3 ?text), R_EOF]\<rparr>"
        and k = 1005 and evs = "[R_DATA (take 7 ?req), R_DATA (drop 7 ?req)]"
        and handler = "\<lambda>m t b s. (?resp, s + 1 :: nat)" and s = 0 and s' = 1 and resp = ?resp
        and ws = "[W_EINTR, W_N 1000]" and ds = "[R_DATA (take 3 ?text), R_DATA (drop 3 ?text)]"] l ne
    by (simp add: token_def kMaxRequestBytes_def)
qed

end
