(* ===== verification/Http_Server.thy ===== *)
theory Http_Server
  imports Http
begin

text \<open>
  The life of the HTTP server (\<^verbatim>\<open>rpc/http_server.cpp\<close>): opening the listener, the accept loop and the
  stop flag.  A pass of the loop is described by what it meets: the flag, the result of \<^verbatim>\<open>poll\<close> and of
  \<^verbatim>\<open>accept\<close>, and the results of the reads and writes on the connection.
\<close>

section \<open>The listener\<close>

record http_server =
  hs_port :: int
  hs_listen_fd :: "nat option"
  hs_stop :: bool

definition new_server :: "int \<Rightarrow> http_server" where
  "new_server port = \<lparr>hs_port = port, hs_listen_fd = None, hs_stop = False\<rparr>"

text \<open>
  The results of the calls in \<^verbatim>\<open>start\<close>: the descriptor of \<^verbatim>\<open>socket\<close>, whether \<^verbatim>\<open>bind\<close> to the loopback
  address at this port and \<^verbatim>\<open>listen\<close> succeed, and the port \<^verbatim>\<open>getsockname\<close> reads back.
\<close>

record socket_results =
  so_fd :: "nat option"
  so_binds :: "16 word \<Rightarrow> bool"
  so_listens :: bool
  so_name :: "16 word option"

definition server_start :: "socket_results \<Rightarrow> http_server \<Rightarrow> bool \<times> http_server" where
  "server_start so h =
     (let h = h\<lparr>hs_listen_fd := so_fd so\<rparr>
      in if hs_listen_fd h = None then (False, h)
         else if \<not> so_binds so (word_of_int (hs_port h)) then (False, h\<lparr>hs_listen_fd := None\<rparr>)
         else if \<not> so_listens so then (False, h\<lparr>hs_listen_fd := None\<rparr>)
         else (True, case so_name so of Some p \<Rightarrow> h\<lparr>hs_port := uint p\<rparr> | None \<Rightarrow> h))"

definition server_stop :: "http_server \<Rightarrow> http_server" where
  "server_stop h = h\<lparr>hs_stop := True\<rparr>"

lemma server_start_listens:
  "server_start so h = (ok, h') \<Longrightarrow> ok \<longleftrightarrow> hs_listen_fd h' \<noteq> None"
  by (auto simp: server_start_def Let_def split: if_splits option.splits)

section \<open>The accept loop\<close>

text \<open>A pass without a connection: the timeout of \<^verbatim>\<open>poll\<close>, or a failed \<^verbatim>\<open>accept\<close>.\<close>

datatype poll_result = Idle | No_Accept | Conn "char read_event list" "write_result list"

type_synonym 's handler = "string \<Rightarrow> string \<Rightarrow> string \<Rightarrow> 's \<Rightarrow> rpc_response \<times> 's"

definition server_pass :: "'s handler \<Rightarrow> poll_result \<Rightarrow> 's \<Rightarrow> (string list \<times> 's) option" where
  "server_pass handler ev s =
     (case ev of
        Idle \<Rightarrow> Some ([], s)
      | No_Accept \<Rightarrow> Some ([], s)
      | Conn evs ws \<Rightarrow> map_option (\<lambda>(out, s). ([out], s)) (serve_connection handler evs ws s))"

text \<open>The loop tests the flag before every pass; it does not return before the flag is seen.\<close>

fun run_loop :: "'s handler \<Rightarrow> (bool \<times> poll_result) list \<Rightarrow> 's \<Rightarrow> (string list \<times> 's) option" where
  "run_loop handler [] s = None"
| "run_loop handler ((stop, ev) # evs) s =
     (if stop then Some ([], s)
      else case server_pass handler ev s of
             None \<Rightarrow> None
           | Some (outs, s) \<Rightarrow> map_option (\<lambda>(rest, s). (outs @ rest, s)) (run_loop handler evs s))"

text \<open>Whatever arrives on a connection, it is at most one call of the handler.\<close>

lemma serve_connection_call:
  "serve_connection handler evs ws s = Some (out, s') \<Longrightarrow> s' = s \<or> (\<exists>m t b. s' = snd (handler m t b s))"
  unfolding serve_connection_def Let_def
  by (auto split: option.splits prod.splits bool.splits) (metis snd_conv)+

lemma server_pass_call:
  "server_pass handler ev s = Some (outs, s') \<Longrightarrow> s' = s \<or> (\<exists>m t b. s' = snd (handler m t b s))"
  by (auto simp: server_pass_def dest: serve_connection_call split: poll_result.splits)

lemma run_loop_invariant:
  assumes step: "\<And>m t b s. I s \<Longrightarrow> I (snd (handler m t b s))"
  shows "run_loop handler evs s = Some (outs, s') \<Longrightarrow> I s \<Longrightarrow> I s'"
proof (induction evs arbitrary: s outs)
  case (Cons e evs)
  obtain stop ev where e: "e = (stop, ev)" by (cases e)
  show ?case
  proof (cases stop)
    case False
    then obtain out1 s1 rest where r: "server_pass handler ev s = Some (out1, s1)" "run_loop handler evs s1 = Some (rest, s')"
      using Cons.prems(1) by (auto simp: e split: option.splits)
    from server_pass_call [OF r(1)] step Cons.prems(2) have "I s1" by metis
    with Cons.IH [OF r(2)] show ?thesis .
  qed (use Cons.prems e in simp)
qed simp

text \<open>A loop that is stopped after one complete request answers it and returns.\<close>

lemma run_loop_answers:
  assumes "token meth" "token host" "token path"
    and "data_only evs" "stream_of evs = http_request_text meth host path body"
    and "length (http_request_text meth host path body) \<le> kMaxRequestBytes"
    and "handler meth path body s = (resp, s')"
    and "steady ws" "length (http_response_text resp) \<le> progress ws"
  shows "run_loop handler ((False, Conn evs ws) # passes) s =
    map_option (\<lambda>(rest, s). (http_response_text resp # rest, s)) (run_loop handler passes s')"
  using serve_request [where handler = handler, OF assms] by (simp add: server_pass_def)

end
