(* ===== verification/Sha512.thy ===== *)
theory Sha512
  imports Prelude
begin

text \<open>
  The vendored SHA-512 (\<^verbatim>\<open>third_party/ed25519_ref10/sha512.c\<close>): the compression function with its
  rotating registers, the streaming context, which hashes whole blocks straight from the input when
  its buffer is empty, and the final padding.  The lemmas show that the code computes the block-wise
  hash of the padded message, whatever the pieces the message comes in.
\<close>

section \<open>The compression function\<close>

definition sha512_k :: "u64 list" where
  "sha512_k = concat [
    [0x428a2f98d728ae22, 0x7137449123ef65cd, 0xb5c0fbcfec4d3b2f, 0xe9b5dba58189dbbc],
    [0x3956c25bf348b538, 0x59f111f1b605d019, 0x923f82a4af194f9b, 0xab1c5ed5da6d8118],
    [0xd807aa98a3030242, 0x12835b0145706fbe, 0x243185be4ee4b28c, 0x550c7dc3d5ffb4e2],
    [0x72be5d74f27b896f, 0x80deb1fe3b1696b1, 0x9bdc06a725c71235, 0xc19bf174cf692694],
    [0xe49b69c19ef14ad2, 0xefbe4786384f25e3, 0x0fc19dc68b8cd5b5, 0x240ca1cc77ac9c65],
    [0x2de92c6f592b0275, 0x4a7484aa6ea6e483, 0x5cb0a9dcbd41fbd4, 0x76f988da831153b5],
    [0x983e5152ee66dfab, 0xa831c66d2db43210, 0xb00327c898fb213f, 0xbf597fc7beef0ee4],
    [0xc6e00bf33da88fc2, 0xd5a79147930aa725, 0x06ca6351e003826f, 0x142929670a0e6e70],
    [0x27b70a8546d22ffc, 0x2e1b21385c26c926, 0x4d2c6dfc5ac42aed, 0x53380d139d95b3df],
    [0x650a73548baf63de, 0x766a0abb3c77b2a8, 0x81c2c92e47edaee6, 0x92722c851482353b],
    [0xa2bfe8a14cf10364, 0xa81a664bbc423001, 0xc24b8b70d0f89791, 0xc76c51a30654be30],
    [0xd192e819d6ef5218, 0xd69906245565a910, 0xf40e35855771202a, 0x106aa07032bbd1b8],
    [0x19a4c116b8d2d0c8, 0x1e376c085141ab53, 0x2748774cdf8eeb99, 0x34b0bcb5e19b48a8],
    [0x391c0cb3c5c95a63, 0x4ed8aa4ae3418acb, 0x5b9cca4f7763e373, 0x682e6ff3d6b2b8a3],
    [0x748f82ee5defb2fc, 0x78a5636f43172f60, 0x84c87814a1f0ab72, 0x8cc702081a6439ec],
    [0x90befffa23631e28, 0xa4506cebde82bde9, 0xbef9a3f7b2c67915, 0xc67178f2e372532b],
    [0xca273eceea26619c, 0xd186b8c721c0c207, 0xeada7dd6cde0eb1e, 0xf57d4f7fee6ed178],
    [0x06f067aa72176fba, 0x0a637dc5a2c898a6, 0x113f9804bef90dae, 0x1b710b35131c471b],
    [0x28db77f523047d84, 0x32caab7b40c72493, 0x3c9ebe0a15c9bebc, 0x431d67c49c100d4c],
    [0x4cc5d4becb3e42b6, 0x597f299cfc657e2a, 0x5fcb6fab3ad6faec, 0x6c44198c4a475817]]"

definition ROR64c :: "u64 \<Rightarrow> nat \<Rightarrow> u64" where
  "ROR64c x y = drop_bit y x OR push_bit (64 - y) x"

definition load64h :: "byte list \<Rightarrow> u64" where
  "load64h y =
     push_bit 56 (ucast (y ! 0)) OR push_bit 48 (ucast (y ! 1)) OR push_bit 40 (ucast (y ! 2)) OR
     push_bit 32 (ucast (y ! 3)) OR push_bit 24 (ucast (y ! 4)) OR push_bit 16 (ucast (y ! 5)) OR
     push_bit 8 (ucast (y ! 6)) OR ucast (y ! 7)"

definition store64h :: "u64 \<Rightarrow> byte list" where
  "store64h x =
     [ucast (drop_bit 56 x AND 255), ucast (drop_bit 48 x AND 255), ucast (drop_bit 40 x AND 255),
      ucast (drop_bit 32 x AND 255), ucast (drop_bit 24 x AND 255), ucast (drop_bit 16 x AND 255),
      ucast (drop_bit 8 x AND 255), ucast (x AND 255)]"

definition Ch64 :: "u64 \<Rightarrow> u64 \<Rightarrow> u64 \<Rightarrow> u64" where
  "Ch64 x y z = z XOR (x AND (y XOR z))"

definition Maj64 :: "u64 \<Rightarrow> u64 \<Rightarrow> u64 \<Rightarrow> u64" where
  "Maj64 x y z = ((x OR y) AND z) OR (x AND y)"

definition Sigma0 :: "u64 \<Rightarrow> u64" where
  "Sigma0 x = ROR64c x 28 XOR ROR64c x 34 XOR ROR64c x 39"

definition Sigma1 :: "u64 \<Rightarrow> u64" where
  "Sigma1 x = ROR64c x 14 XOR ROR64c x 18 XOR ROR64c x 41"

definition Gamma0 :: "u64 \<Rightarrow> u64" where
  "Gamma0 x = ROR64c x 1 XOR ROR64c x 8 XOR drop_bit 7 x"

definition Gamma1 :: "u64 \<Rightarrow> u64" where
  "Gamma1 x = ROR64c x 19 XOR ROR64c x 61 XOR drop_bit 6 x"

definition load_block512 :: "byte list \<Rightarrow> u64 list" where
  "load_block512 buf = map (\<lambda>i. load64h (drop (8 * i) buf)) [0..<16]"

text \<open>\<^verbatim>\<open>for (i = 16; i < 80; i++)\<close>: the index \<open>i\<close> is the number of words computed so far.\<close>

fun fill_schedule :: "nat \<Rightarrow> u64 list \<Rightarrow> u64 list" where
  "fill_schedule 0 w = w"
| "fill_schedule (Suc n) w = fill_schedule n (w @
     [let i = length w in Gamma1 (w ! (i - 2)) + w ! (i - 7) + Gamma0 (w ! (i - 15)) + w ! (i - 16)])"

text \<open>The macro \<^verbatim>\<open>RND\<close> on the registers with the given numbers, and the eight calls of the loop body.\<close>

definition RND :: "u64 list \<Rightarrow> nat \<Rightarrow> nat \<Rightarrow> nat \<Rightarrow> nat \<Rightarrow> nat \<Rightarrow> nat \<Rightarrow> nat \<Rightarrow> nat \<Rightarrow> nat \<Rightarrow> u64 list \<Rightarrow> u64 list" where
  "RND w a b c d e f g h i s =
     (let t0 = s ! h + Sigma1 (s ! e) + Ch64 (s ! e) (s ! f) (s ! g) + sha512_k ! i + w ! i;
          t1 = Sigma0 (s ! a) + Maj64 (s ! a) (s ! b) (s ! c)
      in s[d := s ! d + t0, h := t0 + t1])"

definition eight_rounds :: "u64 list \<Rightarrow> nat \<Rightarrow> u64 list \<Rightarrow> u64 list" where
  "eight_rounds w i s =
     (let s = RND w 0 1 2 3 4 5 6 7 (i + 0) s;
          s = RND w 7 0 1 2 3 4 5 6 (i + 1) s;
          s = RND w 6 7 0 1 2 3 4 5 (i + 2) s;
          s = RND w 5 6 7 0 1 2 3 4 (i + 3) s;
          s = RND w 4 5 6 7 0 1 2 3 (i + 4) s;
          s = RND w 3 4 5 6 7 0 1 2 (i + 5) s;
          s = RND w 2 3 4 5 6 7 0 1 (i + 6) s
      in RND w 1 2 3 4 5 6 7 0 (i + 7) s)"

definition sha512_compress :: "u64 list \<Rightarrow> byte list \<Rightarrow> u64 list" where
  "sha512_compress state buf =
     (let w = fill_schedule 64 (load_block512 buf);
          s = fold (eight_rounds w) [0, 8, 16, 24, 32, 40, 48, 56, 64, 72] state
      in map (\<lambda>i. state ! i + s ! i) [0..<8])"

section \<open>The streaming context\<close>

record sha512_context =
  s5_length :: u64
  s5_state :: "u64 list"
  s5_curlen :: nat
  s5_buf :: "byte list"

definition sha512_iv :: "u64 list" where
  "sha512_iv =
     [0x6a09e667f3bcc908, 0xbb67ae8584caa73b, 0x3c6ef372fe94f82b, 0xa54ff53a5f1d36f1,
      0x510e527fade682d1, 0x9b05688c2b3e6c1f, 0x1f83d9abfb41bd6b, 0x5be0cd19137e2179]"

text \<open>\<^verbatim>\<open>sha512_init\<close> leaves the buffer as it finds it: the context of the caller is uninitialised memory.\<close>

definition sha512_init :: "sha512_context \<Rightarrow> sha512_context" where
  "sha512_init md = md\<lparr>s5_curlen := 0, s5_length := 0, s5_state := sha512_iv\<rparr>"

text \<open>The copy loop of \<open>n\<close> bytes to position \<open>k\<close> of the buffer.\<close>

fun copy_bytes :: "nat \<Rightarrow> byte list \<Rightarrow> byte list \<Rightarrow> byte list" where
  "copy_bytes k [] buf = buf"
| "copy_bytes k (b # bs) buf = copy_bytes (Suc k) bs (buf[k := b])"

text \<open>
  The loop of \<^verbatim>\<open>sha512_update\<close>.  The guard on \<open>curlen\<close> stands for the check before the loop; the loop
  keeps it.
\<close>

function sha512_loop :: "sha512_context \<Rightarrow> byte list \<Rightarrow> sha512_context" where
  "sha512_loop md input =
     (if input = [] \<or> 128 < s5_curlen md then md
      else if s5_curlen md = 0 \<and> 128 \<le> length input then
        sha512_loop (md\<lparr>s5_state := sha512_compress (s5_state md) (take 128 input),
          s5_length := s5_length md + 128 * 8\<rparr>) (drop 128 input)
      else
        let n = min (length input) (128 - s5_curlen md);
            md = md\<lparr>s5_buf := copy_bytes (s5_curlen md) (take n input) (s5_buf md), s5_curlen := s5_curlen md + n\<rparr>
        in sha512_loop
             (if s5_curlen md = 128 then
                md\<lparr>s5_state := sha512_compress (s5_state md) (s5_buf md),
                   s5_length := s5_length md + 8 * 128, s5_curlen := 0\<rparr>
              else md) (drop n input))"
  by pat_completeness auto
termination sha512_loop
  by (relation "measure (\<lambda>(md, input). 2 * length input + (if s5_curlen md = 128 then 1 else 0))") auto

declare sha512_loop.simps [simp del]

text \<open>The result code and the context behind the pointer.\<close>

definition sha512_update :: "sha512_context \<Rightarrow> byte list \<Rightarrow> int \<times> sha512_context" where
  "sha512_update md input = (if s5_curlen md > 128 then (1, md) else (0, sha512_loop md input))"

text \<open>\<^verbatim>\<open>while (curlen < n) buf[curlen++] = 0\<close>.\<close>

definition zero_to :: "nat \<Rightarrow> sha512_context \<Rightarrow> sha512_context" where
  "zero_to n md =
     md\<lparr>s5_buf := copy_bytes (s5_curlen md) (replicate (n - s5_curlen md) 0) (s5_buf md),
        s5_curlen := max n (s5_curlen md)\<rparr>"

definition sha512_pad :: "sha512_context \<Rightarrow> sha512_context" where
  "sha512_pad md =
     (let md = md\<lparr>s5_length := s5_length md + word_of_nat (s5_curlen md) * 8\<rparr>;
          md = md\<lparr>s5_buf := (s5_buf md)[s5_curlen md := 0x80], s5_curlen := s5_curlen md + 1\<rparr>;
          md = (if s5_curlen md > 112 then
                  let md = zero_to 128 md
                  in md\<lparr>s5_state := sha512_compress (s5_state md) (s5_buf md), s5_curlen := 0\<rparr>
                else md)
      in zero_to 120 md)"

text \<open>The digest, \<open>None\<close> where the output is not written.\<close>

definition sha512_final :: "sha512_context \<Rightarrow> byte list option" where
  "sha512_final md =
     (if s5_curlen md \<ge> 128 then None
      else
        let md = sha512_pad md;
            buf = copy_bytes 120 (store64h (s5_length md)) (s5_buf md);
            state = sha512_compress (s5_state md) buf
        in Some (concat (map (\<lambda>i. store64h (state ! i)) [0..<8])))"

text \<open>\<open>md\<close> is the uninitialised context; \<open>sha512_pieces\<close> is the sequence of calls the signature functions make.\<close>

definition sha512_pieces :: "sha512_context \<Rightarrow> byte list list \<Rightarrow> byte list option" where
  "sha512_pieces md pieces = sha512_final (fold (\<lambda>p md. snd (sha512_update md p)) pieces (sha512_init md))"

definition sha512 :: "sha512_context \<Rightarrow> byte list \<Rightarrow> byte list option" where
  "sha512 md message =
     (let md = sha512_init md; (ret, md) = sha512_update md message
      in if ret \<noteq> 0 then None else sha512_final md)"

section \<open>Reference: the block-wise hash of the padded message\<close>

fun shift_round :: "u64 \<times> u64 \<Rightarrow> u64 list \<Rightarrow> u64 list" where
  "shift_round (k, w) [a, b, c, d, e, f, g, h] =
     (let t1 = h + Sigma1 e + Ch64 e f g + k + w; t2 = Sigma0 a + Maj64 a b c
      in [t1 + t2, a, b, c, d + t1, e, f, g])"
| "shift_round kw s = s"

definition sha512_block :: "u64 list \<Rightarrow> byte list \<Rightarrow> u64 list" where
  "sha512_block state blk =
     map2 (+) state (fold shift_round (zip sha512_k (fill_schedule 64 (map (\<lambda>i. of_be (take 8 (drop (8 * i) blk))) [0..<16]))) state)"

fun blocks_of :: "nat \<Rightarrow> byte list \<Rightarrow> byte list list" where
  "blocks_of 0 bs = []"
| "blocks_of (Suc n) bs = take 128 bs # blocks_of n (drop 128 bs)"

definition sha512_padding :: "byte list \<Rightarrow> byte list" where
  "sha512_padding msg =
     msg @ 0x80 # replicate ((239 - length msg mod 128) mod 128) 0 @ be_bytes 16 (word_of_nat (8 * length msg) :: u128)"

definition sha512_spec :: "byte list \<Rightarrow> byte list" where
  "sha512_spec msg =
     (let p = sha512_padding msg
      in concat (map (be_bytes 8) (fold (\<lambda>b s. sha512_block s b) (blocks_of (length p div 128) p) sha512_iv)))"

section \<open>The compression function computes the reference\<close>

lemma store64h_eq: "store64h x = be_bytes 8 x"
proof -
  have "y AND 255 = take_bit 8 y" for y :: u64 by (simp add: take_bit_eq_mask mask_eq_exp_minus_1)
  then have "ucast (y AND 255) = (ucast y :: byte)" for y :: u64
    by (intro bit_word_eqI) (auto simp: bit_simps)
  then show ?thesis by (simp add: store64h_def be_bytes_def upt_rec)
qed

lemma load64h_eq: assumes "8 \<le> length xs" shows "load64h xs = of_be (take 8 xs)"
proof -
  obtain a b c d e f g h ys where xs: "xs = a # b # c # d # e # f # g # h # ys"
    using assms by (auto simp: numeral_eq_Suc Suc_le_length_iff)
  show ?thesis
    by (simp only: xs load64h_def of_be_def) (simp add: push_bit_or push_bit_push_bit or.assoc)
qed

lemma RND_shift_round:
  "shift_round (sha512_k ! i, w ! i) [a, b, c, d, e, f, g, h] = [t, a, b, c, u, e, f, g] \<Longrightarrow>
   RND w 0 1 2 3 4 5 6 7 i [a, b, c, d, e, f, g, h] = [a, b, c, u, e, f, g, t]"
  "shift_round (sha512_k ! i, w ! i) [a, b, c, d, e, f, g, h] = [t, a, b, c, u, e, f, g] \<Longrightarrow>
   RND w 7 0 1 2 3 4 5 6 i [b, c, d, e, f, g, h, a] = [b, c, u, e, f, g, t, a]"
  "shift_round (sha512_k ! i, w ! i) [a, b, c, d, e, f, g, h] = [t, a, b, c, u, e, f, g] \<Longrightarrow>
   RND w 6 7 0 1 2 3 4 5 i [c, d, e, f, g, h, a, b] = [c, u, e, f, g, t, a, b]"
  "shift_round (sha512_k ! i, w ! i) [a, b, c, d, e, f, g, h] = [t, a, b, c, u, e, f, g] \<Longrightarrow>
   RND w 5 6 7 0 1 2 3 4 i [d, e, f, g, h, a, b, c] = [u, e, f, g, t, a, b, c]"
  "shift_round (sha512_k ! i, w ! i) [a, b, c, d, e, f, g, h] = [t, a, b, c, u, e, f, g] \<Longrightarrow>
   RND w 4 5 6 7 0 1 2 3 i [e, f, g, h, a, b, c, d] = [e, f, g, t, a, b, c, u]"
  "shift_round (sha512_k ! i, w ! i) [a, b, c, d, e, f, g, h] = [t, a, b, c, u, e, f, g] \<Longrightarrow>
   RND w 3 4 5 6 7 0 1 2 i [f, g, h, a, b, c, d, e] = [f, g, t, a, b, c, u, e]"
  "shift_round (sha512_k ! i, w ! i) [a, b, c, d, e, f, g, h] = [t, a, b, c, u, e, f, g] \<Longrightarrow>
   RND w 2 3 4 5 6 7 0 1 i [g, h, a, b, c, d, e, f] = [g, t, a, b, c, u, e, f]"
  "shift_round (sha512_k ! i, w ! i) [a, b, c, d, e, f, g, h] = [t, a, b, c, u, e, f, g] \<Longrightarrow>
   RND w 1 2 3 4 5 6 7 0 i [h, a, b, c, d, e, f, g] = [t, a, b, c, u, e, f, g]"
  by (simp_all add: RND_def Let_def)

lemma shift_round_shape: "\<exists>t u. shift_round kw [a, b, c, d, e, f, g, h] = [t, a, b, c, u, e, f, g]"
  by (cases kw) (simp add: Let_def)

lemma list8_cases: assumes "length s = 8" obtains a b c d e f g h where "s = [a, b, c, d, e, f, g, h]"
  using assms by (auto simp: numeral_eq_Suc length_Suc_conv)

lemma length_shift_round [simp]: "length (shift_round kw s) = length s"
  by (induction kw s rule: shift_round.induct) (simp_all add: Let_def)

lemma length_fold_shift_round [simp]: "length (fold shift_round kws s) = length s"
  by (induction kws arbitrary: s) simp_all

lemma eight_rounds_eq:
  assumes "length s = 8"
  shows "eight_rounds w i s = fold shift_round (map (\<lambda>j. (sha512_k ! j, w ! j)) [i..<i + 8]) s"
proof -
  let ?r = "\<lambda>j. shift_round (sha512_k ! (i + j), w ! (i + j))"
  obtain a b c d e f g h where s: "s = [a, b, c, d, e, f, g, h]" using assms by (rule list8_cases)
  obtain t0 u0 where r0: "?r 0 [a, b, c, d, e, f, g, h] = [t0, a, b, c, u0, e, f, g]" using shift_round_shape by blast
  obtain t1 u1 where r1: "?r 1 [t0, a, b, c, u0, e, f, g] = [t1, t0, a, b, u1, u0, e, f]" using shift_round_shape by blast
  obtain t2 u2 where r2: "?r 2 [t1, t0, a, b, u1, u0, e, f] = [t2, t1, t0, a, u2, u1, u0, e]" using shift_round_shape by blast
  obtain t3 u3 where r3: "?r 3 [t2, t1, t0, a, u2, u1, u0, e] = [t3, t2, t1, t0, u3, u2, u1, u0]" using shift_round_shape by blast
  obtain t4 u4 where r4: "?r 4 [t3, t2, t1, t0, u3, u2, u1, u0] = [t4, t3, t2, t1, u4, u3, u2, u1]" using shift_round_shape by blast
  obtain t5 u5 where r5: "?r 5 [t4, t3, t2, t1, u4, u3, u2, u1] = [t5, t4, t3, t2, u5, u4, u3, u2]" using shift_round_shape by blast
  obtain t6 u6 where r6: "?r 6 [t5, t4, t3, t2, u5, u4, u3, u2] = [t6, t5, t4, t3, u6, u5, u4, u3]" using shift_round_shape by blast
  obtain t7 u7 where r7: "?r 7 [t6, t5, t4, t3, u6, u5, u4, u3] = [t7, t6, t5, t4, u7, u6, u5, u4]" using shift_round_shape by blast
  note rs = RND_shift_round(1) [OF r0] RND_shift_round(2) [OF r1] RND_shift_round(3) [OF r2] RND_shift_round(4) [OF r3]
    RND_shift_round(5) [OF r4] RND_shift_round(6) [OF r5] RND_shift_round(7) [OF r6] RND_shift_round(8) [OF r7]
  have "[i..<i + 8] = [i + 0, i + 1, i + 2, i + 3, i + 4, i + 5, i + 6, i + 7]" by (simp add: upt_rec)
  then show ?thesis
    by (simp only: s eight_rounds_def Let_def rs list.map fold.simps r0 r1 r2 r3 r4 r5 r6 r7 comp_def id_def)
qed

lemma length_fill_schedule [simp]: "length (fill_schedule n w) = length w + n"
  by (induction n arbitrary: w) simp_all

lemma length_sha512_k [simp]: "length sha512_k = 80"
  by (simp add: sha512_k_def)

lemma fold_eight_rounds:
  "length s = 8 \<Longrightarrow> fold (eight_rounds w) (map ((*) 8) [m..<m + n]) s =
     fold shift_round (map (\<lambda>j. (sha512_k ! j, w ! j)) [8 * m..<8 * (m + n)]) s"
proof (induction n arbitrary: m s)
  case (Suc n)
  have "[m..<m + Suc n] = m # [Suc m..<Suc m + n]" by (simp add: upt_rec)
  moreover have "[8 * m..<8 * (m + Suc n)] = [8 * m..<8 * m + 8] @ [8 * Suc m..<8 * (Suc m + n)]"
    using upt_add_eq_append [of "8 * m" "8 * m + 8" "8 * n"] by (simp add: algebra_simps)
  ultimately show ?case using Suc.prems Suc.IH [of "eight_rounds w (8 * m) s" "Suc m"]
    by (simp add: eight_rounds_eq)
qed simp

lemma sha512_compress_eq:
  assumes "length state = 8" "length blk = 128"
  shows "sha512_compress state blk = sha512_block state blk"
proof -
  let ?w = "fill_schedule 64 (load_block512 blk)"
  have load: "load_block512 blk = map (\<lambda>i. of_be (take 8 (drop (8 * i) blk))) [0..<16]"
    using assms(2) by (auto simp: load_block512_def intro!: load64h_eq)
  then have len: "length ?w = 80" by simp
  have "[0, 8, 16, 24, 32, 40, 48, 56, 64, 72] = map ((*) 8) [0..<0 + 10]" by (simp add: upt_rec)
  then have "fold (eight_rounds ?w) [0, 8, 16, 24, 32, 40, 48, 56, 64, 72] state =
      fold shift_round (map (\<lambda>j. (sha512_k ! j, ?w ! j)) [0..<80]) state"
    using fold_eight_rounds [OF assms(1), of ?w 0 10] by (simp only:) simp
  also have "map (\<lambda>j. (sha512_k ! j, ?w ! j)) [0..<80] = zip sha512_k ?w"
    using len by (simp add: list_eq_iff_nth_eq)
  finally show ?thesis
    using assms(1) by (simp add: sha512_compress_def sha512_block_def Let_def load list_eq_iff_nth_eq)
qed

section \<open>The streaming code computes the reference\<close>

definition hash_full :: "byte list \<Rightarrow> u64 list" where
  "hash_full bs = fold (\<lambda>b s. sha512_block s b) (blocks_of (length bs div 128) bs) sha512_iv"

lemma blocks_of_append:
  "length xs = 128 * m \<Longrightarrow> blocks_of (m + n) (xs @ ys) = blocks_of m xs @ blocks_of n ys"
  by (induction m arbitrary: xs) simp_all

lemma length_sha512_block [simp]: "length (sha512_block s b) = length s"
  by (simp add: sha512_block_def)

lemma length_hash_full [simp]: "length (hash_full bs) = 8"
proof -
  have "length (fold (\<lambda>b s. sha512_block s b) bs s) = length s" for bs s
    by (induction bs arbitrary: s) simp_all
  then show ?thesis by (simp add: hash_full_def sha512_iv_def)
qed

lemma hash_full_append:
  assumes "128 dvd length full" "length blk = 128"
  shows "hash_full (full @ blk) = sha512_block (hash_full full) blk"
proof -
  obtain m where m: "length full = 128 * m" using assms(1) by (auto elim: dvdE)
  have "blocks_of (m + 1) (full @ blk) = blocks_of m full @ [blk]"
    using blocks_of_append [OF m, of 1 blk] assms(2) by simp
  then show ?thesis using m assms(2) by (simp add: hash_full_def add.commute)
qed

lemma hash_full_step:
  "128 dvd length full \<Longrightarrow> length blk = 128 \<Longrightarrow> sha512_compress (hash_full full) blk = hash_full (full @ blk)"
  by (simp add: hash_full_append sha512_compress_eq)

lemma copy_bytes_eq:
  "k + length bs \<le> length buf \<Longrightarrow> copy_bytes k bs buf = take k buf @ bs @ drop (k + length bs) buf"
proof (induction bs arbitrary: k buf)
  case (Cons b bs)
  then have "take (Suc k) (buf[k := b]) = take k buf @ [b]" by (simp add: take_Suc_conv_app_nth)
  with Cons show ?case by simp
qed simp

definition s5_inv :: "sha512_context \<Rightarrow> byte list \<Rightarrow> byte list \<Rightarrow> bool" where
  "s5_inv md full rest \<longleftrightarrow>
     128 dvd length full \<and> length rest < 128 \<and> length (s5_buf md) = 128 \<and> s5_curlen md = length rest \<and>
     take (length rest) (s5_buf md) = rest \<and> s5_length md = word_of_nat (8 * length full) \<and>
     s5_state md = hash_full full"

lemma s5_inv_init: "length (s5_buf md) = 128 \<Longrightarrow> s5_inv (sha512_init md) [] []"
  by (simp add: s5_inv_def sha512_init_def hash_full_def)

text \<open>A piece that fits into the buffer, which is compressed when it is full.\<close>

lemma s5_inv_fill:
  assumes inv: "s5_inv md full rest" and n: "length rest + length piece \<le> 128"
    and md1: "md1 = md\<lparr>s5_buf := copy_bytes (s5_curlen md) piece (s5_buf md), s5_curlen := s5_curlen md + length piece\<rparr>"
    and md2: "md2 = (if s5_curlen md1 = 128
      then md1\<lparr>s5_state := sha512_compress (s5_state md1) (s5_buf md1), s5_length := s5_length md1 + 8 * 128, s5_curlen := 0\<rparr>
      else md1)"
  shows "\<exists>full' rest'. full' @ rest' = full @ rest @ piece \<and> s5_inv md2 full' rest'"
proof -
  note i = inv [unfolded s5_inv_def]
  have "copy_bytes (length rest) piece (s5_buf md) = take (length rest) (s5_buf md) @ piece @ drop (length rest + length piece) (s5_buf md)"
    using i n by (subst copy_bytes_eq) simp_all
  then have m: "s5_buf md1 = rest @ piece @ drop (length rest + length piece) (s5_buf md)" "s5_curlen md1 = length rest + length piece"
      "s5_length md1 = word_of_nat (8 * length full)" "s5_state md1 = hash_full full"
    using i by (simp_all add: md1)
  show ?thesis
  proof (cases "length rest + length piece = 128")
    case True
    then have "length (rest @ piece) = 128" "s5_buf md1 = rest @ piece" using i m(1) by simp_all
    then have "s5_inv md2 (full @ rest @ piece) []"
      using i True m hash_full_step [of full "rest @ piece"] by (simp add: s5_inv_def md2 algebra_simps)
    then show ?thesis by (intro exI [of _ "full @ rest @ piece"] exI [of _ "[]"]) simp
  next
    case False
    then have "s5_inv md2 full (rest @ piece)" using i n m by (simp add: s5_inv_def md2)
    then show ?thesis by blast
  qed
qed

lemma s5_inv_loop:
  "s5_inv md full rest \<Longrightarrow>
   \<exists>full' rest'. full' @ rest' = full @ rest @ input \<and> s5_inv (sha512_loop md input) full' rest'"
proof (induction md input arbitrary: full rest rule: sha512_loop.induct)
  case (1 md input)
  note inv = 1(3) [unfolded s5_inv_def]
  consider "input = []" | "input \<noteq> []" "s5_curlen md = 0" "128 \<le> length input"
    | "input \<noteq> []" "\<not> (s5_curlen md = 0 \<and> 128 \<le> length input)" by metis
  then show ?case
  proof cases
    case 1
    have "sha512_loop md input = md" by (subst sha512_loop.simps) (simp add: 1)
    then show ?thesis using \<open>s5_inv md full rest\<close> 1 by auto
  next
    case 2
    let ?md' = "md\<lparr>s5_state := sha512_compress (s5_state md) (take 128 input), s5_length := s5_length md + 128 * 8\<rparr>"
    have loop: "sha512_loop md input = sha512_loop ?md' (drop 128 input)"
      by (subst sha512_loop.simps) (simp add: 2)
    have rest: "rest = []" using inv 2 by simp
    have "s5_inv ?md' (full @ take 128 input) []"
      using inv 2 hash_full_step [of full "take 128 input"] by (simp add: s5_inv_def algebra_simps)
    from "1.IH"(1) [OF _ _ this] 2 show ?thesis unfolding loop by (simp add: rest)
  next
    case 3
    define n where "n = min (length input) (128 - s5_curlen md)"
    define md1 where "md1 = md\<lparr>s5_buf := copy_bytes (s5_curlen md) (take n input) (s5_buf md), s5_curlen := s5_curlen md + n\<rparr>"
    define md2 where "md2 = (if s5_curlen md1 = 128
      then md1\<lparr>s5_state := sha512_compress (s5_state md1) (s5_buf md1), s5_length := s5_length md1 + 8 * 128, s5_curlen := 0\<rparr>
      else md1)"
    have guard: "\<not> (input = [] \<or> 128 < s5_curlen md)" using 3 inv by simp
    have loop: "sha512_loop md input = sha512_loop md2 (drop n input)"
      unfolding sha512_loop.simps [of md input] if_not_P [OF guard] if_not_P [OF 3(2)]
      by (simp only: Let_def md2_def md1_def n_def)
    have len: "length (take n input) = n" "length rest + n \<le> 128" using inv by (auto simp: n_def)
    then obtain full' rest' where *: "full' @ rest' = full @ rest @ take n input" "s5_inv md2 full' rest'"
      using s5_inv_fill [OF 1(3), of "take n input" md1 md2] by (auto simp: md1_def md2_def)
    have "\<exists>f r. f @ r = full' @ rest' @ drop n input \<and> s5_inv (sha512_loop md2 (drop n input)) f r"
      using "1.IH"(2) [OF guard 3(2) refl refl, of full' rest'] *(2) unfolding md2_def md1_def n_def by simp
    moreover have "full' @ rest' @ drop n input = full @ rest @ input"
      using *(1) by (metis append.assoc append_take_drop_id)
    ultimately show ?thesis unfolding loop by simp
  qed
qed

section \<open>Padding\<close>

lemma length_sha512_compress: "length (sha512_compress s b) = 8"
  by (simp add: sha512_compress_def Let_def)

lemma length_store64h [simp]: "length (store64h x) = 8"
  by (simp add: store64h_def)

lemma copy_bytes_after:
  "length pre = k \<Longrightarrow> length bs \<le> length post \<Longrightarrow> copy_bytes k bs (pre @ post) = pre @ bs @ drop (length bs) post"
  by (simp add: copy_bytes_eq)

lemma be_bytes_wide:
  assumes "n < 2 ^ 64"
  shows "be_bytes 16 (word_of_nat n :: u128) = replicate 8 0 @ be_bytes 8 (word_of_nat n :: u64)"
proof -
  have byte: "ucast (drop_bit k (word_of_nat n :: u128)) = (ucast (drop_bit k (word_of_nat n :: u64)) :: byte)" for k
  proof (rule bit_word_eqI)
    fix i
    have "k + i < 64" if "bit n (k + i)"
      using assms that by (metis bit_take_bit_iff take_bit_nat_eq_self)
    note small = this
    show "bit (ucast (drop_bit k (word_of_nat n :: u128)) :: byte) i =
        bit (ucast (drop_bit k (word_of_nat n :: u64)) :: byte) i"
      by (auto simp: bit_simps dest: small)
  qed
  have high: "drop_bit k (word_of_nat n :: u64) = 0" if "64 \<le> k" for k
    using that by (auto intro!: bit_word_eqI simp: bit_simps dest: bit_imp_le_length)
  show ?thesis by (simp add: be_bytes_def byte high upt_rec numeral_eq_Suc)
qed

lemma hash_full_padding:
  assumes inv: "s5_inv md full rest" and small: "length (full @ rest) < 2 ^ 61"
  shows "sha512_spec (full @ rest) = concat (map (be_bytes 8)
    (hash_full (full @ rest @ 0x80 # replicate ((if length rest < 112 then 119 else 247) - length rest) 0 @
       be_bytes 8 (word_of_nat (8 * length (full @ rest)) :: u64))))"
proof -
  let ?n = "8 * length (full @ rest)"
  have full: "128 dvd length full" "length rest < 128" using inv by (simp_all add: s5_inv_def)
  then have "length (full @ rest) mod 128 = length rest" by (auto elim!: dvdE)
  then have "(239 - length (full @ rest) mod 128) mod 128 + 8 = (if length rest < 112 then 119 else 247) - length rest"
    using full(2) by (auto simp: mod_if)
  moreover have "be_bytes 16 (word_of_nat ?n :: u128) = replicate 8 0 @ be_bytes 8 (word_of_nat ?n :: u64)"
    by (rule be_bytes_wide) (use small in simp)
  ultimately have "sha512_padding (full @ rest) = full @ rest @ 0x80 #
      replicate ((if length rest < 112 then 119 else 247) - length rest) 0 @ be_bytes 8 (word_of_nat ?n :: u64)"
    unfolding sha512_padding_def by (metis append.assoc append_Cons replicate_add)
  then show ?thesis by (simp add: sha512_spec_def Let_def hash_full_def)
qed

lemma sha512_length_eq:
  "s5_inv md full rest \<Longrightarrow> s5_length md + word_of_nat (s5_curlen md) * 8 = word_of_nat (8 * length (full @ rest))"
  by (simp add: s5_inv_def algebra_simps)

text \<open>
  The padding, from a context \<open>md0\<close> that has the byte \<open>0x80\<close> behind the rest: the length \<open>len\<close> fits
  into the block of the rest, or needs one of its own.
\<close>

lemma pad_same_block:
  assumes "length rest < 112" "128 dvd length full" "length len = 8" "s5_curlen md0 = length rest + 1"
    and pre: "take (length rest + 1) (s5_buf md0) = rest @ [0x80]" "length (s5_buf md0) = 128"
  shows "sha512_compress (hash_full full) (copy_bytes 120 len (s5_buf (zero_to 120 md0))) =
    hash_full (full @ rest @ 0x80 # replicate (119 - length rest) 0 @ len)"
proof -
  let ?zeros = "replicate (119 - length rest) 0 :: byte list"
  have "s5_buf (zero_to 120 md0) = (rest @ [0x80]) @ ?zeros @ drop 120 (s5_buf md0)"
    using assms by (simp add: zero_to_def copy_bytes_eq)
  then have "copy_bytes 120 len (s5_buf (zero_to 120 md0)) = rest @ 0x80 # ?zeros @ len"
    using assms copy_bytes_after [of "rest @ 0x80 # ?zeros" 120 len "drop 120 (s5_buf md0)"] by simp
  then show ?thesis using assms hash_full_step [of full "rest @ 0x80 # ?zeros @ len"] by simp
qed

lemma pad_next_block:
  assumes "112 \<le> length rest" "length rest < 128" "128 dvd length full" "length len = 8" "s5_curlen md0 = length rest + 1"
    and pre: "take (length rest + 1) (s5_buf md0) = rest @ [0x80]" "length (s5_buf md0) = 128"
    and md: "md = (zero_to 128 md0)\<lparr>s5_state := sha512_compress (hash_full full) (s5_buf (zero_to 128 md0)), s5_curlen := 0\<rparr>"
  shows "sha512_compress (s5_state (zero_to 120 md)) (copy_bytes 120 len (s5_buf (zero_to 120 md))) =
    hash_full (full @ rest @ 0x80 # replicate (247 - length rest) 0 @ len)"
proof -
  let ?zeros = "\<lambda>k. replicate k 0 :: byte list" and ?b = "rest @ 0x80 # replicate (127 - length rest) 0"
  have b: "length ?b = 128" "s5_buf (zero_to 128 md0) = ?b"
    using assms by (simp_all add: zero_to_def copy_bytes_eq)
  have "s5_buf (zero_to 120 md) = ?zeros 120 @ drop 120 ?b"
    using b by (simp add: md zero_to_def copy_bytes_eq)
  then have buf: "copy_bytes 120 len (s5_buf (zero_to 120 md)) = ?zeros 120 @ len"
    using b assms(4) copy_bytes_after [of "?zeros 120" 120 len "drop 120 ?b"] by simp
  have "s5_state (zero_to 120 md) = hash_full (full @ ?b)"
    using assms(3) b hash_full_step [of full ?b] by (simp add: md zero_to_def)
  then have "sha512_compress (s5_state (zero_to 120 md)) (?zeros 120 @ len) = hash_full ((full @ ?b) @ ?zeros 120 @ len)"
    using assms(3,4) b hash_full_step [of "full @ ?b" "?zeros 120 @ len"] by simp
  moreover have "?zeros (247 - length rest) = ?zeros (127 - length rest) @ ?zeros 120"
    using assms(2) by (simp flip: replicate_add)
  ultimately show ?thesis by (simp add: buf)
qed

lemma sha512_final_eq:
  assumes inv: "s5_inv md full rest" and small: "length (full @ rest) < 2 ^ 61"
  shows "sha512_final md = Some (sha512_spec (full @ rest))"
proof -
  note i = inv [unfolded s5_inv_def]
  let ?len = "be_bytes 8 (word_of_nat (8 * length (full @ rest)) :: u64)"
  define md0 where "md0 = md\<lparr>s5_length := word_of_nat (8 * length (full @ rest)), s5_buf := (s5_buf md)[length rest := 0x80],
    s5_curlen := length rest + 1\<rparr>"
  have pre: "s5_curlen md0 = length rest + 1" "take (length rest + 1) (s5_buf md0) = rest @ [0x80]" "length (s5_buf md0) = 128"
    using i by (simp_all add: md0_def take_Suc_conv_app_nth)
  define pad where "pad = sha512_pad md"
  have pad_eq: "pad = zero_to 120 (if 112 < length rest + 1
      then (zero_to 128 md0)\<lparr>s5_state := sha512_compress (hash_full full) (s5_buf (zero_to 128 md0)), s5_curlen := 0\<rparr>
      else md0)"
    using i sha512_length_eq [OF inv] by (simp add: pad_def sha512_pad_def md0_def Let_def zero_to_def)
  have len: "s5_length pad = word_of_nat (8 * length (full @ rest))"
    by (simp add: pad_eq zero_to_def md0_def)
  have emit: "map (\<lambda>j. store64h (s ! j)) [0..<8] = map (be_bytes 8) s" if "length s = 8" for s
    using that by (simp add: list_eq_iff_nth_eq store64h_eq)
  have "\<not> 128 \<le> s5_curlen md" using i by simp
  then have "sha512_final md = Some (concat (map (be_bytes 8) (sha512_compress (s5_state pad) (copy_bytes 120 ?len (s5_buf pad)))))"
    by (simp only: sha512_final_def Let_def if_False pad_def [symmetric] len store64h_eq [of "word_of_nat (8 * length (full @ rest))"] emit length_sha512_compress)
  also have "sha512_compress (s5_state pad) (copy_bytes 120 ?len (s5_buf pad)) =
      hash_full (full @ rest @ 0x80 # replicate ((if length rest < 112 then 119 else 247) - length rest) 0 @ ?len)"
  proof (cases "length rest < 112")
    case True
    then have "s5_state pad = hash_full full" using i by (simp add: pad_eq zero_to_def md0_def)
    then show ?thesis using True i pad_same_block [of rest full ?len md0] pre by (simp add: pad_eq)
  next
    case False
    then show ?thesis using i pad_next_block [of rest full ?len md0] pre by (simp add: pad_eq)
  qed
  finally show ?thesis by (simp only: hash_full_padding [OF inv small])
qed

section \<open>Any pieces\<close>

lemma sha512_update_loop: "s5_inv md full rest \<Longrightarrow> sha512_update md input = (0, sha512_loop md input)"
  by (simp add: sha512_update_def s5_inv_def)

lemma s5_inv_pieces:
  "s5_inv md full rest \<Longrightarrow> \<exists>full' rest'. full' @ rest' = full @ rest @ concat pieces \<and>
     s5_inv (fold (\<lambda>p md. snd (sha512_update md p)) pieces md) full' rest'"
proof (induction pieces arbitrary: md full rest)
  case (Cons p pieces)
  from s5_inv_loop [OF Cons.prems, of p] obtain f r
    where fr: "f @ r = full @ rest @ p" "s5_inv (sha512_loop md p) f r" by auto
  from Cons.IH [OF fr(2)] obtain f' r' where "f' @ r' = f @ r @ concat pieces"
      "s5_inv (fold (\<lambda>p md. snd (sha512_update md p)) pieces (sha512_loop md p)) f' r'" by auto
  moreover from this(1) have "f' @ r' = full @ rest @ concat (p # pieces)"
    using fr(1) by (metis append.assoc concat.simps(2))
  ultimately show ?case using sha512_update_loop [OF Cons.prems, of p] by auto
qed auto

lemma sha512_pieces_eq:
  assumes "length (s5_buf md) = 128" "length (concat pieces) < 2 ^ 61"
  shows "sha512_pieces md pieces = Some (sha512_spec (concat pieces))"
proof -
  obtain f r where "f @ r = concat pieces" "s5_inv (fold (\<lambda>p md. snd (sha512_update md p)) pieces (sha512_init md)) f r"
    using s5_inv_pieces [OF s5_inv_init [OF assms(1)], of pieces] by auto
  then show ?thesis using sha512_final_eq [of _ f r] assms(2) by (simp add: sha512_pieces_def)
qed

lemma length_sha512_spec [simp]: "length (sha512_spec m) = 64"
proof -
  have "length (concat (map (be_bytes 8) (xs :: u64 list))) = 8 * length xs" for xs
    by (induction xs) simp_all
  then show ?thesis using length_hash_full by (simp add: sha512_spec_def hash_full_def Let_def del: length_hash_full)
qed

lemma sha512_eq:
  assumes "length (s5_buf md) = 128" "length m < 2 ^ 61"
  shows "sha512 md m = Some (sha512_spec m)"
proof -
  have "sha512 md m = sha512_pieces md [m]"
    using sha512_update_loop [OF s5_inv_init [OF assms(1)]] by (simp add: sha512_def sha512_pieces_def Let_def)
  then show ?thesis using sha512_pieces_eq [of md "[m]"] assms by simp
qed

text \<open>
  C25. The streaming code of SHA-512 hashes any sequence of pieces of less than \<open>2^61\<close> bytes in all to the
  digest of the standard on their concatenation, from any context, and the one-shot function agrees.
\<close>

theorem sha512_streams:
  assumes "length (s5_buf md) = 128" "length (concat pieces) < 2 ^ 61"
  shows "sha512_pieces md pieces = Some (sha512_spec (concat pieces)) \<and>
    sha512 md (concat pieces) = Some (sha512_spec (concat pieces))"
  using sha512_pieces_eq [OF assms] sha512_eq [OF assms] by simp

text \<open>The contents of a local variable that is not initialised: any would do.\<close>

definition blank_sha512 :: sha512_context where
  "blank_sha512 = \<lparr>s5_length = 0, s5_state = replicate 8 0, s5_curlen = 0, s5_buf = replicate 128 0\<rparr>"

theorem sha512_streams_witness:
  "sha512_pieces blank_sha512 [[97], [98, 99]] = Some (sha512_spec [97, 98, 99]) \<and>
   sha512 blank_sha512 [97, 98, 99] = Some (sha512_spec [97, 98, 99])"
  using sha512_streams [of blank_sha512 "[[97], [98, 99]]"] by (simp add: blank_sha512_def)

end
