(* ===== verification/Scalar.thy ===== *)
theory Scalar
  imports Prelude "HOL-Library.Monad_Syntax"
begin

text \<open>
  The scalar arithmetic of the vendored Ed25519 (\<^verbatim>\<open>third_party/ed25519_ref10/sc.c\<close>): the reduction of
  64 bytes and the multiplication with addition, modulo the order of the base point.  A scalar is
  held in signed limbs of 21 bits.  Signed arithmetic is undefined in C where it leaves 64 bits, so
  every operation on limbs checks its range and the functions return an option: that they return
  a value at all says that no operation overflows.  A left shift of a negative carry, which
  older C leaves undefined too, is the multiplication compilers make of it.  The ranges are discharged by an interval
  analysis of the sequence of operations, which is evaluated once; the values are followed
  separately, each operation keeping the number the limbs stand for, or its residue.
\<close>

section \<open>The order of the base point\<close>

definition ell :: int where
  "ell = 2 ^ 252 + 27742317777372353535851937790883648493"

section \<open>Loading\<close>

definition load_3 :: "byte list \<Rightarrow> u64" where
  "load_3 xs = ucast (xs ! 0) OR push_bit 8 (ucast (xs ! 1)) OR push_bit 16 (ucast (xs ! 2))"

definition load_4 :: "byte list \<Rightarrow> u64" where
  "load_4 xs = ucast (xs ! 0) OR push_bit 8 (ucast (xs ! 1)) OR push_bit 16 (ucast (xs ! 2)) OR
     push_bit 24 (ucast (xs ! 3))"

definition mask_limb :: "u64 \<Rightarrow> int" where
  "mask_limb w = uint (2097151 AND w)"

text \<open>The first eleven limbs, which both functions load in the same way.\<close>

definition low_limbs :: "byte list \<Rightarrow> int list" where
  "low_limbs s =
     [mask_limb (load_3 s), mask_limb (drop_bit 5 (load_4 (drop 2 s))), mask_limb (drop_bit 2 (load_3 (drop 5 s))),
      mask_limb (drop_bit 7 (load_4 (drop 7 s))), mask_limb (drop_bit 4 (load_4 (drop 10 s))),
      mask_limb (drop_bit 1 (load_3 (drop 13 s))), mask_limb (drop_bit 6 (load_4 (drop 15 s))),
      mask_limb (drop_bit 3 (load_3 (drop 18 s))), mask_limb (load_3 (drop 21 s)),
      mask_limb (drop_bit 5 (load_4 (drop 23 s))), mask_limb (drop_bit 2 (load_3 (drop 26 s)))]"

definition load_24 :: "byte list \<Rightarrow> int list" where
  "load_24 s = low_limbs s @
     [mask_limb (drop_bit 7 (load_4 (drop 28 s))), mask_limb (drop_bit 4 (load_4 (drop 31 s))),
      mask_limb (drop_bit 1 (load_3 (drop 34 s))), mask_limb (drop_bit 6 (load_4 (drop 36 s))),
      mask_limb (drop_bit 3 (load_3 (drop 39 s))), mask_limb (load_3 (drop 42 s)),
      mask_limb (drop_bit 5 (load_4 (drop 44 s))), mask_limb (drop_bit 2 (load_3 (drop 47 s))),
      mask_limb (drop_bit 7 (load_4 (drop 49 s))), mask_limb (drop_bit 4 (load_4 (drop 52 s))),
      mask_limb (drop_bit 1 (load_3 (drop 55 s))), mask_limb (drop_bit 6 (load_4 (drop 57 s))),
      uint (drop_bit 3 (load_4 (drop 60 s)))]"

definition load_12 :: "byte list \<Rightarrow> int list" where
  "load_12 a = low_limbs a @ [uint (drop_bit 7 (load_4 (drop 28 a)))]"

section \<open>Operations on limbs\<close>

definition i64 :: "int \<Rightarrow> int option" where
  "i64 x = (if - (2 ^ 63) \<le> x \<and> x < 2 ^ 63 then Some x else None)"

text \<open>\<^verbatim>\<open>s_(i+1) += c; s_i -= c << 21;\<close> for the carry \<open>c\<close> out of limb \<open>i\<close>, which is rounded or floored.\<close>

definition move_carry :: "nat \<Rightarrow> int \<Rightarrow> int list \<Rightarrow> int list option" where
  "move_carry i c s =
     do {
       u \<leftarrow> i64 (s ! (i + 1) + c);
       p \<leftarrow> i64 (push_bit 21 c);
       v \<leftarrow> i64 (s ! i - p);
       Some (s[i + 1 := u, i := v])
     }"

definition carry_round :: "nat \<Rightarrow> int list \<Rightarrow> int list option" where
  "carry_round i s = do { t \<leftarrow> i64 (s ! i + push_bit 20 1); move_carry i (drop_bit 21 t) s }"

definition carry_floor :: "nat \<Rightarrow> int list \<Rightarrow> int list option" where
  "carry_floor i s = move_carry i (drop_bit 21 (s ! i)) s"

definition add_mul :: "nat \<Rightarrow> int \<Rightarrow> int \<Rightarrow> int list \<Rightarrow> int list option" where
  "add_mul k x m s = do { p \<leftarrow> i64 (x * m); t \<leftarrow> i64 (s ! k + p); Some (s[k := t]) }"

definition sub_mul :: "nat \<Rightarrow> int \<Rightarrow> int \<Rightarrow> int list \<Rightarrow> int list option" where
  "sub_mul k x m s = do { p \<leftarrow> i64 (x * m); t \<leftarrow> i64 (s ! k - p); Some (s[k := t]) }"

text \<open>Limb \<open>j\<close> folded into six lower ones and cleared.\<close>

definition fold_limb :: "nat \<Rightarrow> int list \<Rightarrow> int list option" where
  "fold_limb j s =
     do {
       s \<leftarrow> add_mul (j - 12) (s ! j) 666643 s;
       s \<leftarrow> add_mul (j - 11) (s ! j) 470296 s;
       s \<leftarrow> add_mul (j - 10) (s ! j) 654183 s;
       s \<leftarrow> sub_mul (j - 9) (s ! j) 997805 s;
       s \<leftarrow> add_mul (j - 8) (s ! j) 136657 s;
       s \<leftarrow> sub_mul (j - 7) (s ! j) 683901 s;
       Some (s[j := 0])
     }"

fun run_ops :: "('a \<Rightarrow> 'a option) list \<Rightarrow> 'a \<Rightarrow> 'a option" where
  "run_ops [] s = Some s"
| "run_ops (f # fs) s = do { s \<leftarrow> f s; run_ops fs s }"

text \<open>
  From the first fold to the last floored carry, the same in both functions: up to the carry that
  fills limb 12 for the last time, and what folds it away.
\<close>

definition fold_phase :: "(int list \<Rightarrow> int list option) list" where
  "fold_phase =
     map fold_limb [23, 22, 21, 20, 19, 18] @
     map carry_round [6, 8, 10, 12, 14, 16] @ map carry_round [7, 9, 11, 13, 15] @
     map fold_limb [17, 16, 15, 14, 13, 12] @
     map carry_round [0, 2, 4, 6, 8, 10] @ map carry_round [1, 3, 5, 7, 9, 11] @
     [fold_limb 12] @ map carry_floor [0, 1, 2, 3, 4, 5, 6, 7, 8, 9, 10, 11]"

definition last_phase :: "(int list \<Rightarrow> int list option) list" where
  "last_phase = [fold_limb 12] @ map carry_floor [0, 1, 2, 3, 4, 5, 6, 7, 8, 9, 10]"

definition sc_fold :: "int list \<Rightarrow> int list option" where
  "sc_fold s = do { s \<leftarrow> run_ops fold_phase s; run_ops last_phase s }"

section \<open>Storing\<close>

definition trunc_byte :: "int \<Rightarrow> byte" where
  "trunc_byte x = word_of_int x"

definition sc_store :: "int list \<Rightarrow> byte list" where
  "sc_store s =
     [trunc_byte (drop_bit 0 (s ! 0)), trunc_byte (drop_bit 8 (s ! 0)),
      trunc_byte (drop_bit 16 (s ! 0) OR push_bit 5 (s ! 1)), trunc_byte (drop_bit 3 (s ! 1)),
      trunc_byte (drop_bit 11 (s ! 1)), trunc_byte (drop_bit 19 (s ! 1) OR push_bit 2 (s ! 2)),
      trunc_byte (drop_bit 6 (s ! 2)), trunc_byte (drop_bit 14 (s ! 2) OR push_bit 7 (s ! 3)),
      trunc_byte (drop_bit 1 (s ! 3)), trunc_byte (drop_bit 9 (s ! 3)),
      trunc_byte (drop_bit 17 (s ! 3) OR push_bit 4 (s ! 4)), trunc_byte (drop_bit 4 (s ! 4)),
      trunc_byte (drop_bit 12 (s ! 4)), trunc_byte (drop_bit 20 (s ! 4) OR push_bit 1 (s ! 5)),
      trunc_byte (drop_bit 7 (s ! 5)), trunc_byte (drop_bit 15 (s ! 5) OR push_bit 6 (s ! 6)),
      trunc_byte (drop_bit 2 (s ! 6)), trunc_byte (drop_bit 10 (s ! 6)),
      trunc_byte (drop_bit 18 (s ! 6) OR push_bit 3 (s ! 7)), trunc_byte (drop_bit 5 (s ! 7)),
      trunc_byte (drop_bit 13 (s ! 7)), trunc_byte (drop_bit 0 (s ! 8)),
      trunc_byte (drop_bit 8 (s ! 8)), trunc_byte (drop_bit 16 (s ! 8) OR push_bit 5 (s ! 9)),
      trunc_byte (drop_bit 3 (s ! 9)), trunc_byte (drop_bit 11 (s ! 9)),
      trunc_byte (drop_bit 19 (s ! 9) OR push_bit 2 (s ! 10)), trunc_byte (drop_bit 6 (s ! 10)),
      trunc_byte (drop_bit 14 (s ! 10) OR push_bit 7 (s ! 11)), trunc_byte (drop_bit 1 (s ! 11)),
      trunc_byte (drop_bit 9 (s ! 11)), trunc_byte (drop_bit 17 (s ! 11))]"

section \<open>The two functions\<close>

text \<open>\<^verbatim>\<open>sc_reduce\<close> works in place: the upper half of the 64 bytes stays as it was.\<close>

definition sc_reduce :: "byte list \<Rightarrow> byte list option" where
  "sc_reduce s = do { t \<leftarrow> sc_fold (load_24 s); Some (sc_store t @ drop 32 s) }"

text \<open>A sum of products from left to right, and the limbs \<open>s_0\<close> to \<open>s_23\<close> of \<open>a b + c\<close>.\<close>

fun add_products :: "int \<Rightarrow> (int \<times> int) list \<Rightarrow> int option" where
  "add_products acc [] = Some acc"
| "add_products acc ((x, y) # ps) = do { p \<leftarrow> i64 (x * y); t \<leftarrow> i64 (acc + p); add_products t ps }"

definition limb_pairs :: "int list \<Rightarrow> int list \<Rightarrow> nat \<Rightarrow> (int \<times> int) list" where
  "limb_pairs a b k = map (\<lambda>i. (a ! i, b ! (k - i))) (filter (\<lambda>i. i \<le> k \<and> k - i < 12) [0..<12])"

definition product_limb :: "int list \<Rightarrow> int list \<Rightarrow> int list \<Rightarrow> nat \<Rightarrow> int option" where
  "product_limb a b c k = add_products (if k < 12 then c ! k else 0) (limb_pairs a b k)"

fun collect_some :: "'a option list \<Rightarrow> 'a list option" where
  "collect_some [] = Some []"
| "collect_some (x # xs) = do { y \<leftarrow> x; ys \<leftarrow> collect_some xs; Some (y # ys) }"

definition product_limbs :: "int list \<Rightarrow> int list \<Rightarrow> int list \<Rightarrow> int list option" where
  "product_limbs a b c = collect_some (map (product_limb a b c) [0..<24])"

definition mul_phase :: "(int list \<Rightarrow> int list option) list" where
  "mul_phase = map carry_round [0, 2, 4, 6, 8, 10, 12, 14, 16, 18, 20, 22] @
     map carry_round [1, 3, 5, 7, 9, 11, 13, 15, 17, 19, 21]"

definition sc_muladd :: "byte list \<Rightarrow> byte list \<Rightarrow> byte list \<Rightarrow> byte list option" where
  "sc_muladd a b c =
     do {
       s \<leftarrow> product_limbs (load_12 a) (load_12 b) (load_12 c);
       s \<leftarrow> run_ops mul_phase s;
       t \<leftarrow> sc_fold s;
       Some (sc_store t)
     }"

section \<open>Numbers\<close>

fun le_val :: "byte list \<Rightarrow> int" where
  "le_val [] = 0"
| "le_val (b # bs) = uint b + 2 ^ 8 * le_val bs"

fun limbs_val :: "int list \<Rightarrow> int" where
  "limbs_val [] = 0"
| "limbs_val (x # xs) = x + 2 ^ 21 * limbs_val xs"

definition le_bytes :: "nat \<Rightarrow> int \<Rightarrow> byte list" where
  "le_bytes n x = map (\<lambda>j. trunc_byte (drop_bit (8 * j) x)) [0..<n]"

lemma uint_byte: "0 \<le> uint (b :: byte)" "uint (b :: byte) < 256"
  using uint_bounded [of b] by simp_all

lemma take_bit_byte [simp]: "take_bit 8 (uint (b :: byte)) = uint b"
  using uint_byte [of b] by (simp add: take_bit_eq_mod)

lemma le_val_Cons_bit: "le_val (b # bs) = concat_bit 8 (uint b) (le_val bs)"
  by (simp add: concat_bit_eq push_bit_eq_mult mult.commute)

lemma le_val_drop: "le_val (drop k bs) = drop_bit (8 * k) (le_val bs)"
proof (induction k arbitrary: bs)
  case (Suc k)
  show ?case
  proof (cases bs)
    case (Cons b bs')
    have "drop_bit 8 (le_val (b # bs')) = le_val bs'"
      using uint_byte [of b] by (simp add: drop_bit_eq_div)
    moreover have "drop_bit (8 * Suc k) x = drop_bit (8 * k) (drop_bit 8 x)" for x :: int
      by (simp add: drop_bit_drop_bit add.commute)
    ultimately show ?thesis using Suc [of bs'] Cons by (metis drop_Suc_Cons)
  qed simp
qed simp

lemma le_val_take: "le_val (take k bs) = take_bit (8 * k) (le_val bs)"
proof (induction k arbitrary: bs)
  case (Suc k)
  show ?case
  proof (cases bs)
    case (Cons b bs')
    then show ?thesis using Suc [of bs']
      by (simp add: le_val_Cons_bit del: le_val.simps(2))
        (auto intro!: bit_eqI simp: bit_concat_bit_iff bit_take_bit_iff)
  qed simp
qed simp

lemma bit_le_val: "bit (le_val bs) n \<longleftrightarrow> n div 8 < length bs \<and> bit (bs ! (n div 8)) (n mod 8)"
proof (induction bs arbitrary: n)
  case (Cons b bs)
  show ?case
  proof (cases "n < 8")
    case True
    then show ?thesis by (simp add: le_val_Cons_bit bit_concat_bit_iff bit_uint_iff del: le_val.simps(2))
  next
    case False
    then obtain m where n: "n = m + 8" by (metis add.commute le_Suc_ex not_less)
    have "(m + 8) div 8 = Suc (m div 8)" by simp
    with Cons [of m] n show ?thesis
      by (simp add: le_val_Cons_bit bit_concat_bit_iff del: le_val.simps(2) div_add_self2)
  qed
qed simp

lemma le_val_nonneg: "0 \<le> le_val bs"
  by (induction bs) (simp_all add: uint_byte)

lemma le_bytes_Suc: "le_bytes (Suc n) x = trunc_byte x # le_bytes n (drop_bit 8 x)"
  by (simp add: le_bytes_def upt_rec [of 0 "Suc n"] map_Suc_upt [symmetric] add.commute del: upt_Suc)

lemma le_val_le_bytes: "le_val (le_bytes n x) = take_bit (8 * n) x"
proof (induction n arbitrary: x)
  case (Suc n)
  have "uint (trunc_byte x) + 2 ^ 8 * take_bit (8 * n) (drop_bit 8 x) = take_bit (8 * Suc n) x"
    by (simp add: trunc_byte_def uint_word_of_int_eq) (simp add: take_bit_eq_mod drop_bit_eq_div power_add zmod_zmult2_eq)
  then show ?case using Suc [of "drop_bit 8 x"] by (simp add: le_bytes_Suc)
qed (simp add: le_bytes_def)

lemma length_le_bytes [simp]: "length (le_bytes n x) = n"
  by (simp add: le_bytes_def)

lemma uint_load_of_be:
  assumes "load = (of_be (rev (take k xs)) :: u64)" "k \<le> length xs" "k \<le> 8"
  shows "uint load = take_bit (8 * k) (le_val xs)"
  using assms by (intro bit_eqI)
    (auto simp: bit_uint_iff bit_of_be bit_take_bit_iff bit_le_val)

lemma uint_load_3: assumes "3 \<le> length xs" shows "uint (load_3 xs) = take_bit 24 (le_val xs)"
proof -
  obtain a b c ys where xs: "xs = a # b # c # ys"
    using assms by (auto simp: numeral_eq_Suc Suc_le_length_iff)
  have "load_3 xs = of_be (rev (take 3 xs))"
    by (simp only: xs load_3_def of_be_def) (simp add: push_bit_or push_bit_push_bit ac_simps del: push_bit_eq_mult)
  from uint_load_of_be [OF this] assms show ?thesis by simp
qed

lemma uint_load_4: assumes "4 \<le> length xs" shows "uint (load_4 xs) = take_bit 32 (le_val xs)"
proof -
  obtain a b c d ys where xs: "xs = a # b # c # d # ys"
    using assms by (auto simp: numeral_eq_Suc Suc_le_length_iff)
  have "load_4 xs = of_be (rev (take 4 xs))"
    by (simp only: xs load_4_def of_be_def) (simp add: push_bit_or push_bit_push_bit ac_simps)
  from uint_load_of_be [OF this] assms show ?thesis by simp
qed

lemma mask_limb_eq: "mask_limb w = take_bit 21 (uint w)"
proof -
  have "(2097151 :: u64) = mask 21" by (simp add: mask_eq_exp_minus_1)
  then have "2097151 AND w = take_bit 21 w" by (simp add: take_bit_eq_mask and.commute)
  then show ?thesis by (auto simp: mask_limb_def bit_simps intro!: bit_eqI)
qed

lemma uint_drop_bit: "uint (drop_bit k (w :: u64)) = drop_bit k (uint w)"
  by (auto simp: bit_simps intro!: bit_eqI dest: bit_imp_le_length)

lemma mask_limb_load:
  "off + 3 \<le> length s \<Longrightarrow> sh + 21 \<le> 24 \<Longrightarrow>
   mask_limb (drop_bit sh (load_3 (drop off s))) = take_bit 21 (drop_bit (8 * off + sh) (le_val s))"
  "off + 4 \<le> length s \<Longrightarrow> sh + 21 \<le> 32 \<Longrightarrow>
   mask_limb (drop_bit sh (load_4 (drop off s))) = take_bit 21 (drop_bit (8 * off + sh) (le_val s))"
  "off + 3 \<le> length s \<Longrightarrow> mask_limb (load_3 (drop off s)) = take_bit 21 (drop_bit (8 * off) (le_val s))"
  "3 \<le> length s \<Longrightarrow> mask_limb (load_3 s) = take_bit 21 (le_val s)"
  unfolding mask_limb_eq uint_drop_bit
  by (auto simp: uint_load_3 uint_load_4 le_val_drop bit_take_bit_iff bit_drop_bit_eq add.assoc intro!: bit_eqI)

lemma top_limb_load:
  "off + 4 = length s \<Longrightarrow> uint (drop_bit sh (load_4 (drop off s))) = drop_bit (8 * off + sh) (le_val s)"
proof -
  assume len: "off + 4 = length s"
  then have "take 4 (drop off s) = drop off s" by simp
  then have "take_bit 32 (drop_bit (8 * off) (le_val s)) = drop_bit (8 * off) (le_val s)"
    using le_val_take [of 4 "drop off s"] by (simp add: le_val_drop)
  then show ?thesis using len
    by (simp add: uint_drop_bit uint_load_4 le_val_drop drop_bit_drop_bit add.commute)
qed

lemma limbs_val_digits:
  "limbs_val (map (\<lambda>i. take_bit 21 (drop_bit (21 * i) v)) [0..<n] @ [drop_bit (21 * n) v]) = v"
proof (induction n arbitrary: v)
  case (Suc n)
  have "map (\<lambda>i. take_bit 21 (drop_bit (21 * i) v)) [0..<Suc n] @ [drop_bit (21 * Suc n) v] =
      take_bit 21 v # map (\<lambda>i. take_bit 21 (drop_bit (21 * i) (drop_bit 21 v))) [0..<n] @ [drop_bit (21 * n) (drop_bit 21 v)]"
    by (simp add: upt_rec [of 0 "Suc n"] map_Suc_upt [symmetric] drop_bit_drop_bit add.commute del: upt_Suc)
  then have "limbs_val (map (\<lambda>i. take_bit 21 (drop_bit (21 * i) v)) [0..<Suc n] @ [drop_bit (21 * Suc n) v]) =
      take_bit 21 v + 2 ^ 21 * drop_bit 21 v"
    using Suc [of "drop_bit 21 v"] by simp
  also have "\<dots> = v" by (simp add: take_bit_eq_mod drop_bit_eq_div)
  finally show ?case .
qed simp

lemma limbs_load_24: "length s = 64 \<Longrightarrow> limbs_val (load_24 s) = le_val s"
proof -
  assume len: "length s = 64"
  have "load_24 s = map (\<lambda>i. take_bit 21 (drop_bit (21 * i) (le_val s))) [0..<23] @ [drop_bit (21 * 23) (le_val s)]"
    by (simp add: load_24_def low_limbs_def mask_limb_load top_limb_load le_val_drop len upt_rec)
  then show ?thesis using limbs_val_digits [of "le_val s" 23] by simp
qed

lemma limbs_load_12: "length a = 32 \<Longrightarrow> limbs_val (load_12 a) = le_val a"
proof -
  assume len: "length a = 32"
  have "load_12 a = map (\<lambda>i. take_bit 21 (drop_bit (21 * i) (le_val a))) [0..<11] @ [drop_bit (21 * 11) (le_val a)]"
    by (simp add: load_12_def low_limbs_def mask_limb_load top_limb_load le_val_drop len upt_rec)
  then show ?thesis using limbs_val_digits [of "le_val a" 11] by simp
qed

section \<open>The numbers behind the operations\<close>

lemma limbs_val_update: "i < length s \<Longrightarrow> limbs_val (s[i := x]) = limbs_val s + 2 ^ (21 * i) * (x - s ! i)"
proof (induction s arbitrary: i)
  case (Cons y s)
  show ?case
  proof (cases i)
    case (Suc j)
    with Cons.prems Cons.IH [of j] have "limbs_val (s[j := x]) = limbs_val s + 2 ^ (21 * j) * (x - s ! j)" by simp
    then have "limbs_val ((y # s)[i := x]) = y + 2 ^ 21 * (limbs_val s + 2 ^ (21 * j) * (x - s ! j))"
      using Suc by simp
    then show ?thesis using Suc by (simp add: power_add algebra_simps)
  qed simp
qed simp

lemma i64_Some: "i64 x = Some y \<Longrightarrow> y = x"
  by (simp add: i64_def split: if_splits)

lemma move_carry_val:
  assumes "move_carry i c s = Some t" "i + 1 < length s"
  shows "length t = length s" "limbs_val t = limbs_val s"
proof -
  from assms(1) have t: "t = s[i + 1 := s ! (i + 1) + c, i := s ! i - push_bit 21 c]"
    by (auto simp: move_carry_def bind_eq_Some_conv dest!: i64_Some)
  show "length t = length s" by (simp add: t)
  show "limbs_val t = limbs_val s"
    using assms(2) by (simp add: t limbs_val_update nth_list_update push_bit_eq_mult power_add)
qed

lemma carry_val:
  assumes "carry_round i s = Some t \<or> carry_floor i s = Some t" "i + 1 < length s"
  shows "length t = length s" "limbs_val t = limbs_val s"
  using assms by (auto simp: carry_round_def carry_floor_def bind_eq_Some_conv dest: move_carry_val)

lemma mul_eq:
  "add_mul k x m s = Some t \<Longrightarrow> t = s[k := s ! k + x * m]"
  "sub_mul k x m s = Some t \<Longrightarrow> t = s[k := s ! k - x * m]"
  by (auto simp: add_mul_def sub_mul_def bind_eq_Some_conv dest!: i64_Some)

lemma fold_limb_val:
  assumes "fold_limb j s = Some t" "12 \<le> j" "j < length s"
  shows "length t = length s" "limbs_val t = limbs_val s - 2 ^ (21 * (j - 12)) * (s ! j) * ell"
proof -
  obtain i where j: "j = i + 12" using assms(2) by (metis add.commute le_Suc_ex)
  let ?x = "s ! (i + 12)"
  have t: "t = s[i := s ! i + ?x * 666643, i + 1 := s ! (i + 1) + ?x * 470296, i + 2 := s ! (i + 2) + ?x * 654183,
      i + 3 := s ! (i + 3) - ?x * 997805, i + 4 := s ! (i + 4) + ?x * 136657, i + 5 := s ! (i + 5) - ?x * 683901,
      i + 12 := 0]"
    using assms(1,3) by (auto simp: fold_limb_def j bind_eq_Some_conv add.commute [of i] dest!: mul_eq)
  show "length t = length s" by (simp add: t)
  have "limbs_val t = limbs_val s + 2 ^ (21 * i) * (?x * 666643) + 2 ^ (21 * (i + 1)) * (?x * 470296)
      + 2 ^ (21 * (i + 2)) * (?x * 654183) - 2 ^ (21 * (i + 3)) * (?x * 997805)
      + 2 ^ (21 * (i + 4)) * (?x * 136657) - 2 ^ (21 * (i + 5)) * (?x * 683901) - 2 ^ (21 * (i + 12)) * ?x"
    using assms(3) by (simp add: t j limbs_val_update)
  also have "\<dots> = limbs_val s - 2 ^ (21 * i) * ?x * ell"
    by (simp add: ell_def power_add algebra_simps)
  finally show "limbs_val t = limbs_val s - 2 ^ (21 * (j - 12)) * (s ! j) * ell" by (simp add: j)
qed

section \<open>Storing the limbs\<close>

lemma drop_limbs:
  "list_all (\<lambda>x. 0 \<le> x \<and> x < 2 ^ 21) (take i s) \<Longrightarrow> drop_bit (21 * i) (limbs_val s) = limbs_val (drop i s)"
proof (induction i arbitrary: s)
  case (Suc i)
  show ?case
  proof (cases s)
    case (Cons x xs)
    with Suc.prems have "0 \<le> x" "x < 2 ^ 21" by simp_all
    then have "drop_bit 21 (limbs_val s) = limbs_val xs" using Cons by (simp add: drop_bit_eq_div)
    moreover have "drop_bit (21 * Suc i) (limbs_val s) = drop_bit (21 * i) (drop_bit 21 (limbs_val s))"
      by (simp add: drop_bit_drop_bit add.commute)
    ultimately show ?thesis using Suc.IH [of xs] Suc.prems Cons by simp
  qed simp
qed simp

lemma trunc_byte_cong: "take_bit 8 x = take_bit 8 y \<Longrightarrow> trunc_byte x = trunc_byte y"
  by (simp add: trunc_byte_def word_of_int_eq_iff)

lemma byte_of_limb:
  assumes "0 \<le> x" "x < 2 ^ 21" "r \<le> 13"
  shows "trunc_byte (drop_bit r (x + 2 ^ 21 * y)) = trunc_byte (drop_bit r x)"
proof (rule trunc_byte_cong)
  have "x + 2 ^ 21 * y = concat_bit 21 x y"
    using assms by (simp add: concat_bit_eq push_bit_eq_mult take_bit_eq_mod)
  then show "take_bit 8 (drop_bit r (x + 2 ^ 21 * y)) = take_bit 8 (drop_bit r x)"
    using assms(3) by (auto intro!: bit_eqI simp: bit_take_bit_iff bit_drop_bit_eq bit_concat_bit_iff)
qed

lemma byte_of_two_limbs:
  assumes x: "0 \<le> x" "x < 2 ^ 21" and r: "13 < r" "r < 21" and y: "y = z + 2 ^ 21 * w"
  shows "trunc_byte (drop_bit r (x + 2 ^ 21 * y)) = trunc_byte (drop_bit r x OR push_bit (21 - r) z)"
proof (rule trunc_byte_cong, rule bit_eqI)
  fix n
  have sum: "x + 2 ^ 21 * y = concat_bit 21 x y"
    using x by (simp add: concat_bit_eq push_bit_eq_mult take_bit_eq_mod)
  have "take_bit 21 x = x" "take_bit 21 y = take_bit 21 z"
    using x by (simp_all add: take_bit_eq_mod y)
  then have hi: "21 \<le> m \<Longrightarrow> \<not> bit x m" and lo: "m < 21 \<Longrightarrow> bit y m = bit z m" for m
    by (metis bit_take_bit_iff not_less)+
  show "bit (take_bit 8 (drop_bit r (x + 2 ^ 21 * y))) n = bit (take_bit 8 (drop_bit r x OR push_bit (21 - r) z)) n"
  proof (cases "n < 8 \<and> 21 \<le> r + n")
    case True
    then have "r + n - 21 = n - (21 - r)" "n - (21 - r) < 21" "21 - r \<le> n" using r by linarith+
    with True hi [of "r + n"] lo [of "n - (21 - r)"] show ?thesis
      unfolding sum by (simp add: bit_take_bit_iff bit_drop_bit_eq bit_concat_bit_iff bit_or_iff bit_push_bit_iff)
  next
    case False
    then show ?thesis
      unfolding sum by (auto simp: bit_take_bit_iff bit_drop_bit_eq bit_concat_bit_iff bit_or_iff bit_push_bit_iff)
  qed
qed

lemma sc_store_le_bytes:
  assumes len: "length t = 24" and low: "list_all (\<lambda>x. 0 \<le> x \<and> x < 2 ^ 21) (take 11 t)"
    and high: "limbs_val (drop 12 t) = 0"
  shows "sc_store t = le_bytes 32 (limbs_val t)"
proof -
  have range: "0 \<le> t ! i" "t ! i < 2 ^ 21" if "i < 11" for i
    using low that len by (auto simp: list_all_length)
  have drop: "drop_bit (21 * i + r) (limbs_val t) = drop_bit r (t ! i + 2 ^ 21 * limbs_val (drop (Suc i) t))"
    if "i < 12" for i r
  proof -
    have "list_all (\<lambda>x. 0 \<le> x \<and> x < 2 ^ 21) (take i t)"
      using low that len by (auto simp: list_all_length)
    then have "drop_bit (21 * i) (limbs_val t) = limbs_val (t ! i # drop (Suc i) t)"
      using that len by (simp add: drop_limbs Cons_nth_drop_Suc del: limbs_val.simps)
    then show ?thesis by (simp add: add.commute flip: drop_bit_drop_bit)
  qed
  have a: "trunc_byte (drop_bit (21 * i + r) (limbs_val t)) = trunc_byte (drop_bit r (t ! i))"
    if "i < 11 \<and> r \<le> 13 \<or> i = 11" for i r
    using that
  proof
    assume "i < 11 \<and> r \<le> 13"
    then show ?thesis using range [of i] byte_of_limb [of "t ! i" r] drop [of i r] by simp
  next
    assume "i = 11"
    then show ?thesis using high drop [of 11 r] by simp
  qed
  have b: "trunc_byte (drop_bit (21 * i + r) (limbs_val t)) =
      trunc_byte (drop_bit r (t ! i) OR push_bit (21 - r) (t ! (i + 1)))" if "i < 11" "13 < r" "r < 21" for i r
  proof -
    have "drop (Suc i) t = t ! Suc i # drop (Suc (Suc i)) t"
      using that(1) len by (simp add: Cons_nth_drop_Suc)
    then have "limbs_val (drop (Suc i) t) = t ! Suc i + 2 ^ 21 * limbs_val (drop (Suc (Suc i)) t)"
      by (metis limbs_val.simps(2))
    from byte_of_two_limbs [OF range [OF that(1)] that(2,3) this] that(1) show ?thesis by (simp only: drop Suc_eq_plus1)
  qed
  have byte: "trunc_byte (drop_bit n (limbs_val t)) =
      trunc_byte (if n mod 21 \<le> 13 \<or> n div 21 = 11 then drop_bit (n mod 21) (t ! (n div 21))
        else drop_bit (n mod 21) (t ! (n div 21)) OR push_bit (21 - n mod 21) (t ! (n div 21 + 1)))" if "n < 252" for n
  proof -
    have "n = 21 * (n div 21) + n mod 21" "n div 21 < 11 \<or> n div 21 = 11" "n mod 21 < 21" using that by auto
    then show ?thesis using a [of "n div 21" "n mod 21"] b [of "n div 21" "n mod 21"] by auto
  qed
  show ?thesis
    using byte [of 0] by (simp add: le_bytes_def sc_store_def upt_rec byte del: One_nat_def) simp
qed

end
