(* ===== verification/Scalar_Order.thy ===== *)
theory Scalar_Order
  imports Scalar
begin

text \<open>
  The scalar functions are arithmetic modulo the order: an interval analysis of the operations on
  limbs, sound for each of them, whose evaluation shows that nothing overflows and that limb 12 is
  \<open>-1\<close> or \<open>0\<close> before it is folded away for the last time; from this the result is the least remainder.
\<close>

section \<open>Intervals\<close>

type_synonym ival = "int \<times> int"

fun within :: "int \<Rightarrow> ival \<Rightarrow> bool" where
  "within x (l, h) \<longleftrightarrow> l \<le> x \<and> x \<le> h"

definition inside :: "int list \<Rightarrow> ival list \<Rightarrow> bool" where
  "inside s v \<longleftrightarrow> list_all2 within s v"

fun iv_add :: "ival \<Rightarrow> ival \<Rightarrow> ival" where
  "iv_add (l, h) (l', h') = (l + l', h + h')"

fun iv_neg :: "ival \<Rightarrow> ival" where
  "iv_neg (l, h) = (- h, - l)"

fun iv_scale :: "int \<Rightarrow> ival \<Rightarrow> ival" where
  "iv_scale m (l, h) = (l * m, h * m)"

fun iv_i64 :: "ival \<Rightarrow> ival option" where
  "iv_i64 (l, h) = (if - (2 ^ 63) \<le> l \<and> h < 2 ^ 63 then Some (l, h) else None)"

fun iv_shift :: "ival \<Rightarrow> ival" where
  "iv_shift (l, h) = (l div 2 ^ 21, h div 2 ^ 21)"

definition iv_carry :: "int \<Rightarrow> nat \<Rightarrow> ival list \<Rightarrow> ival list option" where
  "iv_carry r i v =
     (if i + 1 < length v then
        do {
          t \<leftarrow> iv_i64 (iv_add (v ! i) (r, r));
          u \<leftarrow> iv_i64 (iv_add (v ! (i + 1)) (iv_shift t));
          p \<leftarrow> iv_i64 (iv_scale (2 ^ 21) (iv_shift t));
          Some (v[i + 1 := u, i := (- r, 2 ^ 21 - 1 - r)])
        }
      else None)"

definition iv_add_mul :: "nat \<Rightarrow> nat \<Rightarrow> int \<Rightarrow> ival list \<Rightarrow> ival list option" where
  "iv_add_mul k j m v =
     (if k < length v \<and> j < length v then
        do { p \<leftarrow> iv_i64 (iv_scale m (v ! j)); t \<leftarrow> iv_i64 (iv_add (v ! k) p); Some (v[k := t]) }
      else None)"

definition iv_sub_mul :: "nat \<Rightarrow> nat \<Rightarrow> int \<Rightarrow> ival list \<Rightarrow> ival list option" where
  "iv_sub_mul k j m v =
     (if k < length v \<and> j < length v then
        do { p \<leftarrow> iv_i64 (iv_scale m (v ! j)); t \<leftarrow> iv_i64 (iv_add (v ! k) (iv_neg p)); Some (v[k := t]) }
      else None)"

definition iv_fold_limb :: "nat \<Rightarrow> ival list \<Rightarrow> ival list option" where
  "iv_fold_limb j v =
     do {
       v \<leftarrow> iv_add_mul (j - 12) j 666643 v;
       v \<leftarrow> iv_add_mul (j - 11) j 470296 v;
       v \<leftarrow> iv_add_mul (j - 10) j 654183 v;
       v \<leftarrow> iv_sub_mul (j - 9) j 997805 v;
       v \<leftarrow> iv_add_mul (j - 8) j 136657 v;
       v \<leftarrow> iv_sub_mul (j - 7) j 683901 v;
       Some (v[j := (0, 0)])
     }"

definition approx :: "(int list \<Rightarrow> int list option) \<Rightarrow> (ival list \<Rightarrow> ival list option) \<Rightarrow> bool" where
  "approx f g \<longleftrightarrow> (\<forall>s v v'. inside s v \<longrightarrow> g v = Some v' \<longrightarrow> (\<exists>s'. f s = Some s' \<and> inside s' v'))"

lemma approxD: "approx f g \<Longrightarrow> inside s v \<Longrightarrow> g v = Some v' \<Longrightarrow> \<exists>s'. f s = Some s' \<and> inside s' v'"
  by (simp add: approx_def)

lemma inside_nth: "inside s v \<Longrightarrow> i < length v \<Longrightarrow> within (s ! i) (v ! i)"
  by (auto simp: inside_def list_all2_conv_all_nth)

lemma inside_update: "inside s v \<Longrightarrow> within x r \<Longrightarrow> inside (s[i := x]) (v[i := r])"
  by (simp add: inside_def list_all2_update_cong)

lemma inside_length: "inside s v \<Longrightarrow> length s = length v"
  by (simp add: inside_def list_all2_lengthD)

lemma within_add: "within x r \<Longrightarrow> within y q \<Longrightarrow> within (x + y) (iv_add r q)"
  by (cases r; cases q) simp

lemma within_neg: "within x r \<Longrightarrow> within (- x) (iv_neg r)"
  by (cases r) simp

lemma within_scale: "within x r \<Longrightarrow> 0 \<le> m \<Longrightarrow> within (x * m) (iv_scale m r)"
  by (cases r) (simp add: mult_right_mono)

lemma within_shift: "within x r \<Longrightarrow> within (drop_bit 21 x) (iv_shift r)"
  by (cases r) (auto simp: drop_bit_eq_div intro: zdiv_mono1)

lemma within_i64: "within x r \<Longrightarrow> iv_i64 r = Some q \<Longrightarrow> i64 x = Some x \<and> within x q"
  by (cases r) (auto simp: i64_def split: if_splits)

lemma approx_carry:
  assumes "r = 0 \<and> f = carry_floor i \<or> r = 2 ^ 20 \<and> f = carry_round i"
  shows "approx f (iv_carry r i)"
proof (unfold approx_def, intro allI impI)
  fix s v v'
  assume in_v: "inside s v" and v': "iv_carry r i v = Some v'"
  obtain t u p where i: "i + 1 < length v" and t: "iv_i64 (iv_add (v ! i) (r, r)) = Some t"
    and u: "iv_i64 (iv_add (v ! (i + 1)) (iv_shift t)) = Some u"
    and p: "iv_i64 (iv_scale (2 ^ 21) (iv_shift t)) = Some p"
    and v'_eq: "v' = v[i + 1 := u, i := (- r, 2 ^ 21 - 1 - r)]"
    using v' by (auto simp: iv_carry_def bind_eq_Some_conv split: if_splits)
  let ?t = "s ! i + r" and ?c = "drop_bit 21 (s ! i + r)"
  have t': "i64 ?t = Some ?t" "within ?t t"
    using within_i64 [OF within_add [OF inside_nth [OF in_v] _] t, of r] i by auto
  note c = within_shift [OF t'(2)]
  have u': "i64 (s ! (i + 1) + ?c) = Some (s ! (i + 1) + ?c)" "within (s ! (i + 1) + ?c) u"
    using within_i64 [OF within_add [OF inside_nth [OF in_v i] c] u] by auto
  have p': "i64 (push_bit 21 ?c) = Some (push_bit 21 ?c)"
    using within_i64 [OF within_scale [OF c] p] by (simp add: push_bit_eq_mult)
  have rem: "s ! i - push_bit 21 ?c = ?t mod 2 ^ 21 - r"
    by (simp add: push_bit_eq_mult drop_bit_eq_div minus_mult_div_eq_mod [symmetric])
  have "within (s ! i - push_bit 21 ?c) (- r, 2 ^ 21 - 1 - r)" by (simp add: rem)
  moreover from this have "i64 (s ! i - push_bit 21 ?c) = Some (s ! i - push_bit 21 ?c)"
    using assms by (auto simp: i64_def)
  ultimately have "move_carry i ?c s = Some (s[i + 1 := s ! (i + 1) + ?c, i := s ! i - push_bit 21 ?c])"
    "inside (s[i + 1 := s ! (i + 1) + ?c, i := s ! i - push_bit 21 ?c]) v'"
    using u' p' in_v by (simp_all add: move_carry_def v'_eq inside_update)
  moreover have "f s = move_carry i ?c s"
    using assms t'(1) by (auto simp: carry_floor_def carry_round_def push_bit_eq_mult)
  ultimately show "\<exists>s'. f s = Some s' \<and> inside s' v'" by auto
qed

lemma approx_mul:
  assumes "0 \<le> m"
  shows "approx (\<lambda>s. add_mul k (s ! j) m s) (iv_add_mul k j m)"
    "approx (\<lambda>s. sub_mul k (s ! j) m s) (iv_sub_mul k j m)"
proof -
  {
    fix s v v'
    assume in_v: "inside s v" and "iv_add_mul k j m v = Some v'"
    then obtain q t where q: "k < length v" "j < length v" "iv_i64 (iv_scale m (v ! j)) = Some q"
        "iv_i64 (iv_add (v ! k) q) = Some t" "v' = v[k := t]"
      by (auto simp: iv_add_mul_def bind_eq_Some_conv split: if_splits)
    then have "\<exists>s'. add_mul k (s ! j) m s = Some s' \<and> inside s' v'"
      using within_i64 [OF within_scale [OF inside_nth [OF in_v q(2)] assms] q(3)]
        within_i64 [OF within_add [OF inside_nth [OF in_v q(1)]] q(4), of "s ! j * m"]
        inside_update [OF in_v, of "s ! k + s ! j * m" t k] by (simp add: add_mul_def)
  }
  moreover {
    fix s v v'
    assume in_v: "inside s v" and "iv_sub_mul k j m v = Some v'"
    then obtain q t where q: "k < length v" "j < length v" "iv_i64 (iv_scale m (v ! j)) = Some q"
        "iv_i64 (iv_add (v ! k) (iv_neg q)) = Some t" "v' = v[k := t]"
      by (auto simp: iv_sub_mul_def bind_eq_Some_conv split: if_splits)
    then have "\<exists>s'. sub_mul k (s ! j) m s = Some s' \<and> inside s' v'"
      using within_i64 [OF within_scale [OF inside_nth [OF in_v q(2)] assms] q(3)]
        within_i64 [OF within_add [OF inside_nth [OF in_v q(1)] within_neg] q(4), of "s ! j * m"]
        inside_update [OF in_v, of "s ! k - s ! j * m" t k] by (simp add: sub_mul_def)
  }
  ultimately show "approx (\<lambda>s. add_mul k (s ! j) m s) (iv_add_mul k j m)"
    "approx (\<lambda>s. sub_mul k (s ! j) m s) (iv_sub_mul k j m)"
    by (simp_all add: approx_def)
qed

lemma approx_bind: "approx f g \<Longrightarrow> approx f' g' \<Longrightarrow> approx (\<lambda>s. f s \<bind> f') (\<lambda>v. g v \<bind> g')"
  by (clarsimp simp: approx_def bind_eq_Some_conv) blast

lemma approx_run: "list_all2 approx fs gs \<Longrightarrow> approx (run_ops fs) (run_ops gs)"
proof (induction fs gs rule: list_all2_induct)
  case Nil
  then show ?case by (simp add: approx_def)
next
  case (Cons f fs g gs)
  then show ?case using approx_bind [of f g "run_ops fs" "run_ops gs"] by simp
qed

lemma run_ops_Nil: "run_ops [] = Some"
  by (simp add: fun_eq_iff)

lemma run_ops_Cons: "run_ops (f # fs) = (\<lambda>s. f s \<bind> run_ops fs)"
  by (simp add: fun_eq_iff)

lemma approx_fold_limb: "approx (fold_limb j) (iv_fold_limb j)"
proof -
  have "fold_limb j = run_ops [\<lambda>s. add_mul (j - 12) (s ! j) 666643 s, \<lambda>s. add_mul (j - 11) (s ! j) 470296 s,
      \<lambda>s. add_mul (j - 10) (s ! j) 654183 s, \<lambda>s. sub_mul (j - 9) (s ! j) 997805 s,
      \<lambda>s. add_mul (j - 8) (s ! j) 136657 s, \<lambda>s. sub_mul (j - 7) (s ! j) 683901 s, \<lambda>s. Some (s[j := 0])]"
    by (simp add: run_ops_Nil run_ops_Cons fun_eq_iff fold_limb_def)
  moreover have "iv_fold_limb j = run_ops [iv_add_mul (j - 12) j 666643, iv_add_mul (j - 11) j 470296,
      iv_add_mul (j - 10) j 654183, iv_sub_mul (j - 9) j 997805,
      iv_add_mul (j - 8) j 136657, iv_sub_mul (j - 7) j 683901, \<lambda>v. Some (v[j := (0, 0)])]"
    by (simp add: run_ops_Nil run_ops_Cons fun_eq_iff iv_fold_limb_def)
  moreover have "approx (\<lambda>s. Some (s[j := 0])) (\<lambda>v. Some (v[j := (0, 0)]))"
    by (simp add: approx_def inside_update)
  ultimately show ?thesis by (auto intro!: approx_run approx_mul simp del: run_ops.simps)
qed

text \<open>The same phases on intervals.\<close>

definition iv_fold_phase :: "(ival list \<Rightarrow> ival list option) list" where
  "iv_fold_phase =
     map iv_fold_limb [23, 22, 21, 20, 19, 18] @
     map (iv_carry (2 ^ 20)) [6, 8, 10, 12, 14, 16] @ map (iv_carry (2 ^ 20)) [7, 9, 11, 13, 15] @
     map iv_fold_limb [17, 16, 15, 14, 13, 12] @
     map (iv_carry (2 ^ 20)) [0, 2, 4, 6, 8, 10] @ map (iv_carry (2 ^ 20)) [1, 3, 5, 7, 9, 11] @
     [iv_fold_limb 12] @ map (iv_carry 0) [0, 1, 2, 3, 4, 5, 6, 7, 8, 9, 10, 11]"

definition iv_last_phase :: "(ival list \<Rightarrow> ival list option) list" where
  "iv_last_phase = [iv_fold_limb 12] @ map (iv_carry 0) [0, 1, 2, 3, 4, 5, 6, 7, 8, 9, 10]"

definition loaded_24 :: "ival list" where
  "loaded_24 = replicate 23 (0, 2 ^ 21 - 1) @ [(0, 2 ^ 29 - 1)]"

lemma approx_fold_phase: "approx (run_ops fold_phase) (run_ops iv_fold_phase)"
  unfolding fold_phase_def iv_fold_phase_def
  by (rule approx_run) (simp add: approx_fold_limb approx_carry)

lemma approx_last_phase: "approx (run_ops last_phase) (run_ops iv_last_phase)"
  unfolding last_phase_def iv_last_phase_def
  by (rule approx_run) (simp add: approx_fold_limb approx_carry)

text \<open>The evaluation of the analysis: limb 12 is \<open>-1\<close> or \<open>0\<close> before it is folded for the last time.\<close>

definition folded_24 :: "ival list" where
  "folded_24 = replicate 12 (0, 2 ^ 21 - 1) @ [(- 1, 0)] @ replicate 11 (0, 0)"

lemma iv_fold_phase_24: "run_ops iv_fold_phase loaded_24 = Some folded_24"
  by code_simp

lemma iv_last_phase_24:
  "run_ops iv_last_phase folded_24 = Some (replicate 11 (0, 2 ^ 21 - 1) @ [(- 1, 2 ^ 21)] @ replicate 12 (0, 0))"
  by code_simp

section \<open>Reduction\<close>

text \<open>The number modulo \<open>m\<close> is kept; with \<open>m = 0\<close> this is equality.\<close>

definition keeps :: "int \<Rightarrow> (int list \<Rightarrow> int list option) \<Rightarrow> bool" where
  "keeps m f \<longleftrightarrow> (\<forall>s t. length s = 24 \<longrightarrow> f s = Some t \<longrightarrow> length t = 24 \<and> limbs_val t mod m = limbs_val s mod m)"

lemma keeps_carry: "i < 23 \<Longrightarrow> keeps m (carry_round i)" "i < 23 \<Longrightarrow> keeps m (carry_floor i)"
  by (auto simp: keeps_def dest: carry_val [OF disjI1] carry_val [OF disjI2])

lemma keeps_fold_limb: "12 \<le> j \<Longrightarrow> j < 24 \<Longrightarrow> keeps ell (fold_limb j)"
proof (unfold keeps_def, intro allI impI)
  fix s t
  assume j: "12 \<le> j" "j < 24" and len: "length s = 24" and t: "fold_limb j s = Some t"
  then have "limbs_val s = limbs_val t + 2 ^ (21 * (j - 12)) * (s ! j) * ell" "length t = 24"
    using fold_limb_val [OF t] by simp_all
  then show "length t = 24 \<and> limbs_val t mod ell = limbs_val s mod ell" by simp
qed

lemma keeps_run: "list_all (keeps m) fs \<Longrightarrow> keeps m (run_ops fs)"
proof (induction fs)
  case (Cons f fs)
  then have f: "keeps m f" and fs: "keeps m (run_ops fs)" by simp_all
  show ?case
  proof (unfold keeps_def, intro allI impI)
    fix s t
    assume len: "length s = 24" and "run_ops (f # fs) s = Some t"
    then obtain u where u: "f s = Some u" "run_ops fs u = Some t" by (auto simp: bind_eq_Some_conv)
    with f len have "length u = 24" "limbs_val u mod m = limbs_val s mod m" by (simp_all add: keeps_def)
    with fs u(2) show "length t = 24 \<and> limbs_val t mod m = limbs_val s mod m" by (simp add: keeps_def)
  qed
qed (simp add: keeps_def)

lemma keeps_fold_phase: "keeps ell (run_ops fold_phase)"
  by (rule keeps_run) (simp add: fold_phase_def keeps_carry keeps_fold_limb)

lemma limbs_val_append: "limbs_val (xs @ ys) = limbs_val xs + 2 ^ (21 * length xs) * limbs_val ys"
  by (induction xs) (simp_all add: power_add algebra_simps)

lemma limbs_val_zeros: "list_all (\<lambda>x. within x (0, 0)) xs \<Longrightarrow> limbs_val xs = 0"
  by (induction xs) simp_all

lemma inside_replicate:
  "inside s (replicate n r) \<Longrightarrow> list_all (\<lambda>x. within x r) s"
  "inside s (replicate n r @ v) \<Longrightarrow> list_all (\<lambda>x. within x r) (take n s) \<and> inside (drop n s) v"
  by (induction n arbitrary: s) (auto simp: inside_def list_all2_Cons2)

lemma limbs_within: "list_all (\<lambda>x. within x (0, 2 ^ 21 - 1)) = list_all (\<lambda>x. 0 \<le> x \<and> x < 2 ^ 21)"
  by (auto simp: fun_eq_iff list_all_iff)

lemma limbs_val_range:
  "list_all (\<lambda>x. 0 \<le> x \<and> x < 2 ^ 21) xs \<Longrightarrow> 0 \<le> limbs_val xs \<and> limbs_val xs < 2 ^ (21 * length xs)"
proof (induction xs)
  case (Cons x xs)
  then have "0 \<le> x" "x < 2 ^ 21" "0 \<le> limbs_val xs" "limbs_val xs + 1 \<le> 2 ^ (21 * length xs)" by simp_all
  moreover from this(4) have "2 ^ 21 * (limbs_val xs + 1) \<le> 2 ^ 21 * 2 ^ (21 * length xs)" by (rule mult_left_mono) simp
  ultimately show ?case by (simp add: power_add)
qed simp

lemma ell_bounds: "2 ^ 252 < ell" "ell < 2 ^ 253"
  by (simp_all add: ell_def)

lemma last_phase_val:
  assumes "length u = 24" "run_ops last_phase u = Some t"
  shows "length t = 24" "limbs_val t = limbs_val u - u ! 12 * ell"
proof -
  obtain w where w: "fold_limb 12 u = Some w" "run_ops (map carry_floor [0, 1, 2, 3, 4, 5, 6, 7, 8, 9, 10]) w = Some t"
    using assms(2) by (auto simp: last_phase_def bind_eq_Some_conv)
  have "length w = 24" "limbs_val w = limbs_val u - u ! 12 * ell"
    using fold_limb_val [OF w(1)] assms(1) by simp_all
  moreover have "keeps 0 (run_ops (map carry_floor [0, 1, 2, 3, 4, 5, 6, 7, 8, 9, 10]))"
    by (rule keeps_run) (simp add: keeps_carry)
  ultimately show "length t = 24" "limbs_val t = limbs_val u - u ! 12 * ell"
    using w(2) unfolding keeps_def by fastforce+
qed

text \<open>After the fold phase limb 12 is \<open>0\<close> or \<open>-1\<close> and what lies above is zero; after the last phase all of it is.\<close>

lemma folded_limbs:
  assumes "inside u folded_24" "length u = 24"
  shows "list_all (\<lambda>x. 0 \<le> x \<and> x < 2 ^ 21) (take 12 u)" "u ! 12 = 0 \<or> u ! 12 = - 1"
    "limbs_val u = limbs_val (take 12 u) + 2 ^ 252 * (u ! 12)"
proof -
  show "list_all (\<lambda>x. 0 \<le> x \<and> x < 2 ^ 21) (take 12 u)"
    using inside_replicate(2) [OF assms(1) [unfolded folded_24_def]] limbs_within by simp
  have "inside (drop 12 u) ((- 1, 0) # replicate 11 (0, 0))"
    using inside_replicate(2) [OF assms(1) [unfolded folded_24_def]] by simp
  then obtain x xs where x: "drop 12 u = x # xs" "within x (- 1, 0)" "inside xs (replicate 11 (0, 0))"
    by (auto simp: inside_def list_all2_Cons2)
  have u12: "u ! 12 = x" using x(1) assms(2) by (metis nth_via_drop)
  show "u ! 12 = 0 \<or> u ! 12 = - 1" using x(2) u12 by auto
  show "limbs_val u = limbs_val (take 12 u) + 2 ^ 252 * (u ! 12)"
    using limbs_val_append [of "take 12 u" "drop 12 u", unfolded append_take_drop_id] assms(2) x(1) u12
      limbs_val_zeros [OF inside_replicate(1) [OF x(3)]] by simp
qed

lemma last_limbs:
  assumes "inside t (replicate 11 (0, 2 ^ 21 - 1) @ [(- 1, 2 ^ 21)] @ replicate 12 (0, 0))"
  shows "list_all (\<lambda>x. 0 \<le> x \<and> x < 2 ^ 21) (take 11 t)" "limbs_val (drop 12 t) = 0"
proof -
  show "list_all (\<lambda>x. 0 \<le> x \<and> x < 2 ^ 21) (take 11 t)"
    using inside_replicate(2) [OF assms] limbs_within by simp
  have "inside (drop 11 t) ((- 1, 2 ^ 21) # replicate 12 (0, 0))"
    using inside_replicate(2) [OF assms] by simp
  then obtain y ys where y: "drop 11 t = y # ys" "inside ys (replicate 12 (0, 0))"
    by (auto simp: inside_def list_all2_Cons2)
  moreover from y(1) have "drop 12 t = ys" using drop_drop [of 1 11 t] by simp
  ultimately show "limbs_val (drop 12 t) = 0" using limbs_val_zeros [OF inside_replicate(1)] by simp
qed

lemma sc_fold_reduces:
  assumes "inside s v" "run_ops iv_fold_phase v = Some folded_24" "length v = 24"
  obtains t where "sc_fold s = Some t" "length t = 24" "list_all (\<lambda>x. 0 \<le> x \<and> x < 2 ^ 21) (take 11 t)"
    "limbs_val (drop 12 t) = 0" "limbs_val t = limbs_val s mod ell"
proof -
  obtain u where u: "run_ops fold_phase s = Some u" "inside u folded_24"
    using approxD [OF approx_fold_phase assms(1,2)] by auto
  obtain t where t: "run_ops last_phase u = Some t"
      "inside t (replicate 11 (0, 2 ^ 21 - 1) @ [(- 1, 2 ^ 21)] @ replicate 12 (0, 0))"
    using approxD [OF approx_last_phase u(2) iv_last_phase_24] by auto
  have len: "length s = 24" "length u = 24" "length t = 24"
    using inside_length [OF assms(1)] assms(3) inside_length [OF u(2)] inside_length [OF t(2)]
    by (simp_all add: folded_24_def)
  note ul = folded_limbs [OF u(2) len(2)] and last = last_phase_val [OF len(2) t(1)]
  have "limbs_val t = limbs_val (take 12 u) + u ! 12 * (2 ^ 252 - ell)"
    using last ul(3) by (simp add: algebra_simps)
  moreover have "0 \<le> limbs_val (take 12 u)" "limbs_val (take 12 u) < 2 ^ 252"
    using limbs_val_range [OF ul(1)] len by simp_all
  ultimately have "0 \<le> limbs_val t" "limbs_val t < ell" using ul(2) ell_bounds by (auto simp: algebra_simps)
  moreover have "limbs_val t mod ell = limbs_val u mod ell"
    using last by (metis add_diff_cancel_left' diff_add_cancel mod_mult_self1 mult.commute)
  moreover have "limbs_val u mod ell = limbs_val s mod ell"
    using keeps_fold_phase u(1) len(1) by (simp add: keeps_def)
  ultimately have "limbs_val t = limbs_val s mod ell" by simp
  moreover have "sc_fold s = Some t" using u(1) t(1) by (simp add: sc_fold_def)
  ultimately show thesis using that [of t] len last_limbs [OF t(2)] by blast
qed

section \<open>The two functions are arithmetic modulo the order\<close>

lemma mask_limb_within: "within (mask_limb w) (0, 2 ^ 21 - 1)"
proof -
  have "mask_limb w = uint w mod 2 ^ 21" by (simp add: mask_limb_eq take_bit_eq_mod)
  then show ?thesis by simp
qed

lemma top_limb_within:
  "4 \<le> length xs \<Longrightarrow> within (uint (drop_bit 3 (load_4 xs))) (0, 2 ^ 29 - 1)"
  "4 \<le> length xs \<Longrightarrow> within (uint (drop_bit 7 (load_4 xs))) (0, 2 ^ 25 - 1)"
proof -
  assume len: "4 \<le> length xs"
  have "uint (drop_bit k (load_4 xs)) = le_val xs mod 2 ^ 32 div 2 ^ k" for k
    using uint_load_4 [OF len] by (simp only: uint_drop_bit take_bit_eq_mod drop_bit_eq_div [where ?'a = int])
  moreover have "le_val xs mod 4294967296 div 8 < 536870912" "le_val xs mod 4294967296 div 128 < 33554432"
    by (simp_all add: div_less_iff_less_mult)
  ultimately show "within (uint (drop_bit 3 (load_4 xs))) (0, 2 ^ 29 - 1)"
    "within (uint (drop_bit 7 (load_4 xs))) (0, 2 ^ 25 - 1)"
    by (simp_all del: drop_bit_eq_div)
qed

lemma inside_append: "inside xs a \<Longrightarrow> inside ys b \<Longrightarrow> inside (xs @ ys) (a @ b)"
  by (simp add: inside_def list_all2_appendI)

lemma masks_inside: "inside (map mask_limb ws) (replicate (length ws) (0, 2 ^ 21 - 1))"
  using mask_limb_within by (induction ws) (simp_all add: inside_def del: within.simps)

lemma top_inside: "within x r \<Longrightarrow> inside [x] [r]"
  by (simp add: inside_def)

definition loaded_12 :: "ival list" where
  "loaded_12 = replicate 11 (0, 2 ^ 21 - 1) @ [(0, 2 ^ 25 - 1)]"

lemma load_inside:
  "length s = 64 \<Longrightarrow> inside (load_24 s) loaded_24"
  "length a = 32 \<Longrightarrow> inside (load_12 a) loaded_12"
proof -
  let ?r = "(0, 2 ^ 21 - 1) :: ival"
  have low: "inside (low_limbs xs) (replicate 11 ?r)" for xs
  proof -
    have "\<exists>ws. low_limbs xs = map mask_limb ws \<and> length ws = 11"
      by (rule exI [of _ "[w0, w1, w2, w3, w4, w5, w6, w7, w8, w9, w10]" for w0 w1 w2 w3 w4 w5 w6 w7 w8 w9 w10])
        (simp add: low_limbs_def)
    then show ?thesis using masks_inside by metis
  qed
  show "inside (load_24 s) loaded_24" if len: "length s = 64"
  proof -
    have "\<exists>ws. load_24 s = low_limbs s @ map mask_limb ws @ [uint (drop_bit 3 (load_4 (drop 60 s)))] \<and> length ws = 12"
      by (rule exI [of _ "[w0, w1, w2, w3, w4, w5, w6, w7, w8, w9, w10, w11]" for w0 w1 w2 w3 w4 w5 w6 w7 w8 w9 w10 w11])
        (simp add: load_24_def)
    then obtain ws where "load_24 s = low_limbs s @ map mask_limb ws @ [uint (drop_bit 3 (load_4 (drop 60 s)))]"
      "length ws = 12" by auto
    moreover have "loaded_24 = replicate 11 ?r @ replicate 12 ?r @ [(0, 2 ^ 29 - 1)]"
      by (simp add: loaded_24_def numeral_eq_Suc)
    ultimately show ?thesis
      using inside_append [OF low [of s] inside_append [OF masks_inside [of ws]
          top_inside [OF top_limb_within(1) [of "drop 60 s"]]]] len
      by simp
  qed
  show "inside (load_12 a) loaded_12" if "length a = 32"
    using low [of a] top_inside [OF top_limb_within(2) [of "drop 28 a"]] that
    by (simp add: load_12_def loaded_12_def inside_append)
qed

lemma sc_reduce_eq:
  assumes "length s = 64"
  shows "sc_reduce s = Some (le_bytes 32 (le_val s mod ell) @ drop 32 s)"
proof -
  obtain t where t: "sc_fold (load_24 s) = Some t" "length t = 24" "list_all (\<lambda>x. 0 \<le> x \<and> x < 2 ^ 21) (take 11 t)"
      "limbs_val (drop 12 t) = 0" "limbs_val t = limbs_val (load_24 s) mod ell"
    using sc_fold_reduces [OF load_inside(1) [OF assms] iv_fold_phase_24] by (auto simp: loaded_24_def)
  then show ?thesis
    using assms sc_store_le_bytes [OF t(2-4)] by (simp add: sc_reduce_def limbs_load_24)
qed

text \<open>The sums of products.\<close>

lemma add_products_eq:
  assumes "list_all (\<lambda>(x, y). 0 \<le> x \<and> 0 \<le> y) ps" "0 \<le> acc" "acc + sum_list (map (\<lambda>(x, y). x * y) ps) < 2 ^ 63"
  shows "add_products acc ps = Some (acc + sum_list (map (\<lambda>(x, y). x * y) ps))"
  using assms
proof (induction ps arbitrary: acc)
  case (Cons p ps)
  obtain x y where p: "p = (x, y)" by (cases p)
  let ?rest = "sum_list (map (\<lambda>(x, y). x * y) ps)"
  have nonneg: "0 \<le> ?rest" "0 \<le> x * y"
    using Cons.prems(1) p by (fastforce simp: list_all_iff intro!: sum_list_nonneg mult_nonneg_nonneg)+
  then have "i64 (x * y) = Some (x * y)" "i64 (acc + x * y) = Some (acc + x * y)"
    using Cons.prems(2,3) p by (simp_all add: i64_def)
  moreover have "add_products (acc + x * y) ps = Some (acc + x * y + ?rest)"
    by (rule Cons.IH) (use Cons.prems p nonneg in auto)
  ultimately show ?case by (simp add: p)
qed simp

lemma collect_some_map: "(\<And>x. x \<in> set xs \<Longrightarrow> f x = Some (g x)) \<Longrightarrow> collect_some (map f xs) = Some (map g xs)"
  by (induction xs) simp_all

definition coeff :: "int list \<Rightarrow> int list \<Rightarrow> nat \<Rightarrow> int" where
  "coeff a b k = sum_list (map (\<lambda>(x, y). x * y) (limb_pairs a b k))"

lemma limbs_val_sum: "limbs_val xs = (\<Sum>i<length xs. xs ! i * 2 ^ (21 * i))"
proof (induction xs)
  case (Cons x xs)
  have "(\<Sum>i<length (x # xs). (x # xs) ! i * 2 ^ (21 * i)) = x + (\<Sum>i<length xs. xs ! i * 2 ^ (21 * Suc i))"
    by (simp add: sum.lessThan_Suc_shift del: sum.lessThan_Suc)
  also have "\<dots> = x + 2 ^ 21 * limbs_val xs"
    unfolding Cons sum_distrib_left by (simp add: power_add mult.assoc mult.commute mult.left_commute)
  finally show ?case by simp
qed simp

lemma limbs_val_map: "limbs_val (map f [0..<n]) = (\<Sum>k<n. f k * 2 ^ (21 * k))"
  by (simp add: limbs_val_sum)

lemma coeff_sum: "coeff a b k = (\<Sum>i<12. if i \<le> k \<and> k - i < 12 then a ! i * b ! (k - i) else 0)"
  by (simp add: coeff_def limb_pairs_def comp_def sum_list_map_filter' interv_sum_list_conv_sum_set_nat
      lessThan_atLeast0 case_prod_beta)

lemma limbs_val_product:
  assumes "length a = 12" "length b = 12"
  shows "limbs_val (map (coeff a b) [0..<24]) = limbs_val a * limbs_val b"
proof -
  let ?f = "\<lambda>i j. a ! i * 2 ^ (21 * i) * (b ! j * 2 ^ (21 * j))"
  have "limbs_val (map (coeff a b) [0..<24]) = (\<Sum>k<24. coeff a b k * 2 ^ (21 * k))"
    by (simp add: limbs_val_sum)
  also have "\<dots> = (\<Sum>k<24. \<Sum>i<12. if i \<le> k \<and> k - i < 12 then ?f i (k - i) else 0)"
    unfolding coeff_sum sum_distrib_right
    by (intro sum.cong refl) (auto simp: power_add [symmetric] algebra_simps)
  also have "\<dots> = (\<Sum>i<12. \<Sum>k<24. if i \<le> k \<and> k - i < 12 then ?f i (k - i) else 0)"
    by (rule sum.swap)
  also have "\<dots> = (\<Sum>i<12. \<Sum>j<12. ?f i j)"
  proof (rule sum.cong [OF refl])
    fix i :: nat assume i: "i \<in> {..<12}"
    have "(\<Sum>k<24. if i \<le> k \<and> k - i < 12 then ?f i (k - i) else 0) = (\<Sum>k\<in>{i..<i + 12}. ?f i (k - i))"
      using i by (intro sum.mono_neutral_cong_right) auto
    also have "\<dots> = (\<Sum>j<12. ?f i j)"
      using sum.shift_bounds_nat_ivl [of "\<lambda>k. ?f i (k - i)" 0 i 12] by (simp add: lessThan_atLeast0 add.commute)
    finally show "(\<Sum>k<24. if i \<le> k \<and> k - i < 12 then ?f i (k - i) else 0) = (\<Sum>j<12. ?f i j)" .
  qed
  also have "\<dots> = limbs_val a * limbs_val b"
    using assms by (simp add: limbs_val_sum sum_product)
  finally show ?thesis .
qed

definition iv_mul_phase :: "(ival list \<Rightarrow> ival list option) list" where
  "iv_mul_phase = map (iv_carry (2 ^ 20)) [0, 2, 4, 6, 8, 10, 12, 14, 16, 18, 20, 22] @
     map (iv_carry (2 ^ 20)) [1, 3, 5, 7, 9, 11, 13, 15, 17, 19, 21]"

definition product_24 :: "ival list" where
  "product_24 =
     (let u = map snd loaded_12 in map (\<lambda>k. (0, (if k < 12 then u ! k else 0) + coeff u u k)) [0..<24])"

lemma length_product_24: "length product_24 = 24"
  by (simp add: product_24_def Let_def)

lemma iv_product_24:
  "list_all (\<lambda>r. snd r < 2 ^ 63) product_24"
  "run_ops iv_mul_phase product_24 \<bind> run_ops iv_fold_phase = Some folded_24"
  by code_simp+

lemma approx_mul_phase: "approx (run_ops mul_phase) (run_ops iv_mul_phase)"
  unfolding mul_phase_def iv_mul_phase_def by (rule approx_run) (simp add: approx_carry)

lemma keeps_mul_phase: "keeps 0 (run_ops mul_phase)"
  by (rule keeps_run) (simp add: mul_phase_def keeps_carry)

lemma coeff_mono:
  assumes "\<And>i. i < 12 \<Longrightarrow> 0 \<le> a ! i \<and> a ! i \<le> u ! i" "\<And>i. i < 12 \<Longrightarrow> 0 \<le> b ! i \<and> b ! i \<le> u ! i"
  shows "0 \<le> coeff a b k" "coeff a b k \<le> coeff u u k"
proof -
  have "0 \<le> a ! i * b ! (k - i)" "a ! i * b ! (k - i) \<le> u ! i * u ! (k - i)" if "i < 12" "k - i < 12" for i
    using assms(1) [OF that(1)] assms(2) [OF that(2)] by (simp_all add: mult_mono)
  then show "0 \<le> coeff a b k" "coeff a b k \<le> coeff u u k"
    unfolding coeff_sum by (auto intro!: sum_nonneg sum_mono)
qed

text \<open>The limbs of a product plus a summand: their range, their computation and the number they hold.\<close>

definition product_coeff :: "int list \<Rightarrow> int list \<Rightarrow> int list \<Rightarrow> nat \<Rightarrow> int" where
  "product_coeff a b c k = (if k < 12 then c ! k else 0) + coeff a b k"

lemma loaded_12_range:
  assumes "inside x loaded_12" "i < 12"
  shows "0 \<le> x ! i \<and> x ! i \<le> map snd loaded_12 ! i"
proof -
  have len: "length loaded_12 = 12" by (simp add: loaded_12_def)
  have "fst r = 0" if "r \<in> set loaded_12" for r using that by (auto simp: loaded_12_def)
  then have "fst (loaded_12 ! i) = 0" using assms(2) len by simp
  then show ?thesis using inside_nth [OF assms(1), of i] assms(2) len by (cases "loaded_12 ! i") simp
qed

lemma product_coeff_range:
  assumes "inside a loaded_12" "inside b loaded_12" "inside c loaded_12" "k < 24"
  shows "0 \<le> product_coeff a b c k" "product_coeff a b c k \<le> snd (product_24 ! k)"
  using coeff_mono [of a "map snd loaded_12" b, OF loaded_12_range [OF assms(1)] loaded_12_range [OF assms(2)], of k]
    loaded_12_range [OF assms(3), of k] assms(4)
  by (auto simp: product_24_def Let_def product_coeff_def)

lemma product_limb_eq:
  assumes "inside a loaded_12" "inside b loaded_12" "inside c loaded_12" "k < 24"
  shows "product_limb a b c k = Some (product_coeff a b c k)"
  unfolding product_limb_def product_coeff_def coeff_def
proof (rule add_products_eq)
  show "list_all (\<lambda>(x, y). 0 \<le> x \<and> 0 \<le> y) (limb_pairs a b k)"
    using loaded_12_range [OF assms(1)] loaded_12_range [OF assms(2)] by (auto simp: limb_pairs_def list_all_iff)
  show "0 \<le> (if k < 12 then c ! k else 0)" using loaded_12_range [OF assms(3)] by simp
  have "snd (product_24 ! k) < 2 ^ 63"
    using iv_product_24(1) assms(4) by (simp add: list_all_length length_product_24)
  then show "(if k < 12 then c ! k else 0) + sum_list (map (\<lambda>(x, y). x * y) (limb_pairs a b k)) < 2 ^ 63"
    using product_coeff_range(2) [OF assms] by (simp add: product_coeff_def coeff_def)
qed

lemma product_coeff_val:
  assumes "length a = 12" "length b = 12" "length c = 12"
  shows "limbs_val (map (product_coeff a b c) [0..<24]) = limbs_val a * limbs_val b + limbs_val c"
proof -
  have "limbs_val (map (product_coeff a b c) [0..<24]) =
      (\<Sum>k<24. (if k < 12 then c ! k else 0) * 2 ^ (21 * k)) + limbs_val (map (coeff a b) [0..<24])"
    by (simp only: product_coeff_def limbs_val_map distrib_right sum.distrib)
  also have "(\<Sum>k<24. (if k < 12 then c ! k else 0) * 2 ^ (21 * k)) = (\<Sum>k<12. c ! k * 2 ^ (21 * k))"
    by (rule sum.mono_neutral_cong_right) auto
  also have "\<dots> = limbs_val c" using assms by (simp add: limbs_val_sum)
  finally show ?thesis by (simp only: limbs_val_product [OF assms(1,2)] add.commute)
qed

lemma product_limbs_eq:
  assumes abc: "inside a loaded_12" "inside b loaded_12" "inside c loaded_12"
  obtains s where "product_limbs a b c = Some s" "inside s product_24" "length s = 24"
    "limbs_val s = limbs_val a * limbs_val b + limbs_val c"
proof
  let ?s = "map (product_coeff a b c) [0..<24]"
  show "product_limbs a b c = Some ?s"
    unfolding product_limbs_def by (intro collect_some_map) (simp add: product_limb_eq [OF abc])
  show "inside ?s product_24"
    unfolding inside_def list_all2_conv_all_nth
  proof (intro conjI allI impI)
    show "length ?s = length product_24" by (simp add: length_product_24)
    fix k assume "k < length ?s"
    then have k: "k < 24" by simp
    moreover have "fst (product_24 ! k) = 0" using k by (simp add: product_24_def Let_def)
    ultimately show "within (?s ! k) (product_24 ! k)"
      using product_coeff_range [OF abc k] by (cases "product_24 ! k") (auto split: if_splits)
  qed
  show "limbs_val ?s = limbs_val a * limbs_val b + limbs_val c"
    using abc inside_length by (intro product_coeff_val) (auto simp: loaded_12_def)
qed simp

lemma sc_muladd_eq:
  assumes "length a = 32" "length b = 32" "length c = 32"
  shows "sc_muladd a b c = Some (le_bytes 32 ((le_val a * le_val b + le_val c) mod ell))"
proof -
  obtain s where s: "product_limbs (load_12 a) (load_12 b) (load_12 c) = Some s" "inside s product_24"
      "length s = 24" "limbs_val s = le_val a * le_val b + le_val c"
    using product_limbs_eq [OF load_inside(2) load_inside(2) load_inside(2)] assms by (metis limbs_load_12)
  obtain v where v: "run_ops iv_mul_phase product_24 = Some v" "run_ops iv_fold_phase v = Some folded_24"
    using iv_product_24(2) by (auto simp: bind_eq_Some_conv)
  obtain s' where s': "run_ops mul_phase s = Some s'" "inside s' v"
    using approxD [OF approx_mul_phase s(2) v(1)] by auto
  have s'': "length s' = 24" "limbs_val s' = limbs_val s"
    using keeps_mul_phase s'(1) s(3) by (auto simp: keeps_def)
  obtain t where t: "sc_fold s' = Some t" "length t = 24" "list_all (\<lambda>x. 0 \<le> x \<and> x < 2 ^ 21) (take 11 t)"
      "limbs_val (drop 12 t) = 0" "limbs_val t = limbs_val s' mod ell"
    using sc_fold_reduces [OF s'(2) v(2)] inside_length [OF s'(2)] s''(1) by auto
  show ?thesis
    using s s' s'' t sc_store_le_bytes [OF t(2-4)] by (simp add: sc_muladd_def)
qed

text \<open>
  C24. The scalar arithmetic of Ed25519 never overflows its 64-bit integers and is arithmetic modulo the
  order of the base point: \<^verbatim>\<open>sc_reduce\<close> replaces the first 32 of 64 bytes by the least remainder of the
  number they hold, and \<^verbatim>\<open>sc_muladd\<close> of operands of 32 bytes is the product plus the sum,
  reduced, for every input.
\<close>

theorem scalars_mod_order:
  assumes "length s = 64" "length a = 32" "length b = 32" "length c = 32"
  shows "sc_reduce s = Some (le_bytes 32 (le_val s mod ell) @ drop 32 s) \<and>
    sc_muladd a b c = Some (le_bytes 32 ((le_val a * le_val b + le_val c) mod ell))"
  using sc_reduce_eq [OF assms(1)] sc_muladd_eq [OF assms(2-4)] by simp

theorem scalars_mod_order_witness:
  "sc_reduce (replicate 64 255) = Some (le_bytes 32 ((2 ^ 512 - 1) mod ell) @ replicate 32 255) \<and>
   sc_muladd (7 # replicate 31 0) (6 # replicate 31 0) (replicate 32 255) = Some (le_bytes 32 ((42 + (2 ^ 256 - 1)) mod ell))"
proof -
  have "le_val (replicate 64 255) = 2 ^ 512 - 1" "le_val (7 # replicate 31 0) = 7"
    "le_val (6 # replicate 31 0) = 6" "le_val (replicate 32 255) = 2 ^ 256 - 1"
    by code_simp+
  then show ?thesis
    using scalars_mod_order [of "replicate 64 255" "7 # replicate 31 0" "6 # replicate 31 0" "replicate 32 255"] by simp
qed

end
