(* ===== verification/Ref10.thy ===== *)
theory Ref10
  imports Sha512 Scalar_Order
begin

text \<open>
  Key pairs, signatures and their verification in the vendored Ed25519 (\<^verbatim>\<open>keypair.c\<close>, \<^verbatim>\<open>sign.c\<close>, \<^verbatim>\<open>verify.c\<close>),
  over the modelled SHA-512 and scalar arithmetic.  The arithmetic of the curve (\<^verbatim>\<open>ge.c\<close>, \<^verbatim>\<open>fe.c\<close>) is a
  parameter: three functions on encoded points, of which the laws of a group generated by the base
  point are assumed.  From these laws a signature verifies under the key of its seed: the clamping of
  the key, the reductions, the range check on the second half of a signature and the comparison
  are all modelled and part of the proof.
\<close>

section \<open>The curve\<close>

text \<open>
  \<open>cv_base\<close> is \<^verbatim>\<open>ge_scalarmult_base\<close> and \<^verbatim>\<open>ge_p3_tobytes\<close>; \<open>cv_frombytes_negate\<close> is
  \<^verbatim>\<open>ge_frombytes_negate_vartime\<close>, \<open>None\<close> for a nonzero result; \<open>cv_double_scalarmult\<close> is
  \<^verbatim>\<open>ge_double_scalarmult_vartime\<close> and \<^verbatim>\<open>ge_tobytes\<close>.
\<close>

record 'p curve =
  cv_base :: "byte list \<Rightarrow> byte list"
  cv_frombytes_negate :: "byte list \<Rightarrow> 'p option"
  cv_double_scalarmult :: "byte list \<Rightarrow> 'p \<Rightarrow> byte list \<Rightarrow> byte list"

text \<open>
  \<open>enc n\<close> is the encoding of \<open>n\<close> times the base point, which has order \<open>ell\<close>.  The scalars are little-endian
  and in the documented ranges: the base is multiplied by less than \<open>2 ^ 255\<close>, the two factors of the
  double multiplication are below \<open>ell\<close>.
\<close>

definition curve_laws :: "'p curve \<Rightarrow> (int \<Rightarrow> byte list) \<Rightarrow> bool" where
  "curve_laws cv enc \<longleftrightarrow>
     (\<forall>n. length (enc n) = 32 \<and> enc (n mod ell) = enc n) \<and>
     (\<forall>k. length k = 32 \<longrightarrow> le_val k < 2 ^ 255 \<longrightarrow> cv_base cv k = enc (le_val k)) \<and>
     (\<forall>n. \<exists>A. cv_frombytes_negate cv (enc n) = Some A \<and>
        (\<forall>h s. length h = 32 \<longrightarrow> length s = 32 \<longrightarrow> le_val h < ell \<longrightarrow> le_val s < ell \<longrightarrow>
           cv_double_scalarmult cv h A s = enc (le_val s - le_val h * n)))"

section \<open>Key pairs, signatures, verification\<close>

text \<open>The public and the private key; \<open>None\<close> stands for an output that is not written.\<close>

definition clamp :: "byte list \<Rightarrow> byte list" where
  "clamp k =
     (let k = k[0 := k ! 0 AND 248];
          k = k[31 := k ! 31 AND 63]
      in k[31 := k ! 31 OR 64])"

definition ed25519_create_keypair :: "'p curve \<Rightarrow> byte list \<Rightarrow> (byte list \<times> byte list) option" where
  "ed25519_create_keypair cv seed =
     do {
       private_key \<leftarrow> sha512 blank_sha512 seed;
       let private_key = clamp private_key;
       Some (cv_base cv (take 32 private_key), private_key)
     }"

definition ed25519_sign :: "'p curve \<Rightarrow> byte list \<Rightarrow> byte list \<Rightarrow> byte list \<Rightarrow> byte list option" where
  "ed25519_sign cv message public_key private_key =
     do {
       r \<leftarrow> sha512_pieces blank_sha512 [take 32 (drop 32 private_key), message];
       r \<leftarrow> sc_reduce r;
       let R = cv_base cv (take 32 r);
       hram \<leftarrow> sha512_pieces blank_sha512 [take 32 R, take 32 public_key, message];
       hram \<leftarrow> sc_reduce hram;
       s \<leftarrow> sc_muladd (take 32 hram) (take 32 private_key) (take 32 r);
       Some (R @ s)
     }"

text \<open>\<open>r = x[0] ^ y[0]\<close>, then \<open>r |= x[i] ^ y[i]\<close> for \<open>i\<close> up to 31.\<close>

definition consttime_equal :: "byte list \<Rightarrow> byte list \<Rightarrow> bool" where
  "consttime_equal x y \<longleftrightarrow> fold (\<lambda>i r. r OR (x ! i XOR y ! i)) [1..<32] (x ! 0 XOR y ! 0) = 0"

definition ed25519_verify :: "'p curve \<Rightarrow> byte list \<Rightarrow> byte list \<Rightarrow> byte list \<Rightarrow> int option" where
  "ed25519_verify cv signature message public_key =
     (if signature ! 63 AND 224 \<noteq> 0 then Some 0
      else case cv_frombytes_negate cv public_key of
        None \<Rightarrow> Some 0
      | Some A \<Rightarrow>
          do {
            h \<leftarrow> sha512_pieces blank_sha512 [take 32 signature, take 32 public_key, message];
            h \<leftarrow> sc_reduce h;
            let checker = cv_double_scalarmult cv (take 32 h) A (drop 32 signature);
            Some (if consttime_equal checker signature then 1 else 0)
          })"

section \<open>A signature verifies\<close>

lemma consttime_equal_iff: "consttime_equal x y \<longleftrightarrow> (\<forall>i<32. x ! i = y ! i)"
proof -
  have or0: "(a OR b = 0) = (a = 0 \<and> b = 0)" for a b :: byte
    by (auto simp: bit_eq_iff bit_simps)
  have xor0: "(a XOR b = 0) = (a = b)" for a b :: byte
    by (auto simp: bit_eq_iff bit_simps)
  have dom: "insert 0 {1..<32} = {..<32 :: nat}" by auto
  have "fold (\<lambda>i r. r OR (x ! i XOR y ! i)) is r = 0 \<longleftrightarrow> r = 0 \<and> (\<forall>i\<in>set is. x ! i = y ! i)" for "is" and r :: byte
    by (induction "is" arbitrary: r) (auto simp: or0 xor0)
  moreover have "(\<forall>i<32. x ! i = y ! i) \<longleftrightarrow> (\<forall>i\<in>insert 0 {1..<32}. x ! i = y ! i)"
    by (simp only: dom Ball_def lessThan_iff)
  ultimately show ?thesis unfolding consttime_equal_def by (simp only: set_upt xor0 ball_simps)
qed

lemma hash_blank:
  assumes "length (concat pieces) < 2 ^ 61"
  shows "sha512_pieces blank_sha512 pieces = Some (sha512_spec (concat pieces))"
  by (rule sha512_pieces_eq) (use assms in \<open>simp_all add: blank_sha512_def\<close>)

text \<open>A hash, reduced: its first 32 bytes are a scalar below the order.\<close>

definition scalar_of :: "byte list \<Rightarrow> int" where
  "scalar_of m = le_val (sha512_spec m) mod ell"

lemma scalar_of_bounds: "0 \<le> scalar_of m" "scalar_of m < ell"
  by (simp_all add: scalar_of_def ell_def)

lemma le_val_scalar: "0 \<le> x \<Longrightarrow> x < ell \<Longrightarrow> le_val (le_bytes 32 x) = x"
  by (simp add: le_val_le_bytes take_bit_int_eq_self ell_def)

lemma reduce_hash: "sc_reduce (sha512_spec m) = Some (le_bytes 32 (scalar_of m) @ drop 32 (sha512_spec m))"
  by (simp add: sc_reduce_eq scalar_of_def)

lemma clamped:
  assumes "length k = 64"
  shows "length (clamp k) = 64" "le_val (take 32 (clamp k)) < 2 ^ 255"
proof -
  show "length (clamp k) = 64" using assms by (simp add: clamp_def)
  have top: "\<not> bit (clamp k ! 31) 7" using assms by (simp add: clamp_def Let_def bit_simps)
  have "take_bit 255 (le_val (take 32 (clamp k))) = le_val (take 32 (clamp k))"
  proof (rule bit_eqI)
    fix n :: nat
    have "n = 255" if "n div 8 < 32" "\<not> n < 255" using that by presburger
    then show "bit (take_bit 255 (le_val (take 32 (clamp k)))) n = bit (le_val (take 32 (clamp k))) n"
      using top by (cases "n < 255") (auto simp: bit_take_bit_iff bit_le_val)
  qed
  then show "le_val (take 32 (clamp k)) < 2 ^ 255" by (metis take_bit_int_less_exp)
qed

text \<open>A scalar below the order has its three top bits clear, which is the guard of the verification.\<close>

lemma top_bits_clear:
  assumes "0 \<le> x" "x < ell"
  shows "le_bytes 32 x ! 31 AND 224 = 0"
proof -
  have small: "drop_bit 248 x = take_bit 5 (drop_bit 248 x)"
    using assms by (simp add: take_bit_int_eq_self ell_def drop_bit_eq_div)
  have "\<not> bit (le_bytes 32 x ! 31) n \<or> n < 5" for n
    by (simp add: le_bytes_def trunc_byte_def) (subst small, auto simp: bit_simps)
  moreover have "\<not> bit (224 :: byte) n" if "n < 5" for n
  proof -
    have "n \<in> {0, 1, 2, 3, 4}" using that by auto
    then show ?thesis by (auto simp: bit_iff_odd)
  qed
  ultimately show ?thesis by (intro bit_eqI) (auto simp: bit_and_iff)
qed

lemma clamped_base:
  assumes "curve_laws cv enc" "length k = 64"
  shows "cv_base cv (take 32 (clamp k)) = enc (le_val (take 32 (clamp k)))"
  using assms clamped [OF assms(2)] by (simp add: curve_laws_def)

lemma create_keypair_eq:
  assumes cv: "curve_laws cv enc" and "length seed = 32"
  defines "k \<equiv> clamp (sha512_spec seed)"
  shows "ed25519_create_keypair cv seed = Some (enc (le_val (take 32 k)), k)"
  using hash_blank clamped_base [OF cv] assms(2)
  by (simp add: ed25519_create_keypair_def sha512_eq blank_sha512_def k_def Let_def)

lemma sign_eq:
  assumes cv: "curve_laws cv enc" and len: "length k = 64" "length msg < 2 ^ 60"
  defines "a \<equiv> le_val (take 32 k)" and "r \<equiv> scalar_of (take 32 (drop 32 k) @ msg)"
  defines "h \<equiv> scalar_of (enc r @ enc a @ msg)"
  shows "ed25519_sign cv msg (enc a) k = Some (enc r @ le_bytes 32 ((h * a + r) mod ell))"
proof -
  note laws = cv [unfolded curve_laws_def]
  have val: "le_val (le_bytes 32 (scalar_of m)) = scalar_of m" for m
    by (rule le_val_scalar [OF scalar_of_bounds])
  have "r < 2 ^ 255" using scalar_of_bounds [of "take 32 (drop 32 k) @ msg"] by (simp add: r_def ell_def)
  then have R: "cv_base cv (le_bytes 32 r) = enc r" using laws val by (simp add: r_def)
  have len_enc: "length (enc n) = 32" for n using laws by blast
  have r: "r = scalar_of (drop 32 k @ msg)" and h: "h = scalar_of (enc r @ enc (le_val (take 32 k)) @ msg)"
    using len by (simp_all add: r_def h_def a_def)
  have "sha512_pieces blank_sha512 [take 32 (drop 32 k), msg] = Some (sha512_spec (take 32 (drop 32 k) @ msg))"
    "sha512_pieces blank_sha512 [enc r, enc a, msg] = Some (sha512_spec (enc r @ enc a @ msg))"
    using hash_blank [of "[take 32 (drop 32 k), msg]"] hash_blank [of "[enc r, enc a, msg]"] len laws by simp_all
  moreover have val_rh: "le_val (le_bytes 32 r) = r" "le_val (le_bytes 32 h) = h" by (simp_all add: r_def h_def val)
  ultimately show ?thesis
    using R len val_rh len_enc
    by (simp add: ed25519_sign_def reduce_hash sc_muladd_eq r [symmetric] h [symmetric] a_def Let_def)
qed

text \<open>The equation of the verification: \<open>s - h * a\<close> is \<open>r\<close> modulo the order.\<close>

lemma verify_eq:
  assumes cv: "curve_laws cv enc" and len: "length msg < 2 ^ 60"
    and h: "h = scalar_of (enc r @ enc a @ msg)"
  shows "ed25519_verify cv (enc r @ le_bytes 32 ((h * a + r) mod ell)) msg (enc a) = Some 1"
proof -
  note laws = cv [unfolded curve_laws_def]
  let ?S = "(h * a + r) mod ell"
  have S: "0 \<le> ?S" "?S < ell" by (simp_all add: ell_def)
  obtain A where A: "cv_frombytes_negate cv (enc a) = Some A"
    "\<And>h s. length h = 32 \<Longrightarrow> length s = 32 \<Longrightarrow> le_val h < ell \<Longrightarrow> le_val s < ell \<Longrightarrow>
       cv_double_scalarmult cv h A s = enc (le_val s - le_val h * a)" using laws by blast
  have "(?S - h * a) mod ell = r mod ell" by (simp add: mod_diff_left_eq)
  then have "enc (?S - h * a) = enc r" using laws by metis
  then have "cv_double_scalarmult cv (le_bytes 32 h) A (le_bytes 32 ?S) = enc r"
    using A(2) [of "le_bytes 32 h" "le_bytes 32 ?S"] le_val_scalar S scalar_of_bounds by (simp add: h)
  moreover have "sha512_pieces blank_sha512 [enc r, enc a, msg] = Some (sha512_spec (enc r @ enc a @ msg))"
    using hash_blank [of "[enc r, enc a, msg]"] len laws by simp
  moreover have "consttime_equal (enc r) (enc r @ le_bytes 32 ?S)"
    using laws by (simp add: consttime_equal_iff nth_append)
  moreover have "(enc r @ le_bytes 32 ?S) ! 63 = le_bytes 32 ?S ! 31"
    using laws by (simp add: nth_append)
  ultimately show ?thesis
    using A(1) laws top_bits_clear [OF S] by (simp add: ed25519_verify_def reduce_hash h)
qed

lemma ref10_signature_verifies:
  assumes "curve_laws cv enc" "length seed = 32" "length msg < 2 ^ 60"
  shows "\<exists>pub priv sig. ed25519_create_keypair cv seed = Some (pub, priv) \<and> length pub = 32 \<and>
    ed25519_sign cv msg pub priv = Some sig \<and> length sig = 64 \<and> ed25519_verify cv sig msg pub = Some 1"
proof -
  let ?k = "clamp (sha512_spec seed)"
  have "length ?k = 64" by (simp add: clamped)
  note s = sign_eq [OF assms(1) this assms(3)] and v = verify_eq [OF assms(1,3) refl]
  have "length (enc n) = 32" for n using assms(1) by (simp add: curve_laws_def)
  then show ?thesis unfolding create_keypair_eq [OF assms(1,2)] using s v by auto
qed

end
