(* ===== verification/Ed25519.thy ===== *)
theory Ed25519
  imports Candidate Ref10
begin

text \<open>
  The Ed25519 facade over its two backends (\<^verbatim>\<open>crypto/ed25519_ref10.cpp\<close>,
  \<^verbatim>\<open>crypto/ed25519_sodium.cpp\<close>).  The primitives of a backend are the fields of a record
  every definition takes.  What the program relies on is that a signature made with a seed verifies
  under the public key of that seed (\<open>backend_ok\<close>): for the vendored primitives (\<open>vendored\<close>) it is proved
  from the laws of the curve, for libsodium, which is outside the repository, it is the documented
  behaviour of its functions (\<open>sodium_sound\<close>).
\<close>

section \<open>The vendored backend\<close>

record ref10_prims =
  p_create_keypair :: "byte list \<Rightarrow> byte list \<times> byte list"
  p_sign :: "byte list \<Rightarrow> byte list \<Rightarrow> byte list \<Rightarrow> byte list"
  p_verify :: "byte list \<Rightarrow> byte list \<Rightarrow> byte list \<Rightarrow> int"

record key_pair =
  kp_seed :: "byte list"
  kp_pubkey :: "byte list"

definition derive_pubkey :: "ref10_prims \<Rightarrow> byte list \<Rightarrow> byte list" where
  "derive_pubkey P seed = (let (pub, priv) = p_create_keypair P seed in pub)"

definition sign :: "ref10_prims \<Rightarrow> byte list \<Rightarrow> byte list \<Rightarrow> byte list" where
  "sign P seed msg = (let (pub, priv) = p_create_keypair P seed in p_sign P msg pub priv)"

definition verify :: "ref10_prims \<Rightarrow> verifier" where
  "verify P pubkey sig msg \<longleftrightarrow> p_verify P sig msg pubkey = 1"

definition keygen_from_seed :: "ref10_prims \<Rightarrow> byte list \<Rightarrow> key_pair" where
  "keygen_from_seed P seed = \<lparr>kp_seed = seed, kp_pubkey = derive_pubkey P seed\<rparr>"

text \<open>\<open>entropy\<close> is what the operating system's generator returns; \<open>None\<close> is its failure and the exception.\<close>

definition keygen :: "ref10_prims \<Rightarrow> byte list option \<Rightarrow> key_pair option" where
  "keygen P entropy = (case entropy of None \<Rightarrow> None | Some seed \<Rightarrow> Some (keygen_from_seed P seed))"

text \<open>
  What the transactions need of a backend: on the seeds and payloads of their sizes the outputs have
  the widths of a transaction and a signature verifies.
\<close>

definition backend_ok :: "(byte list \<Rightarrow> byte list) \<Rightarrow> (byte list \<Rightarrow> byte list \<Rightarrow> byte list) \<Rightarrow> verifier \<Rightarrow> bool" where
  "backend_ok derive sg vf \<longleftrightarrow> (\<forall>seed. length seed = 32 \<longrightarrow> length (derive seed) = 32 \<and>
     (\<forall>msg. length msg = kSignedPayloadSize \<longrightarrow> length (sg seed msg) = 64 \<and> vf (derive seed) (sg seed msg) msg))"

lemma backend_okD:
  assumes "backend_ok d sg vf" "length seed = 32"
  shows "length (d seed) = 32"
    "length msg = kSignedPayloadSize \<Longrightarrow> length (sg seed msg) = 64"
    "length msg = kSignedPayloadSize \<Longrightarrow> vf (d seed) (sg seed msg) msg"
  using assms by (simp_all add: backend_ok_def)

text \<open>The primitives the backend calls: the code of theory \<open>Ref10\<close>, whose hashes always return.\<close>

definition vendored :: "'p curve \<Rightarrow> ref10_prims" where
  "vendored cv = \<lparr>p_create_keypair = (\<lambda>seed. the (ed25519_create_keypair cv seed)),
     p_sign = (\<lambda>msg pub priv. the (ed25519_sign cv msg pub priv)),
     p_verify = (\<lambda>sig msg pub. the (ed25519_verify cv sig msg pub))\<rparr>"

lemma vendored_ok:
  assumes cv: "curve_laws cv enc"
  shows "backend_ok (derive_pubkey (vendored cv)) (sign (vendored cv)) (verify (vendored cv))"
proof -
  have "length (derive_pubkey (vendored cv) seed) = 32 \<and> length (sign (vendored cv) seed msg) = 64 \<and>
      verify (vendored cv) (derive_pubkey (vendored cv) seed) (sign (vendored cv) seed msg) msg"
    if "length seed = 32" "length msg < 2 ^ 60" for seed msg
    using ref10_signature_verifies [OF cv that]
    by (auto simp: derive_pubkey_def sign_def verify_def vendored_def)
  from this [of _ "[]"] this show ?thesis by (simp add: backend_ok_def kSignedPayloadSize_def)
qed

section \<open>The libsodium backend\<close>

record sodium_prims =
  s_seed_keypair :: "byte list \<Rightarrow> byte list \<times> byte list"
  s_sign_detached :: "byte list \<Rightarrow> byte list \<Rightarrow> byte list"
  s_verify_detached :: "byte list \<Rightarrow> byte list \<Rightarrow> byte list \<Rightarrow> int"

definition sodium_derive_pubkey :: "sodium_prims \<Rightarrow> byte list \<Rightarrow> byte list" where
  "sodium_derive_pubkey P seed = (let (pk, sk) = s_seed_keypair P seed in pk)"

definition sodium_sign :: "sodium_prims \<Rightarrow> byte list \<Rightarrow> byte list \<Rightarrow> byte list" where
  "sodium_sign P seed msg = (let (pk, sk) = s_seed_keypair P seed in s_sign_detached P msg sk)"

definition sodium_verify :: "sodium_prims \<Rightarrow> verifier" where
  "sodium_verify P pubkey sig msg \<longleftrightarrow> s_verify_detached P sig msg pubkey = 0"

definition sodium_keygen_from_seed :: "sodium_prims \<Rightarrow> byte list \<Rightarrow> key_pair" where
  "sodium_keygen_from_seed P seed = \<lparr>kp_seed = seed, kp_pubkey = sodium_derive_pubkey P seed\<rparr>"

text \<open>\<open>init\<close> is the result of \<^verbatim>\<open>sodium_init\<close>, \<open>entropy\<close> the bytes of its generator.\<close>

definition sodium_keygen :: "sodium_prims \<Rightarrow> int \<Rightarrow> byte list \<Rightarrow> key_pair option" where
  "sodium_keygen P init entropy = (if init < 0 then None else Some (sodium_keygen_from_seed P entropy))"

definition sodium_sound :: "sodium_prims \<Rightarrow> bool" where
  "sodium_sound P \<longleftrightarrow> (\<forall>seed msg. length seed = 32 \<longrightarrow> (case s_seed_keypair P seed of (pk, sk) \<Rightarrow>
     length pk = 32 \<and> length (s_sign_detached P msg sk) = 64 \<and>
     s_verify_detached P (s_sign_detached P msg sk) msg pk = 0))"

lemma sodium_ok: "sodium_sound P \<Longrightarrow> backend_ok (sodium_derive_pubkey P) (sodium_sign P) (sodium_verify P)"
  by (fastforce simp: sodium_sound_def backend_ok_def sodium_verify_def sodium_derive_pubkey_def sodium_sign_def
      split: prod.splits)

section \<open>Signed transactions\<close>

text \<open>
  \<^verbatim>\<open>wallet::sign_txn\<close>, over the derivation and signing functions of a backend.
\<close>

definition sign_txn :: "(byte list \<Rightarrow> byte list) \<Rightarrow> (byte list \<Rightarrow> byte list \<Rightarrow> byte list) \<Rightarrow>
    byte list \<Rightarrow> address \<Rightarrow> u64 \<Rightarrow> u64 \<Rightarrow> txn" where
  "sign_txn derive sg seed to amount nonce =
     (let t = \<lparr>tx_ver = kTxnVersion, tx_from = address (derive seed), tx_to = to, tx_amount = amount,
               tx_nonce = nonce, tx_pubkey = derive seed, tx_sig = replicate 64 0\<rparr>
      in t\<lparr>tx_sig := sg seed (signed_payload t)\<rparr>)"

lemma sign_txn_sel [simp]:
  "tx_ver (sign_txn d s seed to x n) = kTxnVersion" "tx_from (sign_txn d s seed to x n) = address (d seed)"
  "tx_to (sign_txn d s seed to x n) = to" "tx_amount (sign_txn d s seed to x n) = x"
  "tx_nonce (sign_txn d s seed to x n) = n" "tx_pubkey (sign_txn d s seed to x n) = d seed"
  by (simp_all add: sign_txn_def Let_def)

text \<open>The signature is over bytes that do not contain it.\<close>

lemma sign_txn_authentic:
  assumes ok: "backend_ok d s vf" "length seed = 32" and to: "length to = 20" and null: "address (d seed) \<noteq> kNullAddr"
  shows "authentic vf (sign_txn d s seed to x n)" "wf_txn (sign_txn d s seed to x n)"
proof -
  let ?t = "\<lparr>tx_ver = kTxnVersion, tx_from = address (d seed), tx_to = to, tx_amount = x,
     tx_nonce = n, tx_pubkey = d seed, tx_sig = replicate 64 0\<rparr>"
  have t: "sign_txn d s seed to x n = ?t\<lparr>tx_sig := s seed (signed_payload ?t)\<rparr>" by (simp add: sign_txn_def Let_def)
  have "length (signed_payload ?t) = kSignedPayloadSize" by (simp add: signed_payload_def Let_def)
  note sig = backend_okD(1) [OF ok] backend_okD(2,3) [OF ok this]
  have "txn_widths ?t" using to sig by (simp add: txn_widths_def)
  then have "signed_payload (sign_txn d s seed to x n) = signed_payload ?t"
    unfolding t using sig by (intro signed_payload_cong) simp_all
  moreover have "tx_sig (sign_txn d s seed to x n) = s seed (signed_payload ?t)" by (simp add: t)
  ultimately show "authentic vf (sign_txn d s seed to x n)"
    using null sig by (simp add: authentic_def address_matches_def)
  show "wf_txn (sign_txn d s seed to x n)"
    using to sig by (simp add: wf_txn_def txn_widths_def t)
qed

lemma sign_txn_admitted:
  assumes ok: "backend_ok d s vf" "length seed = 32" and to: "length to = 20" and null: "address (d seed) \<noteq> kNullAddr"
    and t: "t = sign_txn d s seed to x n"
    and acc: "n = acc_nonce (lookup (address (d seed)))" "x \<le> acc_balance (lookup (address (d seed)))"
    and free: "\<not> hasPending m (address (d seed))" "\<not> mp_contains m (txid t)" "mp_size m < mp_cap m"
  shows "admit vf lookup m t = (A_OK, admitted m t)" "wf_txn t"
proof -
  have auth: "authentic vf t" "wf_txn t" unfolding t using sign_txn_authentic [OF ok to null] by blast+
  show "wf_txn t" by (rule auth)
  have "admit_decision vf lookup m t = A_OK"
    using auth(1) acc free by (auto simp: admit_decision_def authentic_def address_matches_def t not_less not_le)
  then show "admit vf lookup m t = (A_OK, admitted m t)" by (simp add: admit_eq)
qed

text \<open>
  C23. A transaction signed by the wallet is admitted and accepted: under either backend, the vendored
  code over a curve with the laws of its group or libsodium, with the next nonce of its account, a covered amount,
  a free slot and room in the pool, \<^verbatim>\<open>admit\<close> answers \<open>OK\<close> for its serialised bytes.
\<close>

theorem signed_txn_admitted:
  assumes sound: "curve_laws cv enc" "sodium_sound Q"
    and backend: "(d, s, vf) \<in> {(derive_pubkey (vendored cv), sign (vendored cv), verify (vendored cv)),
        (sodium_derive_pubkey Q, sodium_sign Q, sodium_verify Q)}"
    and seed: "length seed = 32" and to: "length to = 20" and null: "address (d seed) \<noteq> kNullAddr"
    and t: "t = sign_txn d s seed to x n"
    and acc: "n = acc_nonce (lookup (address (d seed)))" "x \<le> acc_balance (lookup (address (d seed)))"
    and free: "\<not> hasPending m (address (d seed))" "\<not> mp_contains m (txid t)" "mp_size m < mp_cap m"
  shows "admit_bytes vf lookup m (serialize_txn t) = (A_OK, admitted m t)"
proof -
  have "backend_ok d s vf" using backend vendored_ok [OF sound(1)] sodium_ok [OF sound(2)] by auto
  note ok = sign_txn_admitted [where lookup = lookup, OF this seed to null t acc free]
  have "deserialize_txn (serialize_txn t) = Some t" using ok(2) by (rule txn_codec.dec_enc)
  then show ?thesis using ok(1) by (simp add: admit_bytes_def)
qed

text \<open>
  The laws of the curve hold of the integers modulo the order.  In the group of one element every
  key is the same, which is what the witnesses evaluate; its signatures still carry the hash.
\<close>

definition cyclic_curve :: "int curve" where
  "cyclic_curve = \<lparr>cv_base = (\<lambda>k. le_bytes 32 (le_val k mod ell)),
     cv_frombytes_negate = (\<lambda>b. Some (le_val b)),
     cv_double_scalarmult = (\<lambda>h a s. le_bytes 32 ((le_val s - le_val h * a) mod ell))\<rparr>"

lemma cyclic_curve_laws: "curve_laws cyclic_curve (\<lambda>n. le_bytes 32 (n mod ell))"
proof -
  have "le_val (le_bytes 32 (n mod ell)) = n mod ell" for n
    by (rule le_val_scalar) (simp_all add: ell_def)
  moreover have "(x - h * (n mod ell)) mod ell = (x - h * n) mod ell" for x h n :: int
    by (metis mod_diff_right_eq mod_mult_right_eq)
  ultimately show ?thesis by (simp add: curve_laws_def cyclic_curve_def)
qed

definition point_curve :: "unit curve" where
  "point_curve = \<lparr>cv_base = (\<lambda>_. sample_pub), cv_frombytes_negate = (\<lambda>_. Some ()),
     cv_double_scalarmult = (\<lambda>_ _ _. sample_pub)\<rparr>"

definition toy_ref10 :: ref10_prims where
  "toy_ref10 = vendored point_curve"

definition toy_sodium :: sodium_prims where
  "toy_sodium = \<lparr>s_seed_keypair = (\<lambda>seed. (sha256 seed, sha256 seed)),
     s_sign_detached = (\<lambda>msg sk. sha256 msg @ sha256 (sk @ msg)),
     s_verify_detached = (\<lambda>sig msg pub. if sig = sha256 msg @ sha256 (pub @ msg) then 0 else 1)\<rparr>"

lemma toy_sound: "curve_laws point_curve (\<lambda>_. sample_pub)" "sodium_sound toy_sodium"
  by (simp_all add: curve_laws_def point_curve_def sample_pub_def sodium_sound_def toy_sodium_def)

lemma toy_ok: "backend_ok (derive_pubkey toy_ref10) (sign toy_ref10) (verify toy_ref10)"
  unfolding toy_ref10_def by (rule vendored_ok [OF toy_sound(1)])

lemma toy_derive: "length seed = 32 \<Longrightarrow> derive_pubkey toy_ref10 seed = sample_pub"
  by (simp add: derive_pubkey_def toy_ref10_def vendored_def create_keypair_eq [OF toy_sound(1)])

theorem signed_txn_admitted_witness:
  "fst (admit_bytes (verify toy_ref10) (\<lambda>_. \<lparr>acc_balance = 100, acc_nonce = 3\<rparr>) (new_mempool 8)
     (serialize_txn (sign_txn (derive_pubkey toy_ref10) (sign toy_ref10) (replicate 32 1) kNullAddr 7 3))) = A_OK"
proof -
  let ?seed = "replicate 32 1 :: byte list"
  have "length kNullAddr = 20" by (simp add: kNullAddr_def)
  moreover have "address (derive_pubkey toy_ref10 ?seed) \<noteq> kNullAddr"
    using sample_addr_not_null(1) by (simp add: toy_derive sample_addr_def)
  ultimately show ?thesis
    using signed_txn_admitted [OF toy_sound _ _ _ _ refl, of "derive_pubkey toy_ref10" "sign toy_ref10" "verify toy_ref10"
        ?seed kNullAddr 3 "\<lambda>_. \<lparr>acc_balance = 100, acc_nonce = 3\<rparr>" 7 "new_mempool 8"]
    by (simp add: toy_ref10_def [symmetric] new_mempool_def hasPending_def mp_contains_def mp_size_def)
qed

end
