(* ===== verification/Wallet.thy ===== *)
theory Wallet
  imports Ed25519 Store
begin

text \<open>
  The wallet file (\<^verbatim>\<open>wallet/wallet.hpp\<close>, \<^verbatim>\<open>wallet/wallet.cpp\<close>): creation from the operating
  system's entropy, the file with its mode, loading with the recomputed key and address.  The
  derivation function and the JSON parser are arguments; an exception of the parser goes through.
\<close>

text \<open>The modes are written in decimal: 384 is octal 600, 63 the bits of group and others.\<close>

definition kWalletVersion :: u64 where "kWalletVersion = 1"

record wallet =
  w_seed :: "byte list"
  w_pubkey :: "byte list"
  w_address :: address

record wallet_result =
  wr_ok :: bool
  wr_wallet :: "wallet option"
  wr_error :: string
  wr_world_readable :: bool

text \<open>A wallet file: its mode bits and its text, \<open>None\<close> if it cannot be opened for reading.\<close>

record wallet_file =
  wf_mode :: u32
  wf_text :: "string option"

definition wallet_path_for_datadir :: "string \<Rightarrow> string" where
  "wallet_path_for_datadir datadir =
     (if datadir \<noteq> [] \<and> last datadir \<noteq> CHR ''/'' then datadir @ ''/'' else datadir) @ ''wallet.key''"

definition wallet_of_seed :: "(byte list \<Rightarrow> byte list) \<Rightarrow> byte list \<Rightarrow> wallet" where
  "wallet_of_seed derive seed = \<lparr>w_seed = seed, w_pubkey = derive seed, w_address = address (derive seed)\<rparr>"

text \<open>\<^verbatim>\<open>wallet_create\<close> over \<^verbatim>\<open>keygen\<close>; \<open>None\<close> is the exception.\<close>

definition wallet_create :: "key_pair option \<Rightarrow> wallet option" where
  "wallet_create kp = (case kp of None \<Rightarrow> None
     | Some kp \<Rightarrow> Some \<lparr>w_seed = kp_seed kp, w_pubkey = kp_pubkey kp, w_address = address (kp_pubkey kp)\<rparr>)"

definition wallet_text :: "wallet \<Rightarrow> string" where
  "wallet_text w =
     ''{'' @ quoted ''version'' @ '':'' @ to_string (unat kWalletVersion) @
     '','' @ quoted ''priv'' @ '':'' @ quoted (to_hex (w_seed w)) @
     '','' @ quoted ''pub'' @ '':'' @ quoted (to_hex (w_pubkey w)) @
     '','' @ quoted ''address'' @ '':'' @ quoted (to_hex (w_address w)) @ ''}'' @ [newline]"

text \<open>
  Saving; \<open>chmod_ok\<close> is the result of \<^verbatim>\<open>fchmod\<close>.  An existing file is truncated by the open and
  keeps its mode if the change fails.
\<close>

definition wallet_save :: "io \<Rightarrow> bool \<Rightarrow> wallet_file option \<Rightarrow> wallet \<Rightarrow> (bool \<times> wallet_file option) option" where
  "wallet_save io chmod_ok old w =
     (if \<not> io_open io then Some (False, old)
      else if \<not> chmod_ok
        then Some (False, Some \<lparr>wf_mode = (case old of None \<Rightarrow> 384 | Some f \<Rightarrow> wf_mode f), wf_text = Some []\<rparr>)
      else case write_loop (io_writes io) (wallet_text w) [] of
             None \<Rightarrow> None
           | Some (ok, text) \<Rightarrow> Some (ok \<and> io_fsync io, Some \<lparr>wf_mode = 384, wf_text = Some text\<rparr>))"

definition wallet_error :: "bool \<Rightarrow> string \<Rightarrow> wallet_result" where
  "wallet_error exposed e = \<lparr>wr_ok = False, wr_wallet = None, wr_error = e, wr_world_readable = exposed\<rparr>"

text \<open>A stored display copy that is present must decode to the recomputed value.\<close>

definition stored_copy_bad :: "(string \<times> json) list \<Rightarrow> string \<Rightarrow> nat \<Rightarrow> byte list \<Rightarrow> bool" where
  "stored_copy_bad obj key n v =
     (case map_of obj key of Some (JStr s) \<Rightarrow> from_hex n s \<noteq> Some v | _ \<Rightarrow> False)"

definition wallet_of_json :: "(byte list \<Rightarrow> byte list) \<Rightarrow> bool \<Rightarrow> json option \<Rightarrow> wallet_result" where
  "wallet_of_json derive exposed v =
     (case v of
        Some (JObj obj) \<Rightarrow>
          if (case map_of obj ''version'' of Some (JInt v) \<Rightarrow> v \<noteq> kWalletVersion | _ \<Rightarrow> False)
            then wallet_error exposed ''wallet.key: unsupported version''
          else (case map_of obj ''priv'' of
            Some (JStr s) \<Rightarrow>
              (case from_hex 32 s of
                 None \<Rightarrow> wallet_error exposed ''wallet.key: priv is not a 32-byte seed''
               | Some seed \<Rightarrow>
                   let w = wallet_of_seed derive seed
                   in if stored_copy_bad obj ''pub'' 32 (w_pubkey w)
                        then wallet_error exposed ''wallet.key: stored pub does not match derive_pubkey(seed)''
                      else if stored_copy_bad obj ''address'' 20 (w_address w)
                        then wallet_error exposed ''wallet.key: stored address does not match SHA-256(pub)[:20]''
                      else \<lparr>wr_ok = True, wr_wallet = Some w, wr_error = [], wr_world_readable = exposed\<rparr>)
          | _ \<Rightarrow> wallet_error exposed ''wallet.key: missing priv'')
      | _ \<Rightarrow> wallet_error exposed ''wallet.key: malformed JSON'')"

definition wallet_load :: "(byte list \<Rightarrow> byte list) \<Rightarrow> json_parser \<Rightarrow> string \<Rightarrow>
    wallet_file option \<Rightarrow> wallet_result raised" where
  "wallet_load derive parse path f =
     (case f of
        None \<Rightarrow> Returns (wallet_error False (''wallet.key: cannot open '' @ path))
      | Some f \<Rightarrow>
          let exposed = (wf_mode f AND 63 \<noteq> 0)
          in case wf_text f of
               None \<Rightarrow> Returns (wallet_error exposed (''wallet.key: cannot read '' @ path))
             | Some content \<Rightarrow> map_raised (wallet_of_json derive exposed) (parse content))"

text \<open>
  At node start: load the file if there is one, else create and save; the exception is that of the parser
  or of the key generator.
\<close>

definition load_or_create_wallet :: "(byte list \<Rightarrow> byte list) \<Rightarrow> json_parser \<Rightarrow> key_pair option \<Rightarrow>
    io \<Rightarrow> bool \<Rightarrow> string \<Rightarrow> wallet_file option \<Rightarrow> (wallet_result \<times> wallet_file option) raised option" where
  "load_or_create_wallet derive parse kp io chmod_ok datadir f =
     (let path = wallet_path_for_datadir datadir
      in if f \<noteq> None then Some (map_raised (\<lambda>wr. (wr, f)) (wallet_load derive parse path f))
         else case wallet_create kp of
                None \<Rightarrow> Some Raises
              | Some w \<Rightarrow>
                  (case wallet_save io chmod_ok f w of
                     None \<Rightarrow> None
                   | Some (False, f) \<Rightarrow> Some (Returns (wallet_error False (''wallet.key: cannot write '' @ path), f))
                   | Some (True, f) \<Rightarrow>
                       Some (Returns (\<lparr>wr_ok = True, wr_wallet = Some w, wr_error = [], wr_world_readable = False\<rparr>, f))))"

section \<open>Round trip and rejection\<close>

definition wallet_json :: "wallet \<Rightarrow> json" where
  "wallet_json w = JObj [(''version'', JInt kWalletVersion), (''priv'', JStr (to_hex (w_seed w))),
     (''pub'', JStr (to_hex (w_pubkey w))), (''address'', JStr (to_hex (w_address w)))]"

lemma wallet_text_render: "wallet_text w = render (wallet_json w) @ [newline]"
  by (simp add: wallet_text_def wallet_json_def)

lemma picojson_wallet: "picojson (wallet_text w) = Returns (Some (wallet_json w))"
proof -
  obtain ms where ms: "wallet_json w = JObj ms" by (simp add: wallet_json_def)
  have "plain DEFAULT_MAX_DEPTHS (JObj ms)"
    unfolding ms [symmetric] by (simp add: wallet_json_def DEFAULT_MAX_DEPTHS_def plain_char_def small_def kWalletVersion_def)
  from picojson_object [OF this] show ?thesis unfolding wallet_text_render ms .
qed

lemma load_wallet_text:
  assumes "length seed = 32" "length (derive seed) = 32"
  shows "wallet_load derive picojson path (Some \<lparr>wf_mode = 384, wf_text = Some (wallet_text (wallet_of_seed derive seed))\<rparr>) =
    Returns \<lparr>wr_ok = True, wr_wallet = Some (wallet_of_seed derive seed), wr_error = [], wr_world_readable = False\<rparr>"
  using assms by (simp add: wallet_load_def picojson_wallet) (simp add: wallet_of_json_def wallet_json_def wallet_of_seed_def stored_copy_bad_def)

text \<open>
  C26. A wallet that was created and saved without an error is loaded back as it was, from a file
  that only its owner can read.
\<close>

theorem wallet_roundtrip:
  assumes create: "wallet_create (Some (\<lparr>kp_seed = seed, kp_pubkey = derive seed\<rparr>)) = Some w"
    and len: "length seed = 32" "length (derive seed) = 32"
    and save: "wallet_save io chmod_ok old w = Some (True, f)"
  shows "wallet_load derive picojson path f =
    Returns \<lparr>wr_ok = True, wr_wallet = Some w, wr_error = [], wr_world_readable = False\<rparr>"
proof -
  have w: "w = wallet_of_seed derive seed" using create by (auto simp: wallet_create_def wallet_of_seed_def)
  have "f = Some \<lparr>wf_mode = 384, wf_text = Some (wallet_text w)\<rparr>"
    using save by (auto simp: wallet_save_def split: if_splits option.splits dest: write_loop_result)
  then show ?thesis using load_wallet_text [of seed derive path] len unfolding w by simp
qed

theorem wallet_roundtrip_witness:
  "let w = wallet_of_seed (\<lambda>_. sample_pub) sample_pub in
   map_raised wr_wallet (wallet_load (\<lambda>_. sample_pub) picojson [] (Some \<lparr>wf_mode = 384, wf_text = Some (wallet_text w)\<rparr>)) =
     Returns (Some w)"
proof -
  let ?w = "wallet_of_seed (\<lambda>_. sample_pub) sample_pub"
  let ?io = "io_fine (length (wallet_text ?w))"
  obtain c cs where l: "wallet_text ?w = c # cs" by (cases "wallet_text ?w") (simp_all add: wallet_text_def)
  have save: "wallet_save ?io True None ?w = Some (True, Some \<lparr>wf_mode = 384, wf_text = Some (wallet_text ?w)\<rparr>)"
    unfolding wallet_save_def io_fine_def by (simp add: l)
  have "wallet_create (Some \<lparr>kp_seed = sample_pub, kp_pubkey = sample_pub\<rparr>) = Some ?w"
    by (simp add: wallet_create_def wallet_of_seed_def)
  then have "wallet_load (\<lambda>_. sample_pub) picojson [] (Some \<lparr>wf_mode = 384, wf_text = Some (wallet_text ?w)\<rparr>) =
      Returns \<lparr>wr_ok = True, wr_wallet = Some ?w, wr_error = [], wr_world_readable = False\<rparr>"
    by (rule wallet_roundtrip [where derive = "\<lambda>_. sample_pub" and seed = sample_pub and io = ?io and chmod_ok = True and old = None,
          OF _ _ _ save]) (simp_all add: sample_pub_def)
  then show ?thesis by (simp only: Let_def) simp
qed

lemma wallet_of_json_recomputes:
  "case wr_wallet (wallet_of_json derive e v) of
     None \<Rightarrow> \<not> wr_ok (wallet_of_json derive e v)
   | Some w \<Rightarrow> wr_ok (wallet_of_json derive e v) \<and> length (w_seed w) = 32 \<and>
       w_pubkey w = derive (w_seed w) \<and> w_address w = address (derive (w_seed w))"
  by (auto simp: wallet_of_json_def wallet_error_def wallet_of_seed_def Let_def dest: from_hex_length
      split: option.splits json.splits)

lemma wallet_load_cases:
  assumes "wallet_load derive parse path f = Returns wr"
  obtains e msg where "wr = wallet_error e msg" | e v where "wr = wallet_of_json derive e v"
  using assms by (auto simp: wallet_load_def Let_def map_raised_Returns split: option.splits)

lemma wallet_error_sel [simp]: "wr_wallet (wallet_error e msg) = None" "\<not> wr_ok (wallet_error e msg)"
  by (simp_all add: wallet_error_def)

lemma wallet_load_seed:
  assumes "wallet_load derive parse path f = Returns wr" "wr_wallet wr = Some w"
  shows "length (w_seed w) = 32"
  using assms(1)
proof (cases rule: wallet_load_cases)
  case (2 e v)
  with assms(2) wallet_of_json_recomputes [of derive e v] show ?thesis by simp
qed (use assms(2) in simp)

text \<open>
  A wallet is never taken from the display copies: whatever the file says, a wallet that loads
  carries the public key derived from its 32-byte seed and the address of that key, and a stored
  copy that decodes to anything else is refused.
\<close>

theorem wallet_load_recomputes:
  "case wallet_load derive parse path f of
     Raises \<Rightarrow> \<exists>p text. f = Some p \<and> wf_text p = Some text \<and> parse text = Raises
   | Returns wr \<Rightarrow>
      (case wr_wallet wr of
         None \<Rightarrow> \<not> wr_ok wr
       | Some w \<Rightarrow> wr_ok wr \<and> length (w_seed w) = 32 \<and>
           w_pubkey w = derive (w_seed w) \<and> w_address w = address (derive (w_seed w)))"
proof (cases "wallet_load derive parse path f")
  case (Returns wr)
  then show ?thesis
  proof (cases rule: wallet_load_cases)
    case (2 e v)
    with Returns wallet_of_json_recomputes [of derive e v] show ?thesis by simp
  qed (use Returns in simp)
next
  case Raises
  then show ?thesis by (auto simp: wallet_load_def Let_def raised.map_disc_iff split: option.splits raised.splits)
qed

end
