(* ===== verification/Cli.thy ===== *)
theory Cli
  imports Wallet Http Supply
begin

text \<open>
  The command line program (\<^verbatim>\<open>apps/txchain/main.cpp\<close>).  A command is a function of its argument
  vector, the files it reads, the clock and, for \<^verbatim>\<open>send\<close>, an HTTP client with a state of its own;
  its result is the exit code with what it printed on the two streams, or \<open>Raises\<close>: an exception of the
  JSON parser, which no command catches, so that the program is aborted.  A file has its mode and its text.
\<close>

section \<open>Files, streams and arguments\<close>

type_synonym files = "string \<Rightarrow> wallet_file option"

definition read_text :: "files \<Rightarrow> string \<Rightarrow> string option" where
  "read_text fs path = (case fs path of None \<Rightarrow> None | Some f \<Rightarrow> wf_text f)"

record cmd_result =
  cr_exit :: int
  cr_out :: string
  cr_err :: string

definition prints :: "int \<Rightarrow> string \<Rightarrow> cmd_result" where
  "prints code line = \<lparr>cr_exit = code, cr_out = line @ [newline], cr_err = []\<rparr>"

definition complains :: "int \<Rightarrow> string \<Rightarrow> cmd_result" where
  "complains code line = \<lparr>cr_exit = code, cr_out = [], cr_err = line @ [newline]\<rparr>"

text \<open>A C++ string that is printed through \<^verbatim>\<open>c_str()\<close> ends at its first null character.\<close>

definition cstr :: "string \<Rightarrow> string" where
  "cstr s = takeWhile (\<lambda>c. c \<noteq> CHR 0x00) s"

fun opt_scan :: "string \<Rightarrow> string list \<Rightarrow> string" where
  "opt_scan flag (a # v # args) = (if a = flag then v else opt_scan flag (v # args))"
| "opt_scan flag _ = []"

definition opt :: "string list \<Rightarrow> nat \<Rightarrow> string \<Rightarrow> string" where
  "opt argv start flag = opt_scan flag (drop start argv)"

definition u128_str :: "u128 \<Rightarrow> string" where
  "u128_str v = (if v = 0 then ''0'' else rev (u128_digits v))"

definition DEFAULT_DATADIR :: string where "DEFAULT_DATADIR = ''./txchain-data''"

text \<open>The difficulty flag over its default, and the reward that goes with a difficulty.\<close>

definition difficulty_arg :: "string list \<Rightarrow> u32" where
  "difficulty_arg argv =
     (let dstr = opt argv 3 ''--difficulty'' in if dstr \<noteq> [] then ucast (strtoull dstr) else DIFFICULTY_BITS)"

definition reward_of :: "u32 \<Rightarrow> u64" where
  "reward_of difficulty = (if difficulty > 0 then COINBASE_REWARD else 0)"

section \<open>\<^verbatim>\<open>monitor verify\<close>\<close>

fun verify_scan :: "string list \<Rightarrow> string \<times> bool \<Rightarrow> string \<times> bool" where
  "verify_scan (a # v # args) (path, is_datadir) =
     verify_scan (v # args)
       (if a = ''--file'' then (v, False) else if a = ''--datadir'' then (v, True) else (path, is_datadir))"
| "verify_scan _ s = s"

definition run_monitor_verify :: "verifier \<Rightarrow> (double \<Rightarrow> u64) \<Rightarrow> json_parser \<Rightarrow> files \<Rightarrow> u64 \<Rightarrow>
    string list \<Rightarrow> cmd_result raised" where
  "run_monitor_verify vf ub parse fs now_s argv =
     (let (path, is_datadir) = verify_scan (drop 3 argv) ([], False)
      in if path = []
           then Returns (complains 2 ''usage: txchain monitor verify (--file <chain.jsonl> | --datadir <dir>)'')
         else map_raised (\<lambda>loaded.
           let n = length (lr_blocks loaded)
           in if \<not> vr_ok (lr_status loaded)
                then prints (monitor_verify_exit_code (lr_status loaded)) (cstr (monitor_verify_line (lr_status loaded) n))
              else
                let difficulty = difficulty_arg argv;
                    result = replayFromGenesis vf (lr_blocks loaded) now_s difficulty (reward_of difficulty)
                in prints (monitor_verify_exit_code result) (cstr (monitor_verify_line result n)))
           (load ub parse (read_text fs (if is_datadir then chain_path path else path))))"

section \<open>\<^verbatim>\<open>wallet\<close>\<close>

definition wallet_path :: "string list \<Rightarrow> string \<Rightarrow> string" where
  "wallet_path argv file_flag =
     (let f = opt argv 3 file_flag; dd = opt argv 3 ''--datadir''
      in if f \<noteq> [] then f else wallet_path_for_datadir (if dd = [] then DEFAULT_DATADIR else dd))"

text \<open>\<open>exc\<close> is the text of the exception when there is no key pair.\<close>

definition run_wallet_keygen :: "key_pair option \<Rightarrow> string \<Rightarrow> io \<Rightarrow> bool \<Rightarrow> files \<Rightarrow> string list \<Rightarrow>
    (cmd_result \<times> files) option" where
  "run_wallet_keygen kp exc io chmod_ok fs argv =
     (let path = wallet_path argv ''--out''
      in case wallet_create kp of
           None \<Rightarrow> Some (complains 1 (''wallet keygen: '' @ exc), fs)
         | Some w \<Rightarrow>
             (case wallet_save io chmod_ok (fs path) w of
                None \<Rightarrow> None
              | Some (ok, f) \<Rightarrow>
                  Some (if \<not> ok then complains 1 (''wallet keygen: cannot write '' @ path)
                        else prints 0 (to_hex (w_address w)), fs(path := f))))"

definition run_wallet_address :: "(byte list \<Rightarrow> byte list) \<Rightarrow> json_parser \<Rightarrow> files \<Rightarrow> string list \<Rightarrow>
    cmd_result raised" where
  "run_wallet_address derive parse fs argv =
     (let path = wallet_path argv ''--key''
      in map_raised (\<lambda>r.
         case wr_wallet r of
           Some w \<Rightarrow>
             \<lparr>cr_exit = 0, cr_out = to_hex (w_address w) @ [newline],
              cr_err = (if wr_world_readable r
                        then ''warning: '' @ path @ '' is group/other-accessible (expected mode 0600)'' @ [newline] else [])\<rparr>
         | None \<Rightarrow> complains 1 (''wallet address: '' @ wr_error r)) (wallet_load derive parse path (fs path)))"

definition run_wallet :: "(byte list \<Rightarrow> byte list) \<Rightarrow> json_parser \<Rightarrow> key_pair option \<Rightarrow> string \<Rightarrow> io \<Rightarrow>
    bool \<Rightarrow> files \<Rightarrow> string list \<Rightarrow> (cmd_result raised \<times> files) option" where
  "run_wallet derive parse kp exc io chmod_ok fs argv =
     (if length argv \<ge> 3 \<and> argv ! 2 = ''keygen'' then map_option (\<lambda>(r, fs). (Returns r, fs)) (run_wallet_keygen kp exc io chmod_ok fs argv)
      else if length argv \<ge> 3 \<and> argv ! 2 = ''address'' then Some (run_wallet_address derive parse fs argv, fs)
      else Some (Returns (complains 2
        ''usage: txchain wallet (keygen [--datadir D] [--out F] | address [--datadir D] [--key F])''), fs))"

section \<open>\<^verbatim>\<open>send\<close>\<close>

text \<open>The host and the port behind the last colon; the port is an \<^verbatim>\<open>int\<close>.\<close>

definition parse_node :: "string \<Rightarrow> (string \<times> int) option" where
  "parse_node s =
     (let tail = rev (takeWhile (\<lambda>c. c \<noteq> CHR '':'') (rev s));
          colon = length s - (length tail + 1)
      in if CHR '':'' \<notin> set s \<or> colon = 0 \<or> tail = [] then None
         else let port = to_int32 (strtol tail) in if port > 0 then Some (take colon s, port) else None)"

type_synonym 's http = "string \<Rightarrow> string \<Rightarrow> int \<Rightarrow> string \<Rightarrow> string \<Rightarrow> 's \<Rightarrow> http_result \<times> 's"

text \<open>The next nonce from the node, or offline from the chain of the data directory.\<close>

definition send_nonce_node :: "(double \<Rightarrow> u64) \<Rightarrow> json_parser \<Rightarrow> 's http \<Rightarrow> string \<Rightarrow> int \<Rightarrow>
    string \<Rightarrow> 's \<Rightarrow> (cmd_result + u64) raised \<times> 's" where
  "send_nonce_node ub parse http host port from_addr_hex s =
     (let (r, s) = http ''GET'' host port (''/account/'' @ from_addr_hex) [] s
      in if \<not> hr_ok r \<or> hr_status r \<noteq> 200 then (Returns (Inl (complains 1 ''send: cannot read /account from node'')), s)
         else (map_raised (\<lambda>pn. case pn of
                 None \<Rightarrow> Inl (complains 1 ''send: malformed /account response'')
               | Some pn \<Rightarrow> Inr pn) (json_get_u64 ub parse (hr_body r) ''pendingNonce''), s))"

definition send_nonce_offline :: "verifier \<Rightarrow> (double \<Rightarrow> u64) \<Rightarrow> json_parser \<Rightarrow> files \<Rightarrow> u64 \<Rightarrow>
    string \<Rightarrow> address \<Rightarrow> (cmd_result + u64) raised" where
  "send_nonce_offline vf ub parse fs now_s datadir addr =
     map_raised (\<lambda>lr.
       let blocks = lr_blocks lr
       in if vr_ok (lr_status lr) \<and> blocks \<noteq> [] \<and> \<not> vr_ok (replayFromGenesis vf blocks now_s 0 0)
            then Inl (complains 1 ''send: datadir chain fails replay'')
          else Inr (case map_of (replayState vf blocks) addr of None \<Rightarrow> 0 | Some st \<Rightarrow> acc_nonce st))
       (load ub parse (read_text fs (chain_path datadir)))"

text \<open>The part after the nonce: sign, then print offline or submit to the node.\<close>

definition send_signed :: "(byte list \<Rightarrow> byte list) \<Rightarrow> (byte list \<Rightarrow> byte list \<Rightarrow> byte list) \<Rightarrow>
    json_parser \<Rightarrow> 's http \<Rightarrow> (string \<times> int) option \<Rightarrow> byte list \<Rightarrow> address \<Rightarrow> u64 \<Rightarrow> u64 \<Rightarrow> 's \<Rightarrow>
    cmd_result raised \<times> 's" where
  "send_signed derive sg parse http node seed to amount nonce s =
     (let tx = sign_txn derive sg seed to amount nonce;
          body = to_hex (serialize_txn tx);
          tid = to_hex (txid tx)
      in case node of
           None \<Rightarrow>
             (Returns (prints 0 (''{'' @ quoted ''txid'' @ '':'' @ quoted tid @ '','' @ quoted ''nonce'' @ '':'' @
                to_string (unat nonce) @ '','' @ quoted ''raw'' @ '':'' @ quoted body @ ''}'')), s)
         | Some (host, port) \<Rightarrow>
             let (pr, s) = http ''POST'' host port ''/tx'' body s
             in if \<not> hr_ok pr
                  then (Returns (complains 1 (''send: cannot reach node at '' @ host @ '':'' @ int_to_string port)), s)
                else if hr_status pr div 100 = 2
                  then (map_raised (\<lambda>i. prints 0 (case i of Some i \<Rightarrow> cstr i | None \<Rightarrow> tid))
                          (json_get_string parse (hr_body pr) ''txid''), s)
                else (map_raised (\<lambda>e. complains 1 (''send rejected: '' @
                          (case e of Some e \<Rightarrow> cstr e | None \<Rightarrow> cstr (hr_body pr))))
                        (json_get_string parse (hr_body pr) ''error''), s))"

definition run_send :: "verifier \<Rightarrow> (byte list \<Rightarrow> byte list) \<Rightarrow> (byte list \<Rightarrow> byte list \<Rightarrow> byte list) \<Rightarrow>
    (double \<Rightarrow> u64) \<Rightarrow> json_parser \<Rightarrow> 's http \<Rightarrow> files \<Rightarrow> u64 \<Rightarrow> string list \<Rightarrow> 's \<Rightarrow>
    cmd_result raised \<times> 's" where
  "run_send vf derive sg ub parse http fs now_s argv s =
     (let to_arg = opt argv 2 ''--to'';
          amount_arg = opt argv 2 ''--amount'';
          node = opt argv 2 ''--node'';
          keyf = opt argv 2 ''--key'';
          dd = opt argv 2 ''--datadir'';
          datadir = (if dd = [] then DEFAULT_DATADIR else dd)
      in if to_arg = [] \<or> amount_arg = []
           then (Returns (complains 2
             ''usage: txchain send --to <40hex> --amount <u64> [--node host:port] [--datadir D | --key F]''), s)
         else case from_hex 20 to_arg of
           None \<Rightarrow> (Returns (complains 2 ''send: --to must be 40 hex chars''), s)
         | Some to \<Rightarrow>
             let amount = strtoull amount_arg;
                 wpath = (if keyf \<noteq> [] then keyf else wallet_path_for_datadir datadir)
             in case wallet_load derive parse wpath (fs wpath) of
                  Raises \<Rightarrow> (Raises, s)
                | Returns wl \<Rightarrow>
                (case wr_wallet wl of
                  None \<Rightarrow> (Returns (complains 1 (''send: '' @ wr_error wl)), s)
                | Some w \<Rightarrow>
                    if node \<noteq> [] \<and> parse_node node = None
                      then (Returns (complains 2 ''send: bad --node (want host:port)''), s)
                    else
                      let target = (if node = [] then None else parse_node node);
                          (nonce, s) =
                            (case target of
                               Some (host, port) \<Rightarrow> send_nonce_node ub parse http host port (to_hex (w_address w)) s
                             | None \<Rightarrow> (send_nonce_offline vf ub parse fs now_s datadir (w_address w), s))
                      in case nonce of
                           Raises \<Rightarrow> (Raises, s)
                         | Returns (Inl failure) \<Rightarrow> (Returns failure, s)
                         | Returns (Inr nonce) \<Rightarrow> send_signed derive sg parse http target (w_seed w) to amount nonce s))"

section \<open>\<^verbatim>\<open>import\<close>\<close>

text \<open>
  A file created by the rewrite has mode octal 644, 420 in decimal, less the process mask; one that exists
  keeps its mode.
\<close>

definition put_text :: "files \<Rightarrow> string \<Rightarrow> fcontent \<Rightarrow> files" where
  "put_text fs path text =
     (case text of
        None \<Rightarrow> fs
      | Some t \<Rightarrow> fs(path := Some \<lparr>wf_mode = (case fs path of None \<Rightarrow> 420 | Some f \<Rightarrow> wf_mode f), wf_text = Some t\<rparr>))"

definition run_import :: "verifier \<Rightarrow> (double \<Rightarrow> u64) \<Rightarrow> json_parser \<Rightarrow> io \<Rightarrow> files \<Rightarrow> u64 \<Rightarrow> string list \<Rightarrow>
    (cmd_result raised \<times> files) option" where
  "run_import vf ub parse io fs now_s argv =
     (if length argv < 3
        then Some (Returns (complains 2 ''usage: txchain import <file> [--datadir D] [--difficulty D]''), fs)
      else
        let name = argv ! 2;
            dd = opt argv 3 ''--datadir'';
            path = chain_path (if dd = [] then DEFAULT_DATADIR else dd);
            difficulty = difficulty_arg argv
        in case load ub parse (read_text fs name) of
             Raises \<Rightarrow> Some (Raises, fs)
           | Returns imported \<Rightarrow>
           if \<not> vr_ok (lr_status imported)
             then Some (Returns (complains 1 (''import: cannot load '' @ name @ '' ('' @
               reasonName (vr_reason (lr_status imported)) @ '')'')), fs)
           else case load ub parse (read_text fs path) of
             Raises \<Rightarrow> Some (Raises, fs)
           | Returns active \<Rightarrow>
             let result = evaluateImport vf (lr_blocks active) (lr_blocks imported) now_s difficulty (reward_of difficulty)
             in if \<not> ir_valid result
                  then Some (Returns (prints 1 (cstr (monitor_verify_line (ir_status result) (length (lr_blocks imported))))), fs)
                else if \<not> ir_won result
                  then Some (Returns (prints 0 (''incumbent retained (active cumWork '' @ u128_str (ir_active_work result) @
                         '' >= candidate '' @ u128_str (ir_candidate_work result) @ '')'')), fs)
                else case rewrite_file io (read_text fs path) (lr_blocks imported) of
                       None \<Rightarrow> None
                     | Some (ok, text) \<Rightarrow>
                         Some (Returns (if \<not> ok then complains 1 (''import: cannot rewrite '' @ path)
                               else prints 0 (''imported: replaced active chain (cumWork '' @
                                 u128_str (ir_active_work result) @ '' -> '' @ u128_str (ir_candidate_work result) @
                                 ''), new tip '' @ to_hex (block_hash (blk_header (last (lr_blocks imported)))) @
                                 '' height '' @ to_string (length (lr_blocks imported) - 1))),
                               put_text fs path text))"

section \<open>The program\<close>

definition cli_help :: cmd_result where
  "cli_help = prints 0 (''txchain: TxChain v2 CLI (core module=config).'' @ [newline] @
     ''  monitor verify (--file <chain.jsonl> | --datadir <dir>) [--difficulty D]'' @ [newline] @
     ''  wallet keygen  [--datadir D] [--out F]'' @ [newline] @
     ''  wallet address [--datadir D] [--key F]'' @ [newline] @
     ''  send --to <40hex> --amount <u64> [--node host:port] [--datadir D | --key F]'' @ [newline] @
     ''  import <file> [--datadir D] [--difficulty D]'')"

definition cli_main :: "verifier \<Rightarrow> (byte list \<Rightarrow> byte list) \<Rightarrow> (byte list \<Rightarrow> byte list \<Rightarrow> byte list) \<Rightarrow>
    (double \<Rightarrow> u64) \<Rightarrow> json_parser \<Rightarrow> 's http \<Rightarrow> key_pair option \<Rightarrow> string \<Rightarrow> io \<Rightarrow> bool \<Rightarrow> u64 \<Rightarrow>
    string list \<Rightarrow> files \<times> 's \<Rightarrow> (cmd_result raised \<times> files \<times> 's) option" where
  "cli_main vf derive sg ub parse http kp exc io chmod_ok now_s argv world =
     (case world of (fs, s) \<Rightarrow>
        if length argv \<ge> 3 \<and> argv ! 1 = ''monitor'' \<and> argv ! 2 = ''verify''
          then Some (run_monitor_verify vf ub parse fs now_s argv, fs, s)
        else if length argv \<ge> 2 \<and> argv ! 1 = ''wallet''
          then map_option (\<lambda>(r, fs). (r, fs, s)) (run_wallet derive parse kp exc io chmod_ok fs argv)
        else if length argv \<ge> 2 \<and> argv ! 1 = ''send''
          then (let (r, s) = run_send vf derive sg ub parse http fs now_s argv s in Some (r, fs, s))
        else if length argv \<ge> 2 \<and> argv ! 1 = ''import''
          then map_option (\<lambda>(r, fs). (r, fs, s)) (run_import vf ub parse io fs now_s argv)
        else Some (Returns cli_help, fs, s))"

end
