(* ===== verification/Commands.thy ===== *)
theory Commands
  imports Cli
begin

text \<open>
  What the commands guarantee end to end: a \<^verbatim>\<open>send\<close> to a node, an import over the chain file of a
  data directory, and the offline \<^verbatim>\<open>send\<close> on a chain with block rewards.
\<close>

section \<open>Sending to a node\<close>

lemma cstr_to_hex [simp]: "cstr (to_hex bs) = to_hex bs"
proof -
  have "kHex ! n \<noteq> CHR 0x00" if "n < 16" for n
    using less16_cases [OF that] by (auto simp: kHex_def)
  then have "\<forall>c \<in> set (to_hex bs). c \<noteq> CHR 0x00" using to_hex_chars by metis
  then show ?thesis unfolding cstr_def by (subst takeWhile_eq_all_conv)
qed

lemma to_hex_not_empty: "length bs = Suc n \<Longrightarrow> to_hex bs \<noteq> []"
  by (cases bs) simp_all

lemma parse_node_nonempty: "parse_node node = Some hp \<Longrightarrow> node \<noteq> []"
  by (auto simp: parse_node_def)

text \<open>
  What the command relies on in a node behind the HTTP client: the answer to the account request, and
  that of a submission the admission accepts.  \<open>pool\<close> and \<open>lookup\<close> are the pool and the accounts of
  the node in a state, \<open>with_pool\<close> the state with another pool.
\<close>

locale node_service =
  fixes vf :: verifier
    and http :: "'s http"
    and pool :: "'s \<Rightarrow> mempool"
    and lookup :: "'s \<Rightarrow> address \<Rightarrow> account_state"
    and with_pool :: "mempool \<Rightarrow> 's \<Rightarrow> 's"
  assumes account_answer: "length a = 20 \<Longrightarrow> http ''GET'' host port (''/account/'' @ to_hex a) body s =
      (\<lparr>hr_ok = True, hr_status = 200,
        hr_body = render (account_json a (lookup s a) (next_nonce (lookup s) (pool s) a))\<rparr>, s)"
    and submit_answer: "wf_txn t \<Longrightarrow> admit vf (lookup s) (pool s) t = (A_OK, m) \<Longrightarrow>
      http ''POST'' host port ''/tx'' (to_hex (serialize_txn t)) s =
      (\<lparr>hr_ok = True, hr_status = 200, hr_body = render (txid_json (txid t))\<rparr>, with_pool m s)"
begin

lemma nonce_answered:
  assumes "length a = 20" "reads_back parse (account_json a (lookup s a) (next_nonce (lookup s) (pool s) a))"
    and "small (next_nonce (lookup s) (pool s) a)"
  shows "send_nonce_node ub parse http host port (to_hex a) s =
    (Returns (Inr (next_nonce (lookup s) (pool s) a)), s)"
proof -
  let ?v = "account_json a (lookup s a) (next_nonce (lookup s) (pool s) a)"
  have "json_get_u64 ub parse (render ?v) ''pendingNonce'' =
      Returns (Some (next_nonce (lookup s) (pool s) a))"
    using assms(2) small_sint [OF assms(3)]
    by (simp add: json_get_u64_def reads_back_def not_less del: render.simps) (simp add: account_json_def)
  then show ?thesis by (simp only: send_nonce_node_def Let_def account_answer [OF assms(1)]) simp
qed

lemma submission_answered:
  assumes "wf_txn t" "admit vf (lookup s) (pool s) t = (A_OK, m)" "reads_back parse (txid_json (txid t))"
    and t: "t = sign_txn derive sg seed to amount nonce"
  shows "send_signed derive sg parse http (Some (host, port)) seed to amount nonce s =
    (Returns (prints 0 (to_hex (txid t))), with_pool m s)"
  using submit_answer [OF assms(1,2)] assms(3)
  by (simp add: send_signed_def Let_def json_get_string_def reads_back_def txid_json_def t [symmetric])

text \<open>The whole command, for a wallet whose account covers the amount and has nothing pending.\<close>

lemma send_admitted:
  assumes args: "opt argv 2 ''--to'' = to_hex to" "length to = 20" "opt argv 2 ''--amount'' = amt" "amt \<noteq> []"
      "opt argv 2 ''--key'' = key" "key \<noteq> []" "parse_node (opt argv 2 ''--node'') = Some (host, port)"
    and wallet: "wallet_load d parse key (fs key) = Returns wl" "wr_wallet wl = Some (wallet_of_seed d seed)"
    and ok: "backend_ok d sg vf" and null: "address (d seed) \<noteq> kNullAddr"
    and t: "t = sign_txn d sg seed to (strtoull amt) (acc_nonce (lookup s (address (d seed))))"
    and acc: "strtoull amt \<le> acc_balance (lookup s (address (d seed)))" "small (acc_nonce (lookup s (address (d seed))))"
    and free: "\<not> hasPending (pool s) (address (d seed))" "\<not> mp_contains (pool s) (txid t)" "mp_size (pool s) < mp_cap (pool s)"
    and rd: "reads_back parse (account_json (address (d seed)) (lookup s (address (d seed))) (acc_nonce (lookup s (address (d seed)))))"
      "reads_back parse (txid_json (txid t))"
  shows "run_send vf d sg ub parse http fs now_s argv s =
    (Returns (prints 0 (to_hex (txid t))), with_pool (admitted (pool s) t) s)"
    "admit vf (lookup s) (pool s) t = (A_OK, admitted (pool s) t)" "wf_txn t"
proof -
  let ?a = "address (d seed)"
  have nonce: "next_nonce (lookup s) (pool s) ?a = acc_nonce (lookup s ?a)"
    using free(1) by (simp add: next_nonce_def)
  have "length ?a = 20" by (simp add: length_address)
  then have ask: "send_nonce_node ub parse http host port (to_hex ?a) s =
      (Returns (Inr (acc_nonce (lookup s ?a))), s)"
    using nonce_answered [of ?a parse s] acc(2) rd(1) unfolding nonce by simp
  have seed: "length seed = 32"
    using wallet_load_seed [OF wallet] by (simp add: wallet_of_seed_def)
  note adm = sign_txn_admitted [where lookup = "lookup s" and vf = vf, OF ok seed args(2) null t refl acc(1) free]
  show "admit vf (lookup s) (pool s) t = (A_OK, admitted (pool s) t)" "wf_txn t" by (fact adm)+
  note sub = submission_answered [OF adm(2,1) rd(2) t]
  have to: "to_hex to \<noteq> []" using args(2) to_hex_not_empty [of to 19] by simp
  have addr: "w_address (wallet_of_seed d seed) = ?a" "w_seed (wallet_of_seed d seed) = seed"
    by (simp_all add: wallet_of_seed_def)
  show "run_send vf d sg ub parse http fs now_s argv s =
      (Returns (prints 0 (to_hex (txid t))), with_pool (admitted (pool s) t) s)"
    unfolding run_send_def Let_def args(1,3,5)
    using to args(2,4,6) args(7) parse_node_nonempty [OF args(7)] wallet ask sub addr
    by simp
qed

end

text \<open>Numbers on a command line.\<close>

lemmas number_simps = strtoull_def strtol_def sign_digits_def is_blank_def is_digit_def dec_val_def digit_val_def

lemma demo_numbers: "strtoull ''7'' = 7" "strtoull ''0'' = 0" "to_int32 (strtol ''80'') = 80"
  by (simp_all add: number_simps to_int32_def signed_take_bit_int_eq_self)

section \<open>Importing a chain\<close>

lemma rewrite_text: "fold (\<lambda>b out. out @ to_json_line b @ [newline]) bs acc = acc @ file_of bs"
  by (induction bs arbitrary: acc) (simp_all add: file_of_def block_line_def)

lemma rewrite_file_result:
  assumes "rewrite_file io f bs = Some (ok, f')"
  shows "(f' = f \<or> (\<exists>k. f' = Some (take k (file_of bs)))) \<and> (ok \<longrightarrow> f' = Some (file_of bs))"
  using assms unfolding rewrite_file_def Let_def rewrite_text write_file_def
  by (auto split: if_splits option.splits dest: write_loop_result)

text \<open>
  C29. What an import may do.  It touches no file but the chain file of the data directory, and it
  leaves that one alone unless both files are parsed without an exception, the imported file loads, the
  blocks in it validate from genesis and they carry strictly more work than what loads from the data
  directory; then the new text is that of the imported blocks, or a prefix of it when the write fails,
  and exactly a complete write is reported as a success.
\<close>

theorem import_outcome:
  assumes run: "run_import vf ub parse io fs now_s argv = Some (r, fs')"
    and path: "path = chain_path (if opt argv 3 ''--datadir'' = [] then DEFAULT_DATADIR else opt argv 3 ''--datadir'')"
    and changed: "fs' \<noteq> fs"
  shows "\<exists>imported active c. load ub parse (read_text fs (argv ! 2)) = Returns imported \<and>
    load ub parse (read_text fs path) = Returns active \<and> r = Returns c \<and>
    (\<forall>p. p \<noteq> path \<longrightarrow> fs' p = fs p) \<and> vr_ok (lr_status imported) \<and>
    vr_ok (replayFromGenesis vf (lr_blocks imported) now_s (difficulty_arg argv) (reward_of (difficulty_arg argv))) \<and>
    cumulativeWork (lr_blocks active) (difficulty_arg argv) < cumulativeWork (lr_blocks imported) (difficulty_arg argv) \<and>
    (\<exists>k. read_text fs' path = Some (take k (file_of (lr_blocks imported)))) \<and>
    (cr_exit c = 0 \<longrightarrow> read_text fs' path = Some (file_of (lr_blocks imported)))"
proof -
  let ?D = "difficulty_arg argv"
  obtain imp act where ld: "load ub parse (read_text fs (argv ! 2)) = Returns imp" "load ub parse (read_text fs path) = Returns act"
    using run changed unfolding run_import_def Let_def path by (auto split: if_splits raised.splits)
  have won: "vr_ok (lr_status imp)" "vr_ok (replayFromGenesis vf (lr_blocks imp) now_s ?D (reward_of ?D))"
      "cumulativeWork (lr_blocks act) ?D < cumulativeWork (lr_blocks imp) ?D"
    and "\<exists>ok new c. rewrite_file io (read_text fs path) (lr_blocks imp) = Some (ok, new) \<and>
      fs' = put_text fs path new \<and> r = Returns c \<and> (cr_exit c = 0 \<longrightarrow> ok)"
    using run changed ld
    by (auto simp: run_import_def Let_def evaluateImport_def candidateWins_def complains_def prints_def
        path split: if_splits option.splits prod.splits)
  then obtain ok new c where w: "rewrite_file io (read_text fs path) (lr_blocks imp) = Some (ok, new)"
    "fs' = put_text fs path new" "cr_exit c = 0 \<longrightarrow> ok" "r = Returns c" by blast
  have new: "new = read_text fs path \<or> (\<exists>k. new = Some (take k (file_of (lr_blocks imp))))"
    "ok \<longrightarrow> new = Some (file_of (lr_blocks imp))"
    using rewrite_file_result [OF w(1)] by blast+
  have "new \<noteq> read_text fs path"
  proof
    assume same: "new = read_text fs path"
    have "fs' = fs"
      using same by (auto simp: w(2) put_text_def read_text_def fun_eq_iff split: option.splits)
    with changed show False by simp
  qed
  with new obtain k where k: "new = Some (take k (file_of (lr_blocks imp)))" by blast
  have "read_text fs' path = new" unfolding w(2) k by (simp add: put_text_def read_text_def)
  moreover have "\<forall>p. p \<noteq> path \<longrightarrow> fs' p = fs p" unfolding w(2) k by (simp add: put_text_def)
  ultimately show ?thesis using won w(3) new(2) k ld w(4) by blast
qed

text \<open>The import of a chain of two blocks into an empty data directory.\<close>

definition import_argv :: "string list" where
  "import_argv = [''txchain'', ''import'', ''f'', ''--difficulty'', ''0'', ''--datadir'', ''d'']"

definition import_files :: files where
  "import_files path = (if path = ''f'' then Some \<lparr>wf_mode = 420, wf_text = Some (file_of [genesisBlock, empty_block])\<rparr> else None)"

lemma import_args:
  "opt import_argv 3 ''--datadir'' = ''d''" "difficulty_arg import_argv = 0" "import_argv ! 2 = ''f''"
  "chain_path ''d'' = ''d/chain.jsonl''" "reward_of 0 = 0" "\<not> length import_argv < 3"
proof -
  have "opt import_argv 3 ''--difficulty'' = ''0''" by (simp add: import_argv_def opt_def)
  then show "difficulty_arg import_argv = 0" by (simp add: difficulty_arg_def demo_numbers)
qed (simp_all add: import_argv_def opt_def chain_path_def reward_of_def)

lemma first_blocks_small: "list_all block_small [genesisBlock, empty_block]"
  by (simp add: genesis_small sample_blocks_small)

lemma first_blocks_validate: "vr_ok (replayFromGenesis any_sig [genesisBlock, empty_block] 1704067201 0 0)"
proof -
  have "replays any_sig 1704067201 0 0 [empty_block] (applyGenesis [])"
    using chain_reach_replays [OF empty_block_reached order.refl clock_2024(2)] by simp
  then show ?thesis
    by (simp add: replayFromGenesis_genesis replays_def balance_sum_of_supply GENESIS_SUPPLY_def vr_pass_def)
qed

theorem import_outcome_witness:
  "\<exists>r fs'. run_import any_sig (\<lambda>_. 0) picojson
       (io_fine (length (file_of [genesisBlock, empty_block]))) import_files 1704067201 import_argv = Some (Returns r, fs') \<and> cr_exit r = 0 \<and>
     read_text fs' ''d/chain.jsonl'' = Some (file_of [genesisBlock, empty_block])"
proof -
  let ?bs = "[genesisBlock, empty_block]"
  let ?io = "io_fine (length (file_of ?bs))"
  have ld: "load (\<lambda>_. 0) picojson (read_text import_files ''f'') = Returns \<lparr>lr_status = vr_pass, lr_blocks = ?bs\<rparr>"
    using load_file_of [OF first_blocks_small] by (simp add: read_text_def import_files_def)
  have none: "read_text import_files ''d/chain.jsonl'' = None" by (simp add: read_text_def import_files_def)
  have act: "load (\<lambda>_. 0) picojson None = Returns \<lparr>lr_status = vr_fail 0 BAD_LINK ''cannot open chain.jsonl'', lr_blocks = []\<rparr>"
    by (simp add: load_def)
  have work: "cumulativeWork [] 0 < cumulativeWork ?bs 0"
    by (simp add: cumulativeWork_def blockWork_def block_work_def)
  obtain c cs where l: "file_of ?bs = c # cs" using file_of_nonempty [of ?bs] by (cases "file_of ?bs") auto
  have wr: "rewrite_file ?io None ?bs = Some (True, Some (file_of ?bs))"
    unfolding rewrite_file_def Let_def rewrite_text write_file_def io_fine_def
    by (simp add: l del: drop_Suc_Cons take_Suc_Cons)
  let ?fs' = "put_text import_files ''d/chain.jsonl'' (Some (file_of ?bs))"
  obtain r where run: "run_import any_sig (\<lambda>_. 0) picojson ?io import_files 1704067201 import_argv = Some (Returns r, ?fs')"
    and r: "cr_exit r = 0"
    unfolding run_import_def Let_def
    by (simp add: import_args ld act none vr_pass_def evaluateImport_def first_blocks_validate work candidateWins_def wr
        Let_def prints_def)
  have "?fs' ''d/chain.jsonl'' \<noteq> import_files ''d/chain.jsonl''"
    by (simp add: put_text_def import_files_def)
  then have "?fs' \<noteq> import_files" by metis
  with import_outcome [OF run, of "''d/chain.jsonl''"] r run show ?thesis
    by (auto simp: import_args ld)
qed

section \<open>The offline \<^verbatim>\<open>send\<close> on a mined chain\<close>

lemma replays_without_reward: "replays vf now_s D R bs s \<Longrightarrow> replays vf now_s 0 0 bs s"
proof (induction bs arbitrary: s rule: rev_induct)
  case Nil
  then show ?case by (simp add: replays_def)
next
  case (snoc b bs)
  then show ?case unfolding replays_snoc_iff block_accepts_def bar_ok_def
    using applyBlockTxns_OK_iff [of vf _ b 0] applyBlockTxns_OK_iff [of vf _ b R]
    by (metis (no_types, lifting) block_apply_result.select_convs(1) meets_difficulty_0 order_less_irrefl)
qed

text \<open>
  C30. The offline \<^verbatim>\<open>send\<close> validates the chain of the data directory without a reward, so it refuses
  every chain with a mined block: for a chain of the node with rewards on, of one block or more
  above genesis, the command exits with one and names a failed replay, although the chain validates
  under its own parameters.
\<close>

theorem offline_send_refuses_mined_chain:
  assumes reach: "chain_reach vf D COINBASE_REWARD t c" and now: "t \<le> now_s" "clock_ok now_s"
    and noself: "\<forall>b \<in> set (ch_blocks c). \<forall>x \<in> set (blk_txns b). \<not> self_transfer x"
    and len: "1 < length (ch_blocks c)" "5000 + 50 * length (ch_blocks c) < 2 ^ 64"
    and stored: "read_text fs (chain_path datadir) = Some (file_of (ch_blocks c))" "list_all block_small (ch_blocks c)"
  shows "send_nonce_offline vf ub picojson fs now_s datadir addr =
      Returns (Inl (complains 1 ''send: datadir chain fails replay'')) \<and>
    validateChain vf c now_s = OK"
proof -
  obtain bs where bs: "ch_blocks c = genesisBlock # bs" "replays vf now_s D COINBASE_REWARD bs (ch_state c)"
    using chain_reach_replays [OF reach now] by blast
  have total: "total_supply (ch_state c) = 5000 + 50 * length bs"
    by (rule replays_mined_total [OF bs(2)]) (use len(2) noself bs(1) in auto)
  have h: "height c = word_of_nat (length bs)" by (simp add: height_def bs(1))
  have "supply_matches c"
    by (simp add: supply_matches_def balance_sum_of_supply total h GENESIS_SUPPLY_def COINBASE_REWARD_def
        chain_reach_params [OF reach])
  then have valid: "validateChain vf c now_s = OK" using validate_reached [OF reach now] by simp
  have "unat (balance_sum (ch_state c)) = 5000 + 50 * length bs"
    using unat_balance_sum [of "ch_state c"] len(2) bs(1) by (simp add: total)
  moreover have "unat GENESIS_SUPPLY = 5000" by (simp add: GENESIS_SUPPLY_def)
  ultimately have "balance_sum (ch_state c) \<noteq> GENESIS_SUPPLY" using len(1) bs(1) by auto
  then have "\<not> vr_ok (replayFromGenesis vf (genesisBlock # bs) now_s 0 0)"
    using replays_without_reward [OF bs(2)] by (simp add: replayFromGenesis_genesis replays_def vr_fail_def)
  moreover have "load ub picojson (Some (file_of (ch_blocks c))) = Returns \<lparr>lr_status = vr_pass, lr_blocks = genesisBlock # bs\<rparr>"
    using load_file_of [OF stored(2)] bs(1) by simp
  ultimately show ?thesis
    using valid by (simp add: send_nonce_offline_def stored(1) Let_def vr_pass_def)
qed

text \<open>A mined block above genesis, stored in a data directory.\<close>

abbreviation mined_chain :: chain where
  "mined_chain \<equiv> appended (new_chain 0 COINBASE_REWARD) (coinbase_block kNullAddr) (credit (applyGenesis []) kNullAddr 50)"

lemma mined_small: "list_all block_small (ch_blocks mined_chain)"
  by (simp add: genesis_small block_small_def coinbase_block_def header_widths_def small_def GENESIS_TIMESTAMP_def
      txn_small_def wf_txn_def txn_widths_def coinbaseTxn_def kNullAddr_def kNullPub_def kNullSig_def COINBASE_REWARD_def)

theorem offline_send_refuses_mined_chain_witness:
  "send_nonce_offline any_sig (\<lambda>_. 0) picojson
     (\<lambda>_. Some \<lparr>wf_mode = 420, wf_text = Some (file_of (ch_blocks mined_chain))\<rparr>) 1704067201 ''d'' sample_addr =
   Returns (Inl (complains 1 ''send: datadir chain fails replay''))"
proof -
  have reach: "chain_reach any_sig 0 COINBASE_REWARD 1704067201 mined_chain"
    by (rule coinbase_block_reached) (simp add: kNullAddr_def)
  have "\<forall>b \<in> set (ch_blocks mined_chain). \<forall>x \<in> set (blk_txns b). \<not> self_transfer x"
    by (simp add: coinbase_block_def self_transfer_def coinbaseTxn_def)
  from offline_send_refuses_mined_chain [OF reach order.refl clock_2024(2) this _ _ _ mined_small,
      of "\<lambda>_. Some \<lparr>wf_mode = 420, wf_text = Some (file_of (ch_blocks mined_chain))\<rparr>" "''d''"]
  show ?thesis by (simp add: read_text_def)
qed

end
