(* ===== verification/Txnode.thy ===== *)
theory Txnode
  imports Wallet Rpc
begin

text \<open>
  The node process (\<^verbatim>\<open>apps/txnode/main.cpp\<close>): start up, the request thread and the main loop with
  its two mining modes.  The two threads share the chain and the pool under one lock, so a run is a
  sequence of the critical sections below; between the two sections of the proof-of-work mode, the
  snapshot and the commit, requests may come in while the nonce is searched without the lock.  What
  the process prints is the list \<open>tn_log\<close> of its lines.
\<close>

record txnode =
  tn_node :: node
  tn_pool :: mempool
  tn_miner :: address
  tn_last_seal_ms :: u64
  tn_grinding :: "candidate option"
  tn_log :: "string list"

section \<open>Printed events\<close>

definition bool_text :: "bool \<Rightarrow> string" where
  "bool_text b = (if b then ''true'' else ''false'')"

definition event :: "string \<Rightarrow> string \<Rightarrow> string" where
  "event name rest = ''{'' @ quoted ''event'' @ '':'' @ quoted name @ rest @ ''}''"

definition str_field :: "string \<Rightarrow> string \<Rightarrow> string" where
  "str_field key v = '','' @ quoted key @ '':'' @ quoted v"

definition raw_field :: "string \<Rightarrow> string \<Rightarrow> string" where
  "raw_field key v = '','' @ quoted key @ '':'' @ v"

definition config_line :: "node_config \<Rightarrow> string" where
  "config_line cfg = event ''config_resolved''
     (str_field ''datadir'' (cfg_datadir cfg) @ raw_field ''mine'' (bool_text (cfg_mine cfg)) @
      raw_field ''seal_cadence_ms'' (to_string (unat (cfg_seal_cadence_ms cfg))) @
      raw_field ''seal_empty'' (bool_text (cfg_seal_empty cfg)) @
      raw_field ''max_txns_per_block'' (to_string (unat (cfg_max_txns_per_block cfg))) @
      raw_field ''difficulty'' (to_string (unat (cfg_difficulty cfg))) @
      raw_field ''no_rpc'' (bool_text (cfg_no_rpc cfg)) @ raw_field ''no_p2p'' (bool_text (cfg_no_p2p cfg)))"

definition boot_failed_line :: "verify_result \<Rightarrow> string" where
  "boot_failed_line v = event ''node_boot_failed''
     (raw_field ''block'' (to_string (unat (vr_failIndex v))) @ str_field ''reason'' (reasonName (vr_reason v)) @
      str_field ''detail'' (vr_detail v))"

definition height_fields :: "chain \<Rightarrow> string" where
  "height_fields c = raw_field ''height'' (to_string (unat (height c))) @ str_field ''tip'' (to_hex (tipHash c))"

definition wallet_lines :: "wallet_result \<Rightarrow> wallet \<Rightarrow> string list" where
  "wallet_lines wr w =
     (if wr_world_readable wr
      then [event ''wallet_perms_warning'' (str_field ''detail'' ''wallet.key is group/other-accessible'')] else []) @
     [event ''wallet_ready'' (str_field ''address'' (to_hex (w_address w)))]"

text \<open>\<open>bound\<close> is the port the server got, \<open>None\<close> if it could not bind.\<close>

definition rpc_lines :: "node_config \<Rightarrow> int option \<Rightarrow> string list" where
  "rpc_lines cfg bound =
     (if cfg_no_rpc cfg then []
      else case bound of
             Some port \<Rightarrow> [event ''rpc_up'' (raw_field ''port'' (if port < 0 then CHR ''-'' # to_string (nat (- port)) else to_string (nat port)))]
           | None \<Rightarrow> [event ''rpc_error'' (str_field ''detail'' ''cannot bind rpc port'')])"

section \<open>Start up\<close>

datatype start = Exits int "string list" | Aborts "string list" | Up txnode

text \<open>
  The files are the block file \<open>f\<close> and the wallet file \<open>wallet_f\<close>; an exception of the key generator or of
  the JSON parser, over the configuration, a line of the block file or the wallet, ends the process.
\<close>

definition txnode_start :: "verifier \<Rightarrow> (double \<Rightarrow> u64) \<Rightarrow> json_parser \<Rightarrow> (byte list \<Rightarrow> byte list) \<Rightarrow>
    (string \<Rightarrow> string option) \<Rightarrow> key_pair option \<Rightarrow> io \<Rightarrow> io \<Rightarrow> bool \<Rightarrow> int option \<Rightarrow> string list \<Rightarrow>
    fcontent \<Rightarrow> wallet_file option \<Rightarrow> u64 \<Rightarrow> u64 \<Rightarrow> start option" where
  "txnode_start vf ub parse derive read_file kp io1 io2 chmod_ok bound argv f wallet_f now_s now_ms =
     (case resolve_config ub parse read_file argv of
        Raises \<Rightarrow> Some (Aborts [])
      | Returns cfg \<Rightarrow>
      let log = [config_line cfg]
      in case boot vf ub parse io1 cfg f now_s of
           None \<Rightarrow> None
         | Some Raises \<Rightarrow> Some (Aborts log)
         | Some (Returns (br, nd)) \<Rightarrow>
             if \<not> br_ok br then Some (Exits 1 (log @ [boot_failed_line (br_status br)]))
             else case load_or_create_wallet derive parse kp io2 chmod_ok (cfg_datadir cfg) wallet_f of
                    None \<Rightarrow> None
                  | Some Raises \<Rightarrow> Some (Aborts log)
                  | Some (Returns (wr, _)) \<Rightarrow>
                      (case wr_wallet wr of
                         None \<Rightarrow> Some (Exits 1 (log @ [event ''wallet_error'' (str_field ''detail'' (wr_error wr))]))
                       | Some w \<Rightarrow>
                           Some (Up \<lparr>tn_node = nd, tn_pool = new_mempool 4096, tn_miner = w_address w,
                             tn_last_seal_ms = now_ms, tn_grinding = None,
                             tn_log = log @ wallet_lines wr w @ [event ''node_up'' (height_fields (nd_chain nd))] @
                               rpc_lines cfg bound\<rparr>)))"

section \<open>Requests\<close>

definition tn_chain :: "txnode \<Rightarrow> chain" where "tn_chain s = nd_chain (tn_node s)"
definition tn_cfg :: "txnode \<Rightarrow> node_config" where "tn_cfg s = nd_cfg (tn_node s)"

definition tip_info_of :: "chain \<Rightarrow> tip_info" where
  "tip_info_of c =
     (let blk = ch_blocks c ! unat (height c)
      in \<lparr>ti_index = height c, ti_blockHash = block_hash (blk_header blk), ti_prevHash = bh_prevHash (blk_header blk),
          ti_cumWork = ch_cumWork c, ti_difficulty = ch_difficulty c, ti_timestamp = bh_timestamp (blk_header blk)\<rparr>)"

definition rpc_context_of :: "txnode \<Rightarrow> rpc_context" where
  "rpc_context_of s = \<lparr>rc_account = account (tn_chain s), rc_tip = tip_info_of (tn_chain s)\<rparr>"

definition rpc_call :: "verifier \<Rightarrow> string \<Rightarrow> string \<Rightarrow> string \<Rightarrow> txnode \<Rightarrow> rpc_response \<times> txnode" where
  "rpc_call vf meth target body s =
     (let (resp, m) = handle_request vf (account (tn_chain s)) (rpc_context_of s) meth target body (tn_pool s)
      in (resp, s\<lparr>tn_pool := m\<rparr>))"

section \<open>The proof-of-work mode\<close>

definition pow_mode :: "node_config \<Rightarrow> bool" where
  "pow_mode cfg \<longleftrightarrow> cfg_mine cfg \<and> cfg_difficulty cfg > 0"

definition pow_snapshot :: "u64 \<Rightarrow> txnode \<Rightarrow> txnode" where
  "pow_snapshot now_s s =
     (let c = tn_chain s; tip_blk = ch_blocks c ! unat (height c)
      in s\<lparr>tn_grinding := Some (buildCandidate (tn_miner s) (height c) (tipHash c) (bh_timestamp (blk_header tip_blk))
             now_s (tn_pool s) (account c))\<rparr>)"

text \<open>The commit of what the search returned, if the tip is still the one it was built on.\<close>

definition pow_commit :: "verifier \<Rightarrow> io \<Rightarrow> u64 \<Rightarrow> block option \<Rightarrow> txnode \<Rightarrow> txnode option" where
  "pow_commit vf io now_s mined s =
     (let s = s\<lparr>tn_grinding := None\<rparr>
      in case mined of
           None \<Rightarrow> Some s
         | Some b \<Rightarrow>
             if height (tn_chain s) + 1 = bh_index (blk_header b) \<and> tipHash (tn_chain s) = bh_prevHash (blk_header b)
             then case commitBlock vf io (tn_node s) b now_s of
                    None \<Rightarrow> None
                  | Some (r, nd) \<Rightarrow>
                      let s = s\<lparr>tn_node := nd\<rparr>
                      in if r \<noteq> OK then Some s
                         else Some (s\<lparr>tn_pool := (if length (blk_txns b) > 1 then evictIncluded (tn_pool s) (drop 1 (blk_txns b))
                                                  else tn_pool s),
                                      tn_log := tn_log s @ [event ''block_mined'' (height_fields (nd_chain nd) @
                                        raw_field ''txns'' (to_string (length (blk_txns b))))]\<rparr>)
             else Some s)"

section \<open>The cadence mode\<close>

text \<open>The loop that drains the pool in admission order, up to a block's worth.\<close>

fun drain :: "mempool_entry list \<Rightarrow> txn list \<Rightarrow> txn list" where
  "drain [] batch = batch"
| "drain (e # es) batch =
     (let batch = batch @ [me_txn e] in if length batch \<ge> MAX_TXNS_PER_BLOCK then batch else drain es batch)"

text \<open>One pass of the loop: \<open>now_ms\<close> is read for the decision, \<open>end_ms\<close> after the sealing.\<close>

definition cadence_tick :: "verifier \<Rightarrow> io \<Rightarrow> u64 \<Rightarrow> u64 \<Rightarrow> u64 \<Rightarrow> txnode \<Rightarrow> txnode option" where
  "cadence_tick vf io now_s now_ms end_ms s =
     (if should_seal_now (tn_cfg s) (now_ms - tn_last_seal_ms s) 0 then
        let batch = drain (sortedBySeq (tn_pool s)) []
        in case seal_next_block vf io (tn_node s) now_s batch of
             None \<Rightarrow> None
           | Some (r, nd) \<Rightarrow>
               Some (s\<lparr>tn_node := nd,
                       tn_pool := (if r = OK \<and> batch \<noteq> [] then evictIncluded (tn_pool s) batch else tn_pool s),
                       tn_last_seal_ms := end_ms,
                       tn_log := tn_log s @ (if r = OK then [event ''block_sealed'' (height_fields (nd_chain nd) @
                         raw_field ''txns'' (to_string (length batch)))] else [])\<rparr>)
      else Some s)"

definition node_down_line :: "txnode \<Rightarrow> string" where
  "node_down_line s = event ''node_down'' (raw_field ''height'' (to_string (unat (height (tn_chain s)))))"

end
