(* ===== verification/Texts.thy ===== *)
theory Texts
  imports Commands Txnode
begin

text \<open>
  The JSON texts the program writes, against the parser it reads them with: the line of a block, the
  wallet file and the bodies of the request surface, each read by the reader the program uses for it.
  Integers from \<open>2 ^ 63\<close> on are left out; what becomes of them is C17.
\<close>

section \<open>The trees of the bodies\<close>

definition tip_json :: "tip_info \<Rightarrow> json" where
  "tip_json t = JObj [(''index'', JInt (ti_index t)), (''blockHash'', JStr (to_hex (ti_blockHash t))),
     (''prevHash'', JStr (to_hex (ti_prevHash t))), (''cumWork'', JStr (to_string (unat (ti_cumWork t)))),
     (''difficulty'', JInt (ucast (ti_difficulty t))), (''timestamp'', JInt (ti_timestamp t))]"

definition error_json :: "string \<Rightarrow> string \<Rightarrow> json" where
  "error_json tok detail = JObj [(''error'', JStr tok), (''detail'', JStr detail)]"

lemma unat_ucast_u32 [simp]: "unat (ucast (d :: u32) :: u64) = unat d"
proof -
  have "unat d < 2 ^ 64" using unsigned_less [of d, where ?'a = nat] by simp
  then show ?thesis by (simp add: unsigned_ucast_eq take_bit_nat_eq_self)
qed

lemma small_u32 [simp]: "small (ucast (d :: u32))"
  using unsigned_less [of d, where ?'a = nat] by (simp add: small_def)

lemma plain_digits [simp]: "list_all plain_char (to_string n)"
proof -
  have "plain_char c" if "is_digit c" for c using that by (auto simp: plain_char_def is_digit_def)
  then show ?thesis unfolding list_all_iff using to_string_digits by blast
qed

lemma tip_text: "rr_body (tip_resp ctx) = render (tip_json (rc_tip ctx))"
  by (simp add: tip_resp_def tip_json_def u128_to_string_eq Let_def)

lemma error_text: "json_error tok detail = render (error_json tok detail)"
  by (simp add: json_error_def error_json_def)

lemma account_text:
  "length a = 20 \<Longrightarrow> rr_body (account_resp (to_hex a) ctx m) =
     render (account_json a (rc_account ctx a) (next_nonce (rc_account ctx) m a))"
  by (simp add: account_resp_def account_json_def next_nonce_def Let_def)

section \<open>The parser reads them\<close>

lemma picojson_account:
  "small (acc_balance acc) \<Longrightarrow> small (acc_nonce acc) \<Longrightarrow> small n \<Longrightarrow> reads_back picojson (account_json a acc n)"
  by (rule picojson_plain) (simp add: account_json_def DEFAULT_MAX_DEPTHS_def plain_char_def)

lemma picojson_txid: "reads_back picojson (txid_json i)"
  by (rule picojson_plain) (simp add: txid_json_def DEFAULT_MAX_DEPTHS_def plain_char_def)

lemma picojson_tip: "small (ti_index t) \<Longrightarrow> small (ti_timestamp t) \<Longrightarrow> reads_back picojson (tip_json t)"
  by (rule picojson_plain) (simp add: tip_json_def DEFAULT_MAX_DEPTHS_def plain_char_def)

lemma picojson_error:
  "list_all plain_char tok \<Longrightarrow> list_all plain_char detail \<Longrightarrow> reads_back picojson (error_json tok detail)"
  by (rule picojson_plain) (simp add: error_json_def DEFAULT_MAX_DEPTHS_def plain_char_def)

lemma get_string_read:
  "reads_back parse (JObj ms) \<Longrightarrow> map_of ms key = Some (JStr s) \<Longrightarrow>
   json_get_string parse (render (JObj ms)) key = Returns (Some s)"
  by (simp add: json_get_string_def reads_back_def)

lemma get_u64_read:
  "reads_back parse (JObj ms) \<Longrightarrow> map_of ms key = Some (JInt n) \<Longrightarrow> small n \<Longrightarrow>
   json_get_u64 ub parse (render (JObj ms)) key = Returns (Some n)"
  using small_sint [of n] by (simp add: json_get_u64_def reads_back_def not_less)

lemma error_token:
  "list_all plain_char tok \<Longrightarrow> list_all plain_char detail \<Longrightarrow>
   json_get_string picojson (json_error tok detail) ''error'' = Returns (Some tok)"
  using get_string_read [of picojson "[(''error'', JStr tok), (''detail'', JStr detail)]" "''error''" tok]
    picojson_error [of tok detail] unfolding error_text error_json_def by simp

lemma plain_token: "list_all plain_char (admit_result_name ar)"
  by (cases ar) (simp_all add: plain_char_def)

text \<open>
  C16. What the program writes it reads back.  The line of a block, whatever follows it, is
  decoded to this block; the text of a wallet to its members; and from the bodies of the
  request surface the extractors of the client get exactly the account's balance and nonces, the
  fields of the tip, the id of an accepted transaction, and the error token of a refused one; for
  integers below \<open>2 ^ 63\<close>.
\<close>

theorem written_texts_read_back:
  assumes block: "block_small b"
    and acc: "length a = 20" "rc_account ctx a = acc" "small (acc_balance acc)" "small (acc_nonce acc)" "small (acc_nonce acc + 1)"
    and tip: "small (ti_index (rc_tip ctx))" "small (ti_timestamp (rc_tip ctx))"
  shows "from_json_line ub picojson (to_json_line b @ junk) = Returns (Some b) \<and>
    picojson (wallet_text w) = Returns (Some (wallet_json w)) \<and>
    (let body = rr_body (account_resp (to_hex a) ctx m)
     in json_get_string picojson body ''address'' = Returns (Some (to_hex a)) \<and>
        json_get_u64 ub picojson body ''balance'' = Returns (Some (acc_balance acc)) \<and>
        json_get_u64 ub picojson body ''confirmedNonce'' = Returns (Some (acc_nonce acc)) \<and>
        json_get_u64 ub picojson body ''pendingNonce'' = Returns (Some (next_nonce (rc_account ctx) m a))) \<and>
    (let body = rr_body (tip_resp ctx); t = rc_tip ctx
     in json_get_u64 ub picojson body ''index'' = Returns (Some (ti_index t)) \<and>
        json_get_string picojson body ''blockHash'' = Returns (Some (to_hex (ti_blockHash t))) \<and>
        json_get_string picojson body ''prevHash'' = Returns (Some (to_hex (ti_prevHash t))) \<and>
        json_get_string picojson body ''cumWork'' = Returns (Some (to_string (unat (ti_cumWork t)))) \<and>
        json_get_u64 ub picojson body ''difficulty'' = Returns (Some (ucast (ti_difficulty t))) \<and>
        json_get_u64 ub picojson body ''timestamp'' = Returns (Some (ti_timestamp t))) \<and>
    (let reply = rr_body (fst (submit_tx vf lookup request m))
     in case from_hex kTxnSize (trim request) of
          None \<Rightarrow> json_get_string picojson reply ''error'' = Returns (Some ''PARSE_ERROR'')
        | Some bytes \<Rightarrow>
            (case fst (admit_bytes vf lookup m bytes) of
               A_OK \<Rightarrow> json_get_string picojson reply ''txid'' = Returns (Some (to_hex (sha256 bytes)))
             | A_UNPARSEABLE \<Rightarrow> json_get_string picojson reply ''error'' = Returns (Some ''PARSE_ERROR'')
             | ar \<Rightarrow> json_get_string picojson reply ''error'' = Returns (Some (admit_result_name ar))))"
proof (intro conjI)
  show "from_json_line ub picojson (to_json_line b @ junk) = Returns (Some b)"
    by (rule block_read_back_prefix [OF block])
  show "picojson (wallet_text w) = Returns (Some (wallet_json w))" by (rule picojson_wallet)
  let ?n = "next_nonce (rc_account ctx) m a"
  have n: "small ?n" using acc by (simp add: next_nonce_def)
  have ra: "reads_back picojson (account_json a acc ?n)" by (rule picojson_account [OF acc(3,4) n])
  show "let body = rr_body (account_resp (to_hex a) ctx m)
     in json_get_string picojson body ''address'' = Returns (Some (to_hex a)) \<and>
        json_get_u64 ub picojson body ''balance'' = Returns (Some (acc_balance acc)) \<and>
        json_get_u64 ub picojson body ''confirmedNonce'' = Returns (Some (acc_nonce acc)) \<and>
        json_get_u64 ub picojson body ''pendingNonce'' = Returns (Some ?n)"
    unfolding Let_def account_text [OF acc(1)] acc(2) account_json_def
    using acc(3,4) n ra [unfolded account_json_def]
    by (intro conjI get_string_read get_u64_read) simp_all
  have rt: "reads_back picojson (tip_json (rc_tip ctx))" by (rule picojson_tip [OF tip])
  show "let body = rr_body (tip_resp ctx); t = rc_tip ctx
     in json_get_u64 ub picojson body ''index'' = Returns (Some (ti_index t)) \<and>
        json_get_string picojson body ''blockHash'' = Returns (Some (to_hex (ti_blockHash t))) \<and>
        json_get_string picojson body ''prevHash'' = Returns (Some (to_hex (ti_prevHash t))) \<and>
        json_get_string picojson body ''cumWork'' = Returns (Some (to_string (unat (ti_cumWork t)))) \<and>
        json_get_u64 ub picojson body ''difficulty'' = Returns (Some (ucast (ti_difficulty t))) \<and>
        json_get_u64 ub picojson body ''timestamp'' = Returns (Some (ti_timestamp t))"
    unfolding Let_def tip_text tip_json_def
    using tip rt [unfolded tip_json_def] by (intro conjI get_string_read get_u64_read) simp_all
  have plain: "list_all plain_char ''PARSE_ERROR''" "list_all plain_char ''body must be a 153-byte hex-encoded txn''"
    "list_all plain_char ''rejected by admit()''" by (simp_all add: plain_char_def)
  have txid: "json_get_string picojson (''{'' @ quoted ''txid'' @ '':'' @ quoted (to_hex i) @ ''}'') ''txid'' = Returns (Some (to_hex i))" for i
    using get_string_read [of picojson "[(''txid'', JStr (to_hex i))]" "''txid''"] picojson_txid [of i]
    by (simp add: txid_json_def)
  show "let reply = rr_body (fst (submit_tx vf lookup request m))
     in case from_hex kTxnSize (trim request) of
          None \<Rightarrow> json_get_string picojson reply ''error'' = Returns (Some ''PARSE_ERROR'')
        | Some bytes \<Rightarrow>
            (case fst (admit_bytes vf lookup m bytes) of
               A_OK \<Rightarrow> json_get_string picojson reply ''txid'' = Returns (Some (to_hex (sha256 bytes)))
             | A_UNPARSEABLE \<Rightarrow> json_get_string picojson reply ''error'' = Returns (Some ''PARSE_ERROR'')
             | ar \<Rightarrow> json_get_string picojson reply ''error'' = Returns (Some (admit_result_name ar)))"
    using error_token [OF plain(1,2)] error_token [OF plain(1,3)] error_token [OF plain_token plain(3)] txid
    by (auto simp del: append.simps admit_result_name.simps simp: submit_tx_def Let_def split: option.split prod.split admit_result.split)
qed

theorem written_texts_read_back_witness:
  "let ctx = \<lparr>rc_account = \<lambda>_. \<lparr>acc_balance = 50, acc_nonce = 3\<rparr>, rc_tip = tip_info_of (new_chain 1 COINBASE_REWARD)\<rparr>
   in from_json_line (\<lambda>_. 0) picojson (to_json_line genesisBlock @ ''x'') = Returns (Some genesisBlock) \<and>
     json_get_u64 (\<lambda>_. 0) picojson (rr_body (account_resp (to_hex sample_addr) ctx (new_mempool 4))) ''pendingNonce'' = Returns (Some 3) \<and>
     json_get_u64 (\<lambda>_. 0) picojson (rr_body (tip_resp ctx)) ''timestamp'' = Returns (Some GENESIS_TIMESTAMP) \<and>
     json_get_string picojson (rr_body (fst (submit_tx any_sig (rc_account ctx) ''zz'' (new_mempool 4)))) ''error'' = Returns (Some ''PARSE_ERROR'')"
proof -
  let ?ctx = "\<lparr>rc_account = \<lambda>_. \<lparr>acc_balance = 50, acc_nonce = 3\<rparr>, rc_tip = tip_info_of (new_chain 1 COINBASE_REWARD)\<rparr>"
  have t: "rc_tip ?ctx = tip_info_of (new_chain 1 COINBASE_REWARD)" "ti_index (tip_info_of (new_chain 1 COINBASE_REWARD)) = 0"
    "ti_timestamp (tip_info_of (new_chain 1 COINBASE_REWARD)) = GENESIS_TIMESTAMP"
    by (simp_all add: tip_info_of_def height_def Let_def)
  have h: "from_hex kTxnSize (trim ''zz'') = None" by (simp add: trim_def trim_char_def from_hex_def kTxnSize_def)
  have "next_nonce (rc_account ?ctx) (new_mempool 4) sample_addr = 3"
    by (simp add: next_nonce_def hasPending_def new_mempool_def)
  then show ?thesis
    using written_texts_read_back [where b = genesisBlock and a = sample_addr and ctx = ?ctx and acc = "\<lparr>acc_balance = 50, acc_nonce = 3\<rparr>"
        and ub = "\<lambda>_. 0" and junk = "''x''" and m = "new_mempool 4" and vf = any_sig and lookup = "rc_account ?ctx" and request = "''zz''"]
      genesis_small
    unfolding Let_def h t by (simp add: small_def GENESIS_TIMESTAMP_def)
qed

end
