(* ===== verification/Executable.thy ===== *)
theory Executable
  imports Candidate Supply
begin

text \<open>
  The pool against the committed accounts: what an admission adds to the pending list and an
  eviction takes from it, and the transactions of the pool that stay acceptable when a block with
  others of them is committed.
\<close>

section \<open>The pending list\<close>

lemma pending_distinct: "mempool_inv vf m \<Longrightarrow> distinct (map tx_from (pending_txns m))"
  by (rule pool.one_per_sender)

lemma sorted_of_filter:
  "sorted_wrt R (map f xs) \<Longrightarrow> sorted_wrt R (map f (filter P xs))"
  by (induction xs) auto

text \<open>Evicting a pending transaction removes it and nothing else.\<close>

lemma pending_found:
  assumes inv: "mempool_inv vf m" and t: "t \<in> set (pending_txns m)"
  obtains e where "map_of (mp_byTxid m) (txid t) = Some e" "me_txn e = t"
proof -
  obtain e where e: "e \<in> set (sortedBySeq m)" "t = me_txn e" using t by (auto simp: pending_txns_def)
  then obtain i where i: "map_of (mp_byTxid m) i = Some e"
    using sortedBySeq_view [OF inv] by (auto simp: ran_def)
  with mempool_inv_entry [OF inv i] e that show thesis by (simp add: entry_ok_def)
qed

lemma evict_one_pending:
  assumes inv: "mempool_inv vf m" and t: "t \<in> set (pending_txns m)"
  shows "mempool_inv vf (evict_one t m)" "pending_txns (evict_one t m) = filter (\<lambda>u. u \<noteq> t) (pending_txns m)"
proof -
  obtain e where e: "map_of (mp_byTxid m) (txid t) = Some e" "me_txn e = t" by (rule pending_found [OF inv t])
  have ids: "ids_agree m t" using e by (simp add: ids_agree_def)
  show inv': "mempool_inv vf (evict_one t m)" by (rule mempool_inv_evict_one [OF inv ids])
  have ev: "evict_one t m = evicted m t e" by (simp add: evict_one_eq [OF inv ids] e)
  have other: "me_txn f \<noteq> t" if "map_of (mp_byTxid m) i = Some f" "i \<noteq> txid t" for i f
    using mempool_inv_entry [OF inv that(1)] that(2) by (auto simp: entry_ok_def)
  have "ran (map_of (mp_byTxid (evicted m t e))) = {f \<in> ran (map_of (mp_byTxid m)). me_txn f \<noteq> t}"
  proof (intro set_eqI iffI)
    fix f assume "f \<in> ran (map_of (mp_byTxid (evicted m t e)))"
    then obtain i where "i \<noteq> txid t" "map_of (mp_byTxid m) i = Some f"
      by (auto simp: evicted_def ran_def delete_conv' split: if_splits)
    with other show "f \<in> {f \<in> ran (map_of (mp_byTxid m)). me_txn f \<noteq> t}" by (auto simp: ran_def)
  next
    fix f assume "f \<in> {f \<in> ran (map_of (mp_byTxid m)). me_txn f \<noteq> t}"
    then obtain i where i: "map_of (mp_byTxid m) i = Some f" "me_txn f \<noteq> t" by (auto simp: ran_def)
    then have "i \<noteq> txid t" using e by auto
    with i(1) show "f \<in> ran (map_of (mp_byTxid (evicted m t e)))"
      by (auto simp: evicted_def ran_def delete_conv' split: if_splits)
  qed
  then have "set (sortedBySeq (evict_one t m)) = set (filter (\<lambda>f. me_txn f \<noteq> t) (sortedBySeq m))"
    using sortedBySeq_view [OF inv] sortedBySeq_view [OF inv'] ev by auto
  then have "sortedBySeq (evict_one t m) = filter (\<lambda>f. me_txn f \<noteq> t) (sortedBySeq m)"
    using sortedBySeq_view [OF inv] sortedBySeq_view [OF inv'] by (blast intro: seq_sorted_unique sorted_of_filter)
  then show "pending_txns (evict_one t m) = filter (\<lambda>u. u \<noteq> t) (pending_txns m)"
    by (simp add: pending_txns_def filter_map comp_def)
qed

lemma evict_pending:
  "mempool_inv vf m \<Longrightarrow> distinct ts \<Longrightarrow> set ts \<subseteq> set (pending_txns m) \<Longrightarrow>
   mempool_inv vf (evictIncluded m ts) \<and>
   pending_txns (evictIncluded m ts) = filter (\<lambda>t. t \<notin> set ts) (pending_txns m)"
proof (induction ts arbitrary: m)
  case Nil
  then show ?case by (simp add: evictIncluded_def)
next
  case (Cons t ts)
  have t: "t \<in> set (pending_txns m)" using Cons.prems(3) by simp
  note one = evict_one_pending [OF Cons.prems(1) t]
  have "set ts \<subseteq> set (pending_txns (evict_one t m))" using Cons.prems(2,3) one(2) by auto
  from Cons.IH [OF one(1) _ this] Cons.prems(2) one(2) show ?case
    by (auto simp: evictIncluded_def intro: filter_cong)
qed

lemma admit_pending:
  assumes inv: "mempool_inv vf m" and seq: "unat (mp_next_seq m) + 1 < 2 ^ 64"
    and adm: "admit vf lookup m t = (A_OK, m')"
  shows "pending_txns m' = pending_txns m @ [t]"
proof -
  have m': "m' = admitted m t" and dec: "admit_decision vf lookup m t = A_OK"
    using adm by (auto simp: admit_eq split: if_splits)
  have inv': "mempool_inv vf m'" using mempool_inv_admit [OF inv seq, of lookup t] adm by simp
  let ?e = "\<lparr>me_txn = t, me_txid = txid t, me_seq = mp_next_seq m\<rparr>"
  have new: "map_of (mp_byTxid m) (txid t) = None"
    using dec by (auto simp: admit_decision_def mp_contains_def split: if_splits)
  have "ran (map_of (mp_byTxid m')) = insert ?e (ran (map_of (mp_byTxid m)))"
    using new by (simp add: m' admitted_def update_conv' ran_map_upd)
  then have "set (sortedBySeq m') = set (sortedBySeq m @ [?e])"
    using sortedBySeq_view [OF inv] sortedBySeq_view [OF inv'] by auto
  moreover have "sorted_wrt (<) (map me_seq (sortedBySeq m @ [?e]))"
  proof -
    have "me_seq f < mp_next_seq m" if "f \<in> set (sortedBySeq m)" for f
      using pending_entry [OF inv that] by (auto simp: entry_ok_def)
    with sortedBySeq_view [OF inv] show ?thesis by (auto simp: sorted_wrt_append)
  qed
  ultimately have "sortedBySeq m' = sortedBySeq m @ [?e]"
    using sortedBySeq_view [OF inv'] by (blast intro: seq_sorted_unique)
  then show ?thesis by (simp add: pending_txns_def)
qed

section \<open>Acceptability and other accounts' transactions\<close>

text \<open>What a committed transaction or block leaves of an account that sends nothing in it.\<close>

definition no_worse :: "ledger \<Rightarrow> ledger \<Rightarrow> address \<Rightarrow> bool" where
  "no_worse w w' a \<longleftrightarrow> acc_nonce (acct w' a) = acc_nonce (acct w a) \<and> acc_balance (acct w a) \<le> acc_balance (acct w' a)"

lemma no_worse_refl [simp]: "no_worse w w a" by (simp add: no_worse_def)

lemma no_worse_trans: "no_worse w1 w2 a \<Longrightarrow> no_worse w2 w3 a \<Longrightarrow> no_worse w1 w3 a"
  by (auto simp: no_worse_def)

lemma transfer_ok_no_worse: "transfer_ok vf w t \<Longrightarrow> no_worse w w' (tx_from t) \<Longrightarrow> transfer_ok vf w' t"
  by (auto simp: transfer_ok_def no_worse_def)

lemma plus_le: "unat (b :: u64) + unat x < 2 ^ 64 \<Longrightarrow> b \<le> b + x"
  by (simp add: word_le_nat_alt unat_add_lem [THEN iffD1])

lemma applyTxn_no_worse:
  assumes step: "applyTxn vf w t idx ti = (OK, w')" and wf: "wf_ledger w"
    and small: "total_supply w + minted t < 2 ^ 64" and a: "a \<noteq> tx_from t"
  shows "no_worse w w' a"
proof (cases "tx_from t = kNullAddr")
  case True
  then have w': "w' = credit w (tx_to t) COINBASE_REWARD"
    using step by (auto simp: applyTxn_coinbase_OK_iff coinbase_ok_def)
  have "unat (acc_balance (acct w a)) + unat COINBASE_REWARD < 2 ^ 64"
    using accts.balance_le_total [OF wf, of a] small True by (simp add: minted_def COINBASE_REWARD_def)
  from plus_le [OF this] show ?thesis by (auto simp: no_worse_def w' credit_def ledger_simps)
next
  case False
  then have w': "w' = moved w t" and ok: "tx_amount t \<le> acc_balance (acct w (tx_from t))"
    using step by (auto simp: applyTxn_transfer_OK_iff transfer_ok_def)
  have "unat (acc_balance (acct w a)) + unat (acc_balance (acct w (tx_from t))) \<le> total_supply w"
    by (rule accts.two_balances_le_total [OF wf a])
  moreover have "unat (tx_amount t) \<le> unat (acc_balance (acct w (tx_from t)))" using ok by (simp add: word_le_nat_alt)
  ultimately have "unat (acc_balance (acct w a)) + unat (tx_amount t) < 2 ^ 64" using small by linarith
  from plus_le [OF this] a show ?thesis by (auto simp: no_worse_def w' moved_def ledger_simps)
qed

lemma block_loop_no_worse:
  "block_loop vf idx w cb ti ts = Inr (n, w') \<Longrightarrow> wf_ledger w \<Longrightarrow>
   total_supply w + sum_list (map minted ts) < 2 ^ 64 \<Longrightarrow> a \<notin> tx_from ` set ts \<Longrightarrow> no_worse w w' a"
proof (induction ts arbitrary: w cb ti)
  case Nil
  then show ?case by simp
next
  case (Cons t ts)
  obtain w1 where step: "applyTxn vf w t idx ti = (OK, w1)"
    "block_loop vf idx w1 (if is_coinbase t then Suc cb else cb) (Suc ti) ts = Inr (n, w')"
    using block_loop_Cons [OF Cons.prems(1)] by metis
  have small: "total_supply w + minted t < 2 ^ 64" using Cons.prems(3) by simp
  have "no_worse w w1 a" using applyTxn_no_worse [OF step(1) Cons.prems(2) small] Cons.prems(4) by simp
  moreover have "no_worse w1 w' a"
    using Cons.IH [OF step(2) applyTxn_wf [OF step(1) Cons.prems(2)]]
      applyTxn_total [OF step(1) Cons.prems(2) small] Cons.prems(3,4) by simp
  ultimately show ?case by (rule no_worse_trans)
qed

text \<open>Acceptable transfers of distinct senders are accepted one after the other.\<close>

lemma block_loop_accepts:
  "list_all (\<lambda>t. transfer_ok vf w t \<and> tx_from t \<noteq> kNullAddr) ts \<Longrightarrow> distinct (map tx_from ts) \<Longrightarrow>
   wf_ledger w \<Longrightarrow> total_supply w + sum_list (map minted ts) < 2 ^ 64 \<Longrightarrow>
   \<exists>w'. block_loop vf idx w cb ti ts = Inr (cb, w')"
proof (induction ts arbitrary: w ti)
  case Nil
  then show ?case by simp
next
  case (Cons t ts)
  have null: "tx_from t \<noteq> kNullAddr" using Cons.prems(1) by simp
  have step: "applyTxn vf w t idx ti = (OK, moved w t)"
    using Cons.prems(1) by (simp add: applyTxn_transfer_OK_iff [OF null])
  have small: "total_supply w + minted t < 2 ^ 64" using Cons.prems(4) by simp
  have "transfer_ok vf (moved w t) u" if "u \<in> set ts" for u
  proof (rule transfer_ok_no_worse)
    show "transfer_ok vf w u" using Cons.prems(1) that by (simp add: list_all_iff)
    have "tx_from u \<noteq> tx_from t" using Cons.prems(2) that by (simp add: image_iff) metis
    then show "no_worse w (moved w t) (tx_from u)" by (rule applyTxn_no_worse [OF step Cons.prems(3) small])
  qed
  then have "list_all (\<lambda>u. transfer_ok vf (moved w t) u \<and> tx_from u \<noteq> kNullAddr) ts"
    using Cons.prems(1) by (simp add: list_all_iff)
  from Cons.IH [OF this _ wf_moved [OF Cons.prems(3)]] Cons.prems(2,4)
    applyTxn_total [OF step Cons.prems(3) small]
  show ?case using null step by auto
qed

definition executable :: "verifier \<Rightarrow> ledger \<Rightarrow> mempool \<Rightarrow> bool" where
  "executable vf w m \<longleftrightarrow> list_all (transfer_ok vf w) (pending_txns m)"

lemma executable_admit:
  assumes inv: "mempool_inv vf m" and seq: "unat (mp_next_seq m) + 1 < 2 ^ 64" and ex: "executable vf w m"
  shows "executable vf w (snd (admit vf (acct w) m t))"
proof (cases "admit_decision vf (acct w) m t = A_OK")
  case True
  then have adm: "admit vf (acct w) m t = (A_OK, admitted m t)" by (simp add: admit_eq)
  have "transfer_ok vf w t"
    using True by (auto simp: admit_decision_def transfer_ok_def address_matches_def not_less split: if_splits)
  with ex show ?thesis by (simp add: executable_def adm admit_pending [OF inv seq adm])
qed (use ex in \<open>simp add: admit_eq\<close>)

text \<open>After a block with some of the pending transactions, the others stay acceptable.\<close>

lemma executable_evict:
  assumes inv: "mempool_inv vf m" and ex: "executable vf w m" and wf: "wf_ledger w"
    and ts: "distinct ts" "set ts \<subseteq> set (pending_txns m)"
    and blk: "block_loop vf idx w 0 0 (cb @ ts) = Inr (n, w')" "\<forall>t \<in> set cb. tx_from t = kNullAddr"
    and small: "total_supply w + sum_list (map minted (cb @ ts)) < 2 ^ 64"
  shows "executable vf w' (evictIncluded m ts)"
proof -
  have "transfer_ok vf w' t" if "t \<in> set (pending_txns m)" "t \<notin> set ts" for t
  proof -
    have null: "tx_from t \<noteq> kNullAddr"
      using pool.pending_all_authentic [OF inv] that(1) by (auto simp: list_all_iff authentic_def)
    have "tx_from t \<noteq> tx_from u" if "u \<in> set ts" for u
      using pending_distinct [OF inv] \<open>t \<in> set (pending_txns m)\<close> \<open>t \<notin> set ts\<close> that ts(2)
      by (metis distinct_map inj_onD subsetD)
    with null blk(2) have "tx_from t \<notin> tx_from ` set (cb @ ts)" by auto
    from block_loop_no_worse [OF blk(1) wf small this] ex that(1) show ?thesis
      by (auto simp: executable_def list_all_iff intro: transfer_ok_no_worse)
  qed
  then show ?thesis using evict_pending [OF inv ts] by (auto simp: executable_def list_all_iff)
qed

end
