(* ===== verification/Node_Run.thy ===== *)
theory Node_Run
  imports Txnode Executable Pow
begin

text \<open>
  Runs of a node process: a start on any block file, then any interleaving of requests with the
  critical sections of the mining modes, under a clock that does not run back.  The lemmas carry the
  invariants of the chain and of the pool through every step, and with them the acceptability of every
  pending transaction on the current tip.
\<close>

section \<open>What a boot leaves\<close>

lemma loaded_txn: "txn_of_json ub v = Some t \<Longrightarrow> txn_widths t"
  by (auto simp: txn_of_json_def get_hex_key_def txn_widths_def dest: from_hex_length
      split: json.splits option.splits if_splits)

lemma loaded_txns: "txns_of_json ub vs = Some ts \<Longrightarrow> list_all txn_widths ts"
  by (induction vs arbitrary: ts) (auto split: option.splits intro: loaded_txn)

lemma loaded_header: "header_of_json ub obj = Some h \<Longrightarrow> header_widths h"
  by (auto simp: header_of_json_def get_hex_key_def header_widths_def dest: from_hex_length
      split: json.splits option.splits)

lemma loaded_block: "block_of_json ub v = Some b \<Longrightarrow> block_widths b"
  by (auto simp: block_of_json_def block_widths_def dest: loaded_txns loaded_header
      split: json.splits option.splits)

lemma load_loop_widths:
  "load_loop (from_json_line ub parse) i ls acc = Returns lr \<Longrightarrow> list_all block_widths acc \<Longrightarrow> list_all block_widths (lr_blocks lr)"
proof (induction ls arbitrary: i acc)
  case (Cons l ls)
  then show ?case
    by (cases "parse l") (auto simp: from_json_line_def split: if_splits option.splits dest: loaded_block)
qed auto

lemma load_widths: "load ub parse f = Returns lr \<Longrightarrow> list_all block_widths (lr_blocks lr)"
  by (auto simp: load_def split: option.splits dest: load_loop_widths)

lemma reconnect_chain:
  "reconnect vf now_s i bs c = Inr c' \<Longrightarrow> chain_reach vf D R now_s c \<Longrightarrow> clock_ok now_s \<Longrightarrow>
   list_all block_widths bs \<Longrightarrow> chain_reach vf D R now_s c'"
proof (induction bs arbitrary: i c)
  case Nil
  then show ?case by simp
next
  case (Cons b bs)
  have "chain_reach vf D R now_s (snd (connectBlock vf c b now_s))"
    using reach_connect [OF Cons.prems(2) order.refl Cons.prems(3)] Cons.prems(4) by simp
  with Cons show ?case by (auto simp: Let_def split: prod.splits if_splits)
qed

lemma boot_chain:
  assumes "boot vf ub parse io cfg f now_s = Some (Returns (br, nd))" "br_ok br" "clock_ok now_s"
  shows "chain_reach vf (cfg_difficulty cfg) (node_reward cfg) now_s (nd_chain nd) \<and> nd_cfg nd = cfg"
proof -
  note new = reach_new [of vf "cfg_difficulty cfg" "node_reward cfg" now_s]
  have append: "nd_chain n' = nd_chain n \<and> nd_cfg n' = nd_cfg n" if "node_append io n b = Some n'" for n n' b
    using that by (auto simp: node_append_def)
  have rec: "chain_reach vf (cfg_difficulty cfg) (node_reward cfg) now_s c"
    if "load ub parse f = Returns lr" "lr_blocks lr = b0 # bs" "reconnect vf now_s i bs (new_chain (cfg_difficulty cfg) (node_reward cfg)) = Inr c"
    for lr b0 bs i c
    using reconnect_chain [OF that(3) new assms(3)] load_widths [OF that(1)] that(2) by simp
  show ?thesis
    using assms(1,2) new rec unfolding boot_def Let_def
    by (auto simp: new_node_def refuse_def dest!: append split: if_splits option.splits list.splits sum.splits raised.splits)
qed

lemma loaded_address_width:
  assumes "wallet_load d parse path f = Returns wr" "wr_wallet wr = Some w"
  shows "length (w_address w) = 20"
  using assms(1)
proof (cases rule: wallet_load_cases)
  case (2 e v)
  with assms(2) wallet_of_json_recomputes [of d e v] show ?thesis by (simp add: length_address)
qed (use assms(2) in simp)

lemma wallet_address_width:
  assumes "load_or_create_wallet d parse kp io ok dir f = Some (Returns (wr, f'))" "wr_wallet wr = Some w"
  shows "length (w_address w) = 20"
proof (cases "f = None")
  case False
  with assms loaded_address_width show ?thesis by (auto simp: load_or_create_wallet_def Let_def map_raised_Returns)
next
  case True
  with assms show ?thesis
    by (auto simp: load_or_create_wallet_def Let_def wallet_create_def wallet_error_def split: option.splits bool.splits)
qed

lemma start_state:
  assumes "txnode_start vf ub parse d read_file kp io1 io2 ok bound argv f key_file now_s now_ms = Some (Up s)" "clock_ok now_s"
  shows "chain_reach vf (cfg_difficulty (tn_cfg s)) (node_reward (tn_cfg s)) now_s (tn_chain s) \<and>
    tn_pool s = new_mempool 4096 \<and> tn_grinding s = None \<and> length (tn_miner s) = 20"
proof -
  obtain cfg br nd wr f' w where b: "boot vf ub parse io1 cfg f now_s = Some (Returns (br, nd))" "br_ok br"
    and w: "load_or_create_wallet d parse kp io2 ok (cfg_datadir cfg) key_file = Some (Returns (wr, f'))" "wr_wallet wr = Some w"
    and s: "tn_node s = nd" "tn_pool s = new_mempool 4096" "tn_grinding s = None" "tn_miner s = w_address w"
    using assms(1) unfolding txnode_start_def Let_def
    by (auto split: option.splits prod.splits if_splits raised.splits)
  from boot_chain [OF b assms(2)] wallet_address_width [OF w] s show ?thesis by (simp add: tn_chain_def tn_cfg_def)
qed

section \<open>Height and tip\<close>

lemma replays_times:
  "replays vf now_s D R bs s \<Longrightarrow> sorted_wrt (<) (map (\<lambda>b. bh_timestamp (blk_header b)) (genesisBlock # bs))"
proof (induction bs arbitrary: s rule: rev_induct)
  case Nil
  then show ?case by simp
next
  case (snoc b bs)
  let ?ts = "\<lambda>b. bh_timestamp (blk_header b)"
  from snoc.prems obtain s0 where s0: "replays vf now_s D R bs s0" "?ts (last (genesisBlock # bs)) < ?ts b"
    unfolding replays_snoc_iff block_accepts_def by blast
  obtain ys y where L: "genesisBlock # bs = ys @ [y]" by (metis list.distinct(1) rev_exhaust)
  then have "genesisBlock # bs @ [b] = (ys @ [y]) @ [b]" by (metis append_Cons)
  moreover have "sorted_wrt (<) (map ?ts ((ys @ [y]) @ [b]))"
    using snoc.IH [OF s0(1)] s0(2) unfolding L by (auto simp: sorted_wrt_append)
  ultimately show ?case by (simp only:)
qed

lemma tip_block:
  assumes "chain_reach vf D R t c" "t \<le> now_s" "clock_ok now_s"
  shows "ch_blocks c ! unat (height c) = last (ch_blocks c)"
proof -
  obtain bs where bs: "ch_blocks c = genesisBlock # bs" "replays vf now_s D R bs (ch_state c)"
    using chain_reach_replays [OF assms] by blast
  have "distinct (map (\<lambda>b. bh_timestamp (blk_header b)) (genesisBlock # bs))"
    using replays_times [OF bs(2)] by (simp add: strict_sorted_iff del: sorted_wrt.simps)
  then have "card (set (map (\<lambda>b. bh_timestamp (blk_header b)) (genesisBlock # bs))) = length (genesisBlock # bs)"
    using distinct_card by fastforce
  moreover have "card (set (map (\<lambda>b. bh_timestamp (blk_header b)) (genesisBlock # bs))) \<le> card (UNIV :: u64 set)"
    by (rule card_mono) simp_all
  ultimately have "length bs < 2 ^ 64" by (simp add: card_word)
  then have "unat (height c) = length bs" by (simp add: height_def bs(1) unat_of_nat)
  then show ?thesis by (simp add: bs(1) last_conv_nth)
qed

section \<open>Runs\<close>

text \<open>
  \<open>room\<close> says that the supply with what these transactions add stays below the 64-bit range.
\<close>

definition room :: "txnode \<Rightarrow> txn list \<Rightarrow> bool" where
  "room s txns \<longleftrightarrow> total_supply (ch_state (tn_chain s)) + sum_list (map minted txns) < 2 ^ 64"

definition batch_of :: "txnode \<Rightarrow> txn list" where
  "batch_of s = drain (sortedBySeq (tn_pool s)) []"

definition mined_txns :: "block option \<Rightarrow> txn list" where
  "mined_txns mined = (case mined of None \<Rightarrow> [] | Some b \<Rightarrow> blk_txns b)"

inductive node_run :: "verifier \<Rightarrow> u64 \<Rightarrow> txnode \<Rightarrow> bool" for vf :: verifier where
  run_start: "txnode_start vf ub parse d read_file kp io1 io2 ok bound argv f key_file now_s now_ms = Some (Up s) \<Longrightarrow>
    clock_ok now_s \<Longrightarrow> node_run vf now_s s"
| run_request: "node_run vf t s \<Longrightarrow> unat (mp_next_seq (tn_pool s)) + 1 < 2 ^ 64 \<Longrightarrow>
    node_run vf t (snd (rpc_call vf meth target body s))"
| run_snapshot: "node_run vf t s \<Longrightarrow> pow_mode (tn_cfg s) \<Longrightarrow> t \<le> now_s \<Longrightarrow> clock_ok now_s \<Longrightarrow>
    node_run vf now_s (pow_snapshot now_s s)"
| run_commit: "node_run vf t s \<Longrightarrow> tn_grinding s = Some cand \<Longrightarrow>
    mine stop cand (cfg_difficulty (tn_cfg s)) = Some mined \<Longrightarrow> room s (mined_txns mined) \<Longrightarrow>
    t \<le> now_s \<Longrightarrow> clock_ok now_s \<Longrightarrow> pow_commit vf io now_s mined s = Some s' \<Longrightarrow> node_run vf now_s s'"
| run_tick: "node_run vf t s \<Longrightarrow> \<not> pow_mode (tn_cfg s) \<Longrightarrow> tn_grinding s = None \<Longrightarrow> room s (batch_of s) \<Longrightarrow>
    t \<le> now_s \<Longrightarrow> clock_ok now_s \<Longrightarrow> cadence_tick vf io now_s now_ms end_ms s = Some s' \<Longrightarrow> node_run vf now_s s'"

text \<open>The candidate in work was built over the current tip from a part of what is pending now.\<close>

definition candidate_ok :: "verifier \<Rightarrow> u64 \<Rightarrow> txnode \<Rightarrow> candidate \<Rightarrow> bool" where
  "candidate_ok vf t s cand \<longleftrightarrow>
     (\<exists>mp now0. mempool_inv vf mp \<and> set (pending_txns mp) \<subseteq> set (pending_txns (tn_pool s)) \<and> now0 \<le> t \<and>
        cand = buildCandidate (tn_miner s) (height (tn_chain s)) (tipHash (tn_chain s))
          (bh_timestamp (blk_header (last (ch_blocks (tn_chain s))))) now0 mp (account (tn_chain s)))"

definition node_inv :: "verifier \<Rightarrow> u64 \<Rightarrow> txnode \<Rightarrow> bool" where
  "node_inv vf t s \<longleftrightarrow>
     chain_reach vf (cfg_difficulty (tn_cfg s)) (node_reward (tn_cfg s)) t (tn_chain s) \<and> clock_ok t \<and>
     mempool_inv vf (tn_pool s) \<and> list_all wf_txn (pending_txns (tn_pool s)) \<and>
     executable vf (ch_state (tn_chain s)) (tn_pool s) \<and> mp_cap (tn_pool s) = 4096 \<and> length (tn_miner s) = 20 \<and>
     pred_option (candidate_ok vf t s) (tn_grinding s)"

lemma pending_new [simp]: "pending_txns (new_mempool cap) = []"
  by (simp add: pending_txns_def sortedBySeq_def new_mempool_def List.map_filter_simps)

lemma chain_reach_later:
  assumes "chain_reach vf D R t c" "t \<le> now_s" "clock_ok now_s"
  shows "chain_reach vf D R now_s c"
  using assms
proof (induction rule: chain_reach.induct)
  case (reach_new t)
  show ?case by (rule chain_reach.reach_new)
next
  case (reach_connect t0 c t b)
  show ?case
  proof (cases rule: connectBlock_cases [of vf c b t])
    case (committed w)
    then have "connectBlock vf c b now_s = (OK, appended c b w)"
      using connectBlock_mono reach_connect.prems by blast
    with chain_reach.reach_connect [OF reach_connect.hyps(1) _ reach_connect.prems(2) reach_connect.hyps(4)]
      reach_connect.hyps(2) reach_connect.prems(1) committed(2) show ?thesis by (metis order.trans snd_conv)
  next
    case (rejected r)
    have "t0 \<le> now_s" using reach_connect.hyps(2) reach_connect.prems(1) by simp
    with reach_connect.IH [OF this reach_connect.prems(2)] rejected show ?thesis by simp
  qed
qed

lemma node_inv_later: "node_inv vf t s \<Longrightarrow> t \<le> now_s \<Longrightarrow> clock_ok now_s \<Longrightarrow> node_inv vf now_s s"
  using chain_reach_later
  by (cases "tn_grinding s") (auto simp: node_inv_def candidate_ok_def intro: order.trans)

lemma node_inv_start:
  assumes "txnode_start vf ub parse d read_file kp io1 io2 ok bound argv f key_file now_s now_ms = Some (Up s)" "clock_ok now_s"
  shows "node_inv vf now_s s"
  using start_state [OF assms] assms(2)
  by (simp add: node_inv_def mempool_inv_new executable_def) (simp add: new_mempool_def)

section \<open>Requests\<close>

lemma admit_bytes_pool:
  assumes "admit_bytes vf lookup m bytes = (r, m')"
  shows "m' = m \<or> (\<exists>t. wf_txn t \<and> admit vf lookup m t = (A_OK, m'))"
proof (cases "deserialize_txn bytes")
  case None
  with assms show ?thesis by (simp add: admit_bytes_def)
next
  case (Some t)
  have "wf_txn t" using Some by (simp add: txn_codec.dec_iff)
  with Some assms show ?thesis by (auto simp: admit_bytes_def admit_eq split: if_splits)
qed

lemma request_pool:
  "snd (handle_request vf lookup ctx meth target body m) = m \<or>
   (\<exists>t. wf_txn t \<and> admit vf lookup m t = (A_OK, snd (handle_request vf lookup ctx meth target body m)))"
proof -
  have "snd (submit_tx vf lookup body m) = m \<or>
      (\<exists>t. wf_txn t \<and> admit vf lookup m t = (A_OK, snd (submit_tx vf lookup body m)))"
    using admit_bytes_pool [of vf lookup m] unfolding submit_tx_def
    by (cases "from_hex kTxnSize (trim body)") (auto simp: Let_def split: prod.splits)
  then show ?thesis by (auto simp: handle_request_def Let_def)
qed

lemma node_inv_request:
  assumes inv: "node_inv vf t s" and seq: "unat (mp_next_seq (tn_pool s)) + 1 < 2 ^ 64"
  shows "node_inv vf t (snd (rpc_call vf meth target body s))"
proof -
  define m' where "m' = snd (handle_request vf (account (tn_chain s)) (rpc_context_of s) meth target body (tn_pool s))"
  have s': "snd (rpc_call vf meth target body s) = s\<lparr>tn_pool := m'\<rparr>"
    by (simp add: rpc_call_def m'_def split: prod.split)
  have look: "account (tn_chain s) = acct (ch_state (tn_chain s))" by (simp add: account_def fun_eq_iff)
  have pool: "mempool_inv vf (tn_pool s)" and ex: "executable vf (ch_state (tn_chain s)) (tn_pool s)"
    using inv by (simp_all add: node_inv_def)
  consider "m' = tn_pool s" | u where "wf_txn u" "admit vf (acct (ch_state (tn_chain s))) (tn_pool s) u = (A_OK, m')"
    using request_pool [of vf "account (tn_chain s)" "rpc_context_of s" meth target body "tn_pool s"]
    unfolding look m'_def by blast
  then show ?thesis
  proof cases
    case 1
    with inv show ?thesis by (simp add: s')
  next
    case (2 u)
    have p: "pending_txns m' = pending_txns (tn_pool s) @ [u]" by (rule admit_pending [OF pool seq 2(2)])
    have m: "mempool_inv vf m'" "executable vf (ch_state (tn_chain s)) m'"
      using mempool_inv_admit [OF pool seq, of "acct (ch_state (tn_chain s))" u]
        executable_admit [OF pool seq ex, of u] 2(2) by simp_all
    have cap: "mp_cap m' = mp_cap (tn_pool s)" using 2(2) by (auto simp: admit_eq admitted_def split: if_splits)
    have c: "pred_option (candidate_ok vf t (s\<lparr>tn_pool := m'\<rparr>)) (tn_grinding s)"
    proof (cases "tn_grinding s")
      case (Some cand)
      then have "candidate_ok vf t s cand" using inv by (simp add: node_inv_def)
      then show ?thesis using p by (fastforce simp: Some candidate_ok_def tn_chain_def)
    qed simp
    show ?thesis
      unfolding s' using inv m cap c p 2(1) by (simp add: node_inv_def tn_chain_def tn_cfg_def)
  qed
qed

section \<open>The proof-of-work mode\<close>

lemma node_inv_snapshot:
  assumes "node_inv vf t s" "t \<le> now_s" "clock_ok now_s"
  shows "node_inv vf now_s (pow_snapshot now_s s)"
proof -
  have inv: "node_inv vf now_s s" by (rule node_inv_later [OF assms])
  have "ch_blocks (tn_chain s) ! unat (height (tn_chain s)) = last (ch_blocks (tn_chain s))"
    using tip_block [of _ _ _ now_s "tn_chain s"] inv assms(3) by (auto simp: node_inv_def)
  with inv show ?thesis
    by (auto simp: node_inv_def pow_snapshot_def Let_def candidate_ok_def tn_chain_def tn_cfg_def)
qed

lemma evict_cap: "mp_cap (evictIncluded m ts) = mp_cap m"
proof (induction ts arbitrary: m)
  case Nil
  then show ?case by (simp add: evictIncluded_def)
next
  case (Cons t ts)
  have "mp_cap (evict_one t m) = mp_cap m" by (simp add: evict_one_def Let_def split: option.split)
  with Cons show ?case by (simp add: evictIncluded_def)
qed

text \<open>A block of coinbases and pending transactions that the chain accepts, and the pool after it.\<close>

lemma committed_inv:
  assumes inv: "node_inv vf now_s s" and acc: "tip_accepts vf (tn_chain s) b now_s w" and width: "block_widths b"
    and txns: "blk_txns b = cb @ ts" "\<forall>t \<in> set cb. tx_from t = kNullAddr" "distinct ts" "set ts \<subseteq> set (pending_txns (tn_pool s))"
    and room: "room s (blk_txns b)"
    and s': "tn_chain s' = appended (tn_chain s) b w" "tn_cfg s' = tn_cfg s" "tn_miner s' = tn_miner s"
      "tn_grinding s' = None" "tn_pool s' = evictIncluded (tn_pool s) ts"
  shows "node_inv vf now_s s'"
proof -
  let ?c = "tn_chain s" and ?cfg = "tn_cfg s"
  have reach: "chain_reach vf (cfg_difficulty ?cfg) (node_reward ?cfg) now_s ?c" and clock: "clock_ok now_s"
    and pool: "mempool_inv vf (tn_pool s)" and ex: "executable vf (ch_state ?c) (tn_pool s)"
    using inv by (simp_all add: node_inv_def)
  have "connectBlock vf ?c b now_s = (OK, appended ?c b w)" using acc by (auto simp: connectBlock_OK_iff)
  with reach_connect [OF reach order.refl clock width]
  have reach': "chain_reach vf (cfg_difficulty ?cfg) (node_reward ?cfg) now_s (appended ?c b w)" by simp
  obtain bs where "replays vf now_s (cfg_difficulty ?cfg) (node_reward ?cfg) bs (ch_state ?c)"
    using chain_reach_replays [OF reach order.refl clock] by blast
  then have wf: "wf_ledger (ch_state ?c)" by (rule replays_wf)
  obtain i n where loop: "block_loop vf i (ch_state ?c) 0 0 (cb @ ts) = Inr (n, w)"
    using acc block_accepts_loop unfolding tip_accepts_def txns(1) [symmetric] by metis
  note ev = evict_pending [OF pool txns(3,4)]
  have "executable vf w (evictIncluded (tn_pool s) ts)"
    by (rule executable_evict [OF pool ex wf txns(3,4) loop txns(2)]) (use room in \<open>simp add: room_def txns(1)\<close>)
  with ev reach' clock inv show ?thesis
    unfolding node_inv_def s' by (simp add: evict_cap list_all_iff)
qed

lemma distinct_pending: "mempool_inv vf m \<Longrightarrow> distinct (pending_txns m)"
  using pending_distinct [of vf m] by (simp add: distinct_map)

lemma mined_block:
  assumes inv: "node_inv vf t s" and cand: "tn_grinding s = Some cand" and mined: "mine stop cand D = Some (Some b)"
  obtains new where "blk_txns b = [coinbaseTxn (tn_miner s) (height (tn_chain s) + 1)] @ new" "distinct new"
    "set new \<subseteq> set (pending_txns (tn_pool s))" "block_widths b"
proof -
  obtain mp now0 where mp: "mempool_inv vf mp" "set (pending_txns mp) \<subseteq> set (pending_txns (tn_pool s))"
    and c: "cand = buildCandidate (tn_miner s) (height (tn_chain s)) (tipHash (tn_chain s))
      (bh_timestamp (blk_header (last (ch_blocks (tn_chain s))))) now0 mp (account (tn_chain s))"
    using inv cand by (auto simp: node_inv_def candidate_ok_def)
  have look: "account (tn_chain s) = acct (ch_state (tn_chain s))" by (simp add: account_def fun_eq_iff)
  obtain new where new: "cd_txns cand = coinbaseTxn (tn_miner s) (height (tn_chain s) + 1) # new" "subseq new (pending_txns mp)"
    using buildCandidate_txns [OF mp(1)] unfolding c look by metis
  note b = mine_sound [OF mined]
  show thesis
  proof (rule that)
    show "blk_txns b = [coinbaseTxn (tn_miner s) (height (tn_chain s) + 1)] @ new" using b(2) new(1) by simp
    show "distinct new" using new(2) distinct_pending [OF mp(1)] by (auto simp: subseq_conv_nths)
    have "set new \<subseteq> set (pending_txns mp)" using new(2) by (auto simp: subseq_conv_nths dest: in_set_nthsD)
    with mp(2) show sub: "set new \<subseteq> set (pending_txns (tn_pool s))" by blast
    have "txn_widths (coinbaseTxn (tn_miner s) (height (tn_chain s) + 1))"
      using inv by (simp add: node_inv_def txn_widths_def coinbaseTxn_def kNullAddr_def kNullPub_def kNullSig_def)
    moreover have "list_all txn_widths new"
      using sub inv by (auto simp: node_inv_def list_all_iff wf_txn_def)
    moreover have "header_widths (blk_header b)"
      using b(3) by (simp add: same_work_def header_widths_def c buildCandidate_sel tipHash_def)
    ultimately show "block_widths b" using b(2) new(1) by (simp add: block_widths_def)
  qed
qed

lemma commitBlock_cases:
  assumes "commitBlock vf io n b now_s = Some (r, n')"
  obtains (committed) w f where "r = OK" "tip_accepts vf (nd_chain n) b now_s w"
      "n' = n\<lparr>nd_chain := appended (nd_chain n) b w, nd_file := f\<rparr>"
    | (rejected) "r \<noteq> OK" "n' = n"
proof (cases "r = OK")
  case True
  with assms commitBlock_OK that(1) show thesis by metis
next
  case False
  obtain r0 c where c: "connectBlock vf (nd_chain n) b now_s = (r0, c)" by fastforce
  with assms False have "r0 \<noteq> OK" "n' = n\<lparr>nd_chain := c\<rparr>"
    by (auto simp: commitBlock_def Let_def split: if_splits)
  with connectBlock_fail [OF c] False that(2) show thesis by simp
qed

lemma node_inv_idle: "node_inv vf t s \<Longrightarrow> node_inv vf t (s\<lparr>tn_grinding := None\<rparr>)"
  by (simp add: node_inv_def tn_chain_def tn_cfg_def)

lemma node_inv_commit:
  assumes inv0: "node_inv vf t s" and cand: "tn_grinding s = Some cand" and mined: "mine stop cand D = Some mined"
    and room: "room s (mined_txns mined)" and now: "t \<le> now_s" "clock_ok now_s"
    and run: "pow_commit vf io now_s mined s = Some s'"
  shows "node_inv vf now_s s'"
proof -
  have inv: "node_inv vf now_s s" by (rule node_inv_later [OF inv0 now])
  note idle = node_inv_idle [OF inv]
  show ?thesis
  proof (cases mined)
    case None
    with run idle show ?thesis by (simp add: pow_commit_def Let_def)
  next
    case (Some b)
    obtain new where new: "blk_txns b = [coinbaseTxn (tn_miner s) (height (tn_chain s) + 1)] @ new" "distinct new"
      "set new \<subseteq> set (pending_txns (tn_pool s))" "block_widths b"
      using mined_block [OF inv cand] mined Some by blast
    show ?thesis
    proof (cases "height (tn_chain s) + 1 = bh_index (blk_header b) \<and> tipHash (tn_chain s) = bh_prevHash (blk_header b)")
      case False
      with run idle Some show ?thesis by (auto simp: pow_commit_def Let_def tn_chain_def)
    next
      case True
      then obtain r nd where c: "commitBlock vf io (tn_node s) b now_s = Some (r, nd)"
        using run Some by (auto simp: pow_commit_def Let_def tn_chain_def split: option.splits)
      from c show ?thesis
      proof (cases rule: commitBlock_cases)
        case rejected
        with run c Some True idle show ?thesis by (simp add: pow_commit_def Let_def tn_chain_def)
      next
        case (committed w f)
        have "tn_pool s' = evictIncluded (tn_pool s) new" "tn_node s' = nd" "tn_miner s' = tn_miner s" "tn_grinding s' = None"
          using run c Some True committed(1) new(1)
          by (auto simp: pow_commit_def Let_def tn_chain_def evictIncluded_def split: if_splits)
        with committed new show ?thesis
          by (intro committed_inv [OF inv _ new(4,1) _ new(2,3)])
            (use room Some in \<open>simp_all add: tn_chain_def tn_cfg_def mined_txns_def\<close>)
      qed
    qed
  qed
qed

section \<open>The cadence mode\<close>

lemma drain_take: "length b < MAX_TXNS_PER_BLOCK \<Longrightarrow> drain es b = take MAX_TXNS_PER_BLOCK (b @ map me_txn es)"
proof (induction es arbitrary: b)
  case Nil
  then show ?case by simp
next
  case (Cons e es)
  show ?case
  proof (cases "length (b @ [me_txn e]) < MAX_TXNS_PER_BLOCK")
    case True
    with Cons.IH [OF True] show ?thesis by simp
  next
    case False
    with Cons.prems have "MAX_TXNS_PER_BLOCK - length b = 1" "MAX_TXNS_PER_BLOCK \<le> Suc (length b)" by simp_all
    then show ?thesis by (simp add: Let_def)
  qed
qed

lemma batch_of_eq: "batch_of s = take MAX_TXNS_PER_BLOCK (pending_txns (tn_pool s))"
  by (simp add: batch_of_def drain_take pending_txns_def MAX_TXNS_PER_BLOCK_def)

definition sealed_block :: "chain \<Rightarrow> u64 \<Rightarrow> txn list \<Rightarrow> block" where
  "sealed_block c now_s txns =
     \<lparr>blk_header = \<lparr>bh_index = height c + 1,
        bh_timestamp = max now_s (bh_timestamp (blk_header (ch_blocks c ! unat (height c))) + 1),
        bh_prevHash = tipHash c, bh_txnsHash = txns_hash txns, bh_nonce = 0\<rparr>, blk_txns = txns\<rparr>"

lemma seal_commit: "seal_next_block vf io n now_s txns = commitBlock vf io n (sealed_block (nd_chain n) now_s txns) now_s"
  by (simp add: seal_next_block_def commitBlock_def sealed_block_def Let_def)

lemma node_inv_tick:
  assumes inv0: "node_inv vf t s" and grind: "tn_grinding s = None" and room: "room s (batch_of s)"
    and now: "t \<le> now_s" "clock_ok now_s" and run: "cadence_tick vf io now_s now_ms end_ms s = Some s'"
  shows "node_inv vf now_s s'"
proof -
  have inv: "node_inv vf now_s s" by (rule node_inv_later [OF inv0 now])
  show ?thesis
  proof (cases "should_seal_now (tn_cfg s) (now_ms - tn_last_seal_ms s) 0")
    case False
    with run inv show ?thesis by (simp add: cadence_tick_def)
  next
    case True
    let ?b = "sealed_block (tn_chain s) now_s (batch_of s)"
    obtain r nd where c: "commitBlock vf io (tn_node s) ?b now_s = Some (r, nd)"
      using run True by (auto simp: cadence_tick_def Let_def seal_commit tn_chain_def batch_of_def split: option.splits)
    have pend: "distinct (batch_of s)" "set (batch_of s) \<subseteq> set (pending_txns (tn_pool s))"
      using inv distinct_pending by (auto simp: batch_of_eq node_inv_def dest: in_set_takeD)
    have widths: "block_widths ?b"
      using inv pend(2) by (auto simp: node_inv_def block_widths_def sealed_block_def header_widths_def tipHash_def list_all_iff wf_txn_def)
    from c show ?thesis
    proof (cases rule: commitBlock_cases)
      case rejected
      with run c True inv grind show ?thesis
        by (auto simp: cadence_tick_def Let_def seal_commit tn_chain_def batch_of_def node_inv_def tn_cfg_def)
    next
      case (committed w f)
      have "tn_pool s' = evictIncluded (tn_pool s) (batch_of s)" "tn_node s' = nd" "tn_miner s' = tn_miner s" "tn_grinding s' = None"
        using run c True committed(1) grind
        by (auto simp: cadence_tick_def Let_def seal_commit tn_chain_def batch_of_def evictIncluded_def split: if_splits)
      with committed room widths show ?thesis
        by (intro committed_inv [OF inv _ widths, where cb = "[]" and ts = "batch_of s"])
          (use pend in \<open>simp_all add: tn_chain_def tn_cfg_def sealed_block_def\<close>)
    qed
  qed
qed

lemma node_run_inv: "node_run vf t s \<Longrightarrow> node_inv vf t s"
proof (induction rule: node_run.induct)
  case run_start
  then show ?case by (rule node_inv_start)
next
  case run_request
  then show ?case by (blast intro: node_inv_request)
next
  case run_snapshot
  then show ?case by (blast intro: node_inv_snapshot)
next
  case run_commit
  then show ?case by (blast intro: node_inv_commit)
next
  case run_tick
  then show ?case by (blast intro: node_inv_tick)
qed

section \<open>The supply of a run\<close>

text \<open>The boot compares the supply of what it loads with the closed form.\<close>

lemma boot_supply:
  assumes "boot vf ub parse io cfg f now_s = Some (Returns (br, nd))" "br_ok br"
  shows "supply_matches (nd_chain nd)"
proof -
  have new: "supply_matches (new_chain D R)" for D R
    by (simp add: supply_matches_def balance_sum_of_supply GENESIS_SUPPLY_def height_def)
  have append: "nd_chain n' = nd_chain n" if "node_append io n b = Some n'" for n n' b
    using that by (auto simp: node_append_def)
  have rec: "supply_matches c"
    if "vr_ok (replayFromGenesis vf (genesisBlock # bs) now_s D R)" "reconnect vf now_s 1 bs (new_chain D R) = Inr c" for bs c D R
    using reconnect_never_fails [OF that(1)] that(2) by auto
  show ?thesis
    using assms new rec unfolding boot_def Let_def
    by (auto simp: new_node_def refuse_def dest!: append split: if_splits option.splits list.splits sum.splits raised.splits)
qed

lemma start_supply:
  assumes "txnode_start vf ub parse d read_file kp io1 io2 ok bound argv f key_file now_s now_ms = Some (Up s)"
  shows "supply_matches (tn_chain s)"
  using assms unfolding txnode_start_def Let_def
  by (auto simp: tn_chain_def dest!: boot_supply split: option.splits prod.splits if_splits raised.splits)

text \<open>Only the proof-of-work mode searches, and only its commits add coinbases.\<close>

lemma commitBlock_cfg: "commitBlock vf io n b now_s = Some (r, n') \<Longrightarrow> nd_cfg n' = nd_cfg n"
  by (elim commitBlock_cases) simp_all

lemma commit_cases:
  assumes "pow_commit vf io now_s mined s = Some s'"
  shows "tn_cfg s' = tn_cfg s \<and> tn_grinding s' = None"
  using assms
  by (auto simp: pow_commit_def Let_def tn_cfg_def split: option.splits if_splits dest!: commitBlock_cfg)

lemma tick_cases:
  assumes "cadence_tick vf io now_s now_ms end_ms s = Some s'"
  shows "tn_cfg s' = tn_cfg s \<and> tn_grinding s' = tn_grinding s \<and>
    (tn_chain s' = tn_chain s \<or> (\<exists>b w. tn_chain s' = appended (tn_chain s) b w \<and> blk_txns b = batch_of s))"
proof (cases "should_seal_now (tn_cfg s) (now_ms - tn_last_seal_ms s) 0")
  case False
  with assms show ?thesis by (simp add: cadence_tick_def)
next
  case True
  let ?b = "sealed_block (tn_chain s) now_s (batch_of s)"
  obtain r nd where c: "commitBlock vf io (tn_node s) ?b now_s = Some (r, nd)"
    and s': "tn_node s' = nd" "tn_grinding s' = tn_grinding s"
    using assms True
    by (auto simp: cadence_tick_def Let_def seal_commit tn_chain_def batch_of_def split: option.splits)
  from c show ?thesis
  proof (cases rule: commitBlock_cases)
    case (committed w f)
    then have "tn_chain s' = appended (tn_chain s) ?b w" "tn_cfg s' = tn_cfg s"
      using s' by (simp_all add: tn_chain_def tn_cfg_def)
    moreover have "blk_txns ?b = batch_of s" by (simp add: sealed_block_def)
    ultimately show ?thesis using s'(2) by blast
  next
    case rejected
    with s' show ?thesis by (simp add: tn_chain_def tn_cfg_def)
  qed
qed

lemma grinding_mode: "node_run vf t s \<Longrightarrow> tn_grinding s \<noteq> None \<Longrightarrow> pow_mode (tn_cfg s)"
proof (induction rule: node_run.induct)
  case run_start
  then show ?case using start_state by fastforce
next
  case run_request
  then show ?case by (simp add: rpc_call_def tn_cfg_def split: prod.splits)
next
  case run_snapshot
  then show ?case by (simp add: pow_snapshot_def tn_cfg_def Let_def)
next
  case run_commit
  then show ?case using commit_cases by metis
next
  case run_tick
  then show ?case using tick_cases by metis
qed

definition plain_chain :: "chain \<Rightarrow> bool" where
  "plain_chain c \<longleftrightarrow> (\<forall>b \<in> set (ch_blocks c). \<forall>x \<in> set (blk_txns b). \<not> self_transfer x) \<and>
     5000 + 50 * length (ch_blocks c) < 2 ^ 64"

lemma plain_chain_reached:
  assumes reach: "chain_reach vf D R t c" and now: "t \<le> now_s" "clock_ok now_s" and plain: "plain_chain c"
  shows "total_supply (ch_state c) = 5000 + 50 * length (filter is_coinbase (chain_txns (ch_blocks c)))"
    "50 * length (filter is_coinbase (chain_txns (ch_blocks c))) < 2 ^ 64 - 5000"
proof -
  obtain bs where bs: "ch_blocks c = genesisBlock # bs" "replays vf now_s D R bs (ch_state c)"
    using chain_reach_replays [OF reach now] by blast
  have ts: "chain_txns (ch_blocks c) = chain_txns bs" unfolding bs(1) by (rule genesis_no_txns)
  have "self_amounts (chain_txns bs) = 0"
    using plain by (auto simp: plain_chain_def bs(1) self_amounts_def chain_txns_def filter_empty_conv)
  then have m: "chain_minted bs = 50 * length (filter is_coinbase (chain_txns bs))" by (simp add: chain_minted_eq)
  have n: "length (filter is_coinbase (chain_txns bs)) \<le> length bs" by (rule replays_coinbase_count [OF bs(2)])
  then show "50 * length (filter is_coinbase (chain_txns (ch_blocks c))) < 2 ^ 64 - 5000"
    using plain unfolding ts by (simp add: plain_chain_def bs(1))
  with replays_total [OF bs(2)] m show "total_supply (ch_state c) = 5000 + 50 * length (filter is_coinbase (chain_txns (ch_blocks c)))"
    unfolding ts by simp
qed

lemma run_without_coinbase:
  "node_run vf t s \<Longrightarrow> cfg_difficulty (tn_cfg s) = 0 \<Longrightarrow> plain_chain (tn_chain s) \<Longrightarrow>
   filter is_coinbase (chain_txns (ch_blocks (tn_chain s))) = []"
proof (induction rule: node_run.induct)
  case (run_start ub parse d read_file kp io1 io2 ok bound argv f key_file now_s now_ms s)
  have reach: "chain_reach vf 0 0 now_s (tn_chain s)"
    using start_state [OF run_start(1,2)] run_start(3) by (simp add: node_reward_def)
  note par = chain_reach_params [OF reach]
  note total = plain_chain_reached [OF reach order.refl run_start(2,4)]
  have "balance_sum (ch_state (tn_chain s)) = GENESIS_SUPPLY"
    using start_supply [OF run_start(1)] par by (simp add: supply_matches_def)
  moreover have "unat (balance_sum (ch_state (tn_chain s))) = total_supply (ch_state (tn_chain s))"
    using total by (intro unat_balance_sum) simp
  ultimately have "total_supply (ch_state (tn_chain s)) = 5000" by (simp add: GENESIS_SUPPLY_def)
  with total(1) show ?case by simp
next
  case run_request
  then show ?case by (simp add: rpc_call_def tn_cfg_def tn_chain_def split: prod.splits)
next
  case run_snapshot
  then show ?case by (simp add: pow_mode_def pow_snapshot_def tn_cfg_def Let_def)
next
  case (run_commit t s cand stop mined now_s io s')
  have "pow_mode (tn_cfg s)" using grinding_mode [OF run_commit(1)] run_commit(2) by simp
  then show ?case using commit_cases [OF run_commit(7)] run_commit(9) by (simp add: pow_mode_def)
next
  case (run_tick t s now_s io now_ms end_ms s')
  note cases = tick_cases [OF run_tick(7)]
  have zero: "cfg_difficulty (tn_cfg s) = 0" using cases run_tick(9) by simp
  from cases consider "tn_chain s' = tn_chain s"
    | b w where "tn_chain s' = appended (tn_chain s) b w" "blk_txns b = batch_of s" by blast
  then show ?case
  proof cases
    case 1
    with run_tick zero show ?thesis by simp
  next
    case (2 b w)
    have "plain_chain (tn_chain s)" using run_tick(10) 2(1) by (auto simp: plain_chain_def)
    note IH = run_tick.IH [OF zero this]
    have pool: "mempool_inv vf (tn_pool s)" using node_run_inv [OF run_tick(1)] by (simp add: node_inv_def)
    have "\<not> is_coinbase x" if "x \<in> set (batch_of s)" for x
      using pool.pending_authentic [OF pool, of x] that
      by (auto simp: batch_of_eq authentic_def is_coinbase_def dest: in_set_takeD)
    with IH 2 show ?thesis by (auto simp: chain_txns_def filter_empty_conv)
  qed
qed

text \<open>So a chain that a run has come to validates unless it has a transfer of an account to itself.\<close>

lemma run_validates:
  assumes run: "node_run vf t s" and plain: "plain_chain (tn_chain s)" and now: "t \<le> now_s" "clock_ok now_s"
  shows "validateChain vf (tn_chain s) now_s = OK"
proof -
  have reach: "chain_reach vf (cfg_difficulty (tn_cfg s)) (node_reward (tn_cfg s)) t (tn_chain s)"
    using node_run_inv [OF run] by (simp add: node_inv_def)
  show ?thesis
  proof (cases "cfg_difficulty (tn_cfg s) = 0")
    case True
    then have z: "chain_reach vf 0 0 t (tn_chain s)" using reach by (simp add: node_reward_def)
    have "total_supply (ch_state (tn_chain s)) = 5000"
      using plain_chain_reached(1) [OF z now plain] run_without_coinbase [OF run True plain] by simp
    then have "supply_matches (tn_chain s)"
      using chain_reach_params [OF z] by (simp add: supply_matches_def balance_sum_of_supply GENESIS_SUPPLY_def)
    with validate_reached [OF z now] show ?thesis by simp
  next
    case False
    then have z: "chain_reach vf (cfg_difficulty (tn_cfg s)) COINBASE_REWARD t (tn_chain s)"
      using reach by (simp add: node_reward_def word_gt_0)
    show ?thesis using issuance_holds [OF z now] plain by (simp add: plain_chain_def)
  qed
qed

end
