(* ===== verification/Node_Sample.thy ===== *)
theory Node_Sample
  imports Node_Run
begin

text \<open>
  A sample node for the witnesses: it starts with an empty data directory at difficulty one, takes a
  snapshot and finds its first block at nonce zero.  The digests on the way are evaluated in the kernel.
\<close>

section \<open>Digests\<close>

lemma sha256_genesis: "sha256 (replicate 12 0 @ [101, 146, 0, 128] @ replicate 32 0 @ [227, 176, 196, 66, 152, 252, 28, 20, 154, 251, 244, 200, 153, 111, 185, 36, 39, 174, 65, 228, 100, 155, 147, 76, 164, 149, 153, 27, 120, 82, 184, 85] @ replicate 8 0) =
  [200, 192, 23, 34, 59, 52, 172, 42, 32, 179, 32, 8, 113, 48, 216, 149, 131, 33, 132, 151, 145, 126, 141, 75, 63, 245, 254, 65, 248, 125, 168, 49]"
proof -
  have pad: "map uint (sha_padding (replicate 12 0 @ [101, 146, 0, 128] @ replicate 32 0 @ [227, 176, 196, 66, 152, 252, 28, 20, 154, 251, 244, 200, 153, 111, 185, 36, 39, 174, 65, 228, 100, 155, 147, 76, 164, 149, 153, 27, 120, 82, 184, 85] @ replicate 8 0)) = replicate 12 0 @ [101, 146, 0, 128] @ replicate 32 0 @ [227, 176, 196, 66, 152, 252, 28, 20, 154, 251, 244, 200, 153, 111, 185, 36, 39, 174, 65, 228, 100, 155, 147, 76, 164, 149, 153, 27, 120, 82, 184, 85] @ replicate 8 0 @ [128] @ replicate 37 0 @ [2, 192]"
    by (simp add: sha_pad_eval) (simp add: numeral_eq_Suc)
  have hash: "i_hash 2 i_iv (replicate 12 0 @ [101, 146, 0, 128] @ replicate 32 0 @ [227, 176, 196, 66, 152, 252, 28, 20, 154, 251, 244, 200, 153, 111, 185, 36, 39, 174, 65, 228, 100, 155, 147, 76, 164, 149, 153, 27, 120, 82, 184, 85] @ replicate 8 0 @ [128] @ replicate 37 0 @ [2, 192]) =
      [3368032034, 993307690, 548610056, 1899026581, 2200011927, 2440990027, 1073086017, 4168984625]" by code_simp
  show ?thesis
    by (subst sha256_by_eval [OF pad _ hash]) (simp_all add: emit_word_list)
qed

lemma sha256_coinbase: "sha256 ([1] @ replicate 20 0 @ [102, 104, 122, 173, 248, 98, 189, 119, 108, 143, 193, 139, 142, 159, 142, 32, 8, 151, 20, 133] @ replicate 7 0 @ [50] @ replicate 7 0 @ [1] @ replicate 96 0) =
  [103, 82, 129, 168, 166, 126, 59, 101, 180, 153, 74, 165, 213, 34, 123, 228, 237, 43, 148, 239, 236, 79, 6, 238, 187, 199, 223, 32, 36, 22, 185, 177]"
proof -
  have pad: "map uint (sha_padding ([1] @ replicate 20 0 @ [102, 104, 122, 173, 248, 98, 189, 119, 108, 143, 193, 139, 142, 159, 142, 32, 8, 151, 20, 133] @ replicate 7 0 @ [50] @ replicate 7 0 @ [1] @ replicate 96 0)) = [1] @ replicate 20 0 @ [102, 104, 122, 173, 248, 98, 189, 119, 108, 143, 193, 139, 142, 159, 142, 32, 8, 151, 20, 133] @ replicate 7 0 @ [50] @ replicate 7 0 @ [1] @ replicate 96 0 @ [128] @ replicate 36 0 @ [4, 200]"
    by (simp add: sha_pad_eval) (simp add: numeral_eq_Suc)
  have hash: "i_hash 3 i_iv ([1] @ replicate 20 0 @ [102, 104, 122, 173, 248, 98, 189, 119, 108, 143, 193, 139, 142, 159, 142, 32, 8, 151, 20, 133] @ replicate 7 0 @ [50] @ replicate 7 0 @ [1] @ replicate 96 0 @ [128] @ replicate 36 0 @ [4, 200]) =
      [1733460392, 2793290597, 3029944997, 3575806948, 3979056367, 3964602094, 3150438176, 605469105]" by code_simp
  show ?thesis
    by (subst sha256_by_eval [OF pad _ hash]) (simp_all add: emit_word_list)
qed

lemma sha256_first: "sha256 (replicate 7 0 @ [1, 0, 0, 0, 0, 101, 146, 0, 129, 200, 192, 23, 34, 59, 52, 172, 42, 32, 179, 32, 8, 113, 48, 216, 149, 131, 33, 132, 151, 145, 126, 141, 75, 63, 245, 254, 65, 248, 125, 168, 49, 103, 82, 129, 168, 166, 126, 59, 101, 180, 153, 74, 165, 213, 34, 123, 228, 237, 43, 148, 239, 236, 79, 6, 238, 187, 199, 223, 32, 36, 22, 185, 177] @ replicate 8 0) =
  [90, 202, 138, 112, 252, 246, 59, 221, 141, 159, 64, 132, 89, 20, 205, 219, 37, 68, 87, 157, 132, 152, 23, 5, 173, 176, 21, 134, 174, 30, 10, 187]"
proof -
  have pad: "map uint (sha_padding (replicate 7 0 @ [1, 0, 0, 0, 0, 101, 146, 0, 129, 200, 192, 23, 34, 59, 52, 172, 42, 32, 179, 32, 8, 113, 48, 216, 149, 131, 33, 132, 151, 145, 126, 141, 75, 63, 245, 254, 65, 248, 125, 168, 49, 103, 82, 129, 168, 166, 126, 59, 101, 180, 153, 74, 165, 213, 34, 123, 228, 237, 43, 148, 239, 236, 79, 6, 238, 187, 199, 223, 32, 36, 22, 185, 177] @ replicate 8 0)) = replicate 7 0 @ [1, 0, 0, 0, 0, 101, 146, 0, 129, 200, 192, 23, 34, 59, 52, 172, 42, 32, 179, 32, 8, 113, 48, 216, 149, 131, 33, 132, 151, 145, 126, 141, 75, 63, 245, 254, 65, 248, 125, 168, 49, 103, 82, 129, 168, 166, 126, 59, 101, 180, 153, 74, 165, 213, 34, 123, 228, 237, 43, 148, 239, 236, 79, 6, 238, 187, 199, 223, 32, 36, 22, 185, 177] @ replicate 8 0 @ [128] @ replicate 37 0 @ [2, 192]"
    by (simp add: sha_pad_eval) (simp add: numeral_eq_Suc)
  have hash: "i_hash 2 i_iv (replicate 7 0 @ [1, 0, 0, 0, 0, 101, 146, 0, 129, 200, 192, 23, 34, 59, 52, 172, 42, 32, 179, 32, 8, 113, 48, 216, 149, 131, 33, 132, 151, 145, 126, 141, 75, 63, 245, 254, 65, 248, 125, 168, 49, 103, 82, 129, 168, 166, 126, 59, 101, 180, 153, 74, 165, 213, 34, 123, 228, 237, 43, 148, 239, 236, 79, 6, 238, 187, 199, 223, 32, 36, 22, 185, 177] @ replicate 8 0 @ [128] @ replicate 37 0 @ [2, 192]) =
      [1523223152, 4243995613, 2376024196, 1494535643, 625235869, 2224559877, 2913998214, 2921204411]" by code_simp
  show ?thesis
    by (subst sha256_by_eval [OF pad _ hash]) (simp_all add: emit_word_list)
qed


section \<open>The sample run\<close>

definition sample_argv :: "string list" where
  "sample_argv = [''txnode'', ''--mine'', ''--difficulty'', ''1'']"

definition sample_cfg :: node_config where
  "sample_cfg = default_config\<lparr>cfg_mine := True, cfg_difficulty := 1\<rparr>"

definition sample_wallet :: wallet where
  "sample_wallet = wallet_of_seed (\<lambda>_. sample_pub) sample_pub"

definition sample_key :: wallet_file where
  "sample_key = \<lparr>wf_mode = 384, wf_text = Some (wallet_text sample_wallet)\<rparr>"

definition fresh_node :: "node_config \<Rightarrow> txnode" where
  "fresh_node cfg = \<lparr>tn_node = \<lparr>nd_cfg = cfg, nd_file = Some (block_line genesisBlock), nd_chain = new_chain (cfg_difficulty cfg) (node_reward cfg)\<rparr>,
     tn_pool = new_mempool 4096, tn_miner = sample_addr, tn_last_seal_ms = 0, tn_grinding = None,
     tn_log = [config_line cfg] @ wallet_lines \<lparr>wr_ok = True, wr_wallet = Some sample_wallet, wr_error = [],
         wr_world_readable = False\<rparr> sample_wallet @
       [event ''node_up'' (height_fields (new_chain (cfg_difficulty cfg) (node_reward cfg)))] @ rpc_lines cfg (Some 30000)\<rparr>"

definition sample_up :: txnode where "sample_up = fresh_node sample_cfg"

definition cadence_cfg :: node_config where
  "cadence_cfg = default_config\<lparr>cfg_mine := True\<rparr>"

lemma sample_configs:
  "resolve_config ub parse (\<lambda>_. None) sample_argv = Returns sample_cfg"
  "resolve_config ub parse (\<lambda>_. None) [''txnode'', ''--mine''] = Returns cadence_cfg"
proof -
  have "strtoull ''1'' = 1"
    by (simp add: strtoull_def sign_digits_def is_blank_def is_digit_def dec_val_def digit_val_def)
  then show "resolve_config ub parse (\<lambda>_. None) sample_argv = Returns sample_cfg"
    by (simp add: resolve_config_def sample_argv_def takes_value_def set_value_def set_flag_def sample_cfg_def
        apply_config_file_def default_config_def)
qed (simp add: resolve_config_def takes_value_def set_flag_def cadence_cfg_def apply_config_file_def default_config_def)

lemma append_none_fine: "length (block_line b) \<le> n \<Longrightarrow> appendBlock (io_fine n) None b = Some (True, Some (block_line b))"
  using append_fine [of b n "[]"] by (simp add: appendBlock_def write_file_def io_fine_def)

lemma sample_key_loads:
  "wallet_load (\<lambda>_. sample_pub) picojson path (Some sample_key) =
    Returns \<lparr>wr_ok = True, wr_wallet = Some sample_wallet, wr_error = [], wr_world_readable = False\<rparr>"
  using load_wallet_text [of sample_pub "\<lambda>_. sample_pub" path]
  by (simp add: sample_key_def sample_wallet_def sample_pub_def)

lemma fresh_starts:
  assumes cfg: "resolve_config (\<lambda>_. 0) picojson (\<lambda>_. None) argv = Returns cfg"
  shows "txnode_start vf (\<lambda>_. 0) picojson (\<lambda>_. sample_pub) (\<lambda>_. None) None
     (io_fine (length (block_line genesisBlock))) (io_fine 0) True (Some 30000) argv None
     (Some sample_key) 1704067201 0 = Some (Up (fresh_node cfg))"
proof -
  have boot: "boot vf (\<lambda>_. 0) parse (io_fine (length (block_line genesisBlock))) cfg None now_s =
      Some (Returns (boot_ok, tn_node (fresh_node cfg)))" for parse now_s
    by (simp add: boot_def new_node_def node_append_def append_none_fine fresh_node_def)
  show ?thesis
    by (simp add: txnode_start_def cfg boot boot_ok_def load_or_create_wallet_def sample_key_loads)
      (simp add: fresh_node_def sample_wallet_def wallet_of_seed_def sample_addr_def)
qed

lemma sample_runs: "node_run vf 1704067201 sample_up"
  unfolding sample_up_def by (rule run_start [OF fresh_starts [OF sample_configs(1)] clock_2024(2)])

lemma cadence_runs: "node_run vf 1704067201 (fresh_node cadence_cfg)"
  by (rule run_start [OF fresh_starts [OF sample_configs(2)] clock_2024(2)])

section \<open>The search\<close>

lemma sample_times: "be64 1704067200 = [0, 0, 0, 0, 101, 146, 0, 128]" "be64 1704067201 = [0, 0, 0, 0, 101, 146, 0, 129]"
  "be64 0 = [0, 0, 0, 0, 0, 0, 0, 0]" "be64 1 = [0, 0, 0, 0, 0, 0, 0, 1]"
  by code_simp+

lemma genesis_hash: "block_hash (blk_header genesisBlock) =
  [200, 192, 23, 34, 59, 52, 172, 42, 32, 179, 32, 8, 113, 48, 216, 149, 131, 33, 132, 151, 145, 126, 141, 75, 63, 245, 254, 65, 248, 125, 168, 49]"
proof -
  have "txns_hash [] = [227, 176, 196, 66, 152, 252, 28, 20, 154, 251, 244, 200, 153, 111, 185, 36,
                39, 174, 65, 228, 100, 155, 147, 76, 164, 149, 153, 27, 120, 82, 184, 85]"
    by (simp add: txns_hash_eq sha256_empty)
  then have "serialize_header (blk_header genesisBlock) = replicate 12 0 @ [101, 146, 0, 128] @ replicate 32 0 @
      [227, 176, 196, 66, 152, 252, 28, 20, 154, 251, 244, 200, 153, 111, 185, 36, 39, 174, 65, 228, 100, 155, 147, 76,
       164, 149, 153, 27, 120, 82, 184, 85] @ replicate 8 0"
    by (simp add: serialize_header_eq header_widths_def sample_times GENESIS_TIMESTAMP_def) (simp add: numeral_eq_Suc)
  then show ?thesis by (simp only: block_hash_def sha256_genesis)
qed

lemma coinbase_hash: "txns_hash [coinbaseTxn sample_addr 1] =
  [103, 82, 129, 168, 166, 126, 59, 101, 180, 153, 74, 165, 213, 34, 123, 228, 237, 43, 148, 239, 236, 79, 6, 238, 187, 199, 223, 32, 36, 22, 185, 177]"
proof -
  have "txn_widths (coinbaseTxn sample_addr 1)"
    by (simp add: txn_widths_def coinbaseTxn_def kNullAddr_def kNullPub_def kNullSig_def)
  then have "serialize_txn (coinbaseTxn sample_addr 1) = [1] @ replicate 20 0 @
      [102, 104, 122, 173, 248, 98, 189, 119, 108, 143, 193, 139, 142, 159, 142, 32, 8, 151, 20, 133] @ replicate 7 0 @
      [50] @ replicate 7 0 @ [1] @ replicate 96 0"
    by (simp add: serialize_txn_eq be64_list coinbaseTxn_def kTxnVersion_def kNullAddr_def kNullPub_def kNullSig_def
        COINBASE_REWARD_def sample_addr_eq) (simp add: numeral_eq_Suc)
  then show ?thesis using sha256_coinbase by (simp add: txns_hash_eq)
qed

definition sample_cand :: candidate where
  "sample_cand = \<lparr>cd_hdr = \<lparr>bh_index = 1, bh_timestamp = 1704067201, bh_prevHash = block_hash (blk_header genesisBlock),
      bh_txnsHash = txns_hash [coinbaseTxn sample_addr 1], bh_nonce = 0\<rparr>, cd_txns = [coinbaseTxn sample_addr 1]\<rparr>"

definition sample_found :: block where
  "sample_found = \<lparr>blk_header = cd_hdr sample_cand, blk_txns = cd_txns sample_cand\<rparr>"

lemma first_hash: "block_hash (cd_hdr sample_cand) =
  [90, 202, 138, 112, 252, 246, 59, 221, 141, 159, 64, 132, 89, 20, 205, 219, 37, 68, 87, 157, 132, 152, 23, 5, 173, 176, 21, 134, 174, 30, 10, 187]"
proof -
  have "serialize_header (cd_hdr sample_cand) = replicate 7 0 @ [1, 0, 0, 0, 0, 101, 146, 0, 129, 200, 192, 23, 34, 59, 52, 172, 42, 32, 179, 32, 8, 113, 48, 216, 149, 131, 33, 132, 151, 145, 126, 141, 75, 63, 245, 254, 65, 248, 125, 168, 49, 103, 82, 129, 168, 166, 126, 59, 101, 180, 153, 74, 165, 213, 34, 123, 228, 237, 43, 148, 239, 236, 79, 6, 238, 187, 199, 223, 32, 36, 22, 185, 177] @ replicate 8 0"
    by (simp add: serialize_header_eq header_widths_def sample_times sample_cand_def genesis_hash coinbase_hash)
      (simp add: numeral_eq_Suc)
  then show ?thesis by (simp only: block_hash_def sha256_first)
qed

lemma sample_target: "meets_difficulty (block_hash (cd_hdr sample_cand)) 1"
  unfolding first_hash by (simp add: meets_difficulty_iff_lz) code_simp

lemma sample_search: "mine (\<lambda>_. False) sample_cand 1 = Some (Some sample_found)"
proof -
  have "(cd_hdr sample_cand)\<lparr>bh_nonce := 0\<rparr> = cd_hdr sample_cand" by (simp add: sample_cand_def)
  with sample_target have "solves 1 (cd_hdr sample_cand) 0" by (simp add: solves_def)
  from mine_loop_reaches [OF this, of 0 "\<lambda>_. False" "cd_txns sample_cand" 0] show ?thesis
    by (simp add: mine_def sample_found_def) (simp add: sample_cand_def)
qed

definition sample_grind :: txnode where
  "sample_grind = sample_up\<lparr>tn_grinding := Some sample_cand\<rparr>"

lemma sample_snapshot: "pow_snapshot 1704067201 sample_up = sample_grind"
  by (simp add: pow_snapshot_def sample_grind_def sample_up_def fresh_node_def sample_cfg_def tn_chain_def height_def tipHash_def Let_def
      buildCandidate_def pending_txns_def sortedBySeq_def new_mempool_def List.map_filter_simps sample_cand_def
      GENESIS_TIMESTAMP_def max_def)

lemma sample_grinds: "node_run vf 1704067201 sample_grind"
proof -
  have "pow_mode (tn_cfg sample_up)" by (simp add: pow_mode_def tn_cfg_def sample_up_def fresh_node_def sample_cfg_def)
  then show ?thesis using run_snapshot [OF sample_runs _ order.refl clock_2024(2), of vf] by (simp add: sample_snapshot)
qed

section \<open>The commit\<close>

abbreviation sample_chain :: chain where
  "sample_chain \<equiv> appended (new_chain 1 COINBASE_REWARD) sample_found (credit (applyGenesis []) sample_addr 50)"

lemma found_connects: "connectBlock vf (new_chain 1 COINBASE_REWARD) sample_found 1704067202 = (OK, sample_chain)"
  using sample_target
  by (simp add: connectBlock_OK_iff tip_accepts_def block_accepts_def sample_found_def sample_cand_def tipHash_def
      GENESIS_TIMESTAMP_def MAX_CLOCK_SKEW_S_def computeTxnsHash_def
      MAX_TXNS_PER_BLOCK_def applyBlockTxns_def bar_ok_def coinbaseTxn_def COINBASE_REWARD_def)

lemma sample_grind_sel:
  "tn_grinding sample_grind = Some sample_cand" "tn_cfg sample_grind = sample_cfg"
  "tn_chain sample_grind = new_chain 1 COINBASE_REWARD" "nd_file (tn_node sample_grind) = Some (block_line genesisBlock)"
  "tn_pool sample_grind = new_mempool 4096"
  by (simp_all add: sample_grind_def sample_up_def fresh_node_def tn_cfg_def tn_chain_def sample_cfg_def node_reward_def)

lemma sample_room: "room sample_grind (mined_txns (Some sample_found))"
  by (simp add: room_def mined_txns_def sample_grind_sel sample_found_def sample_cand_def minted_def coinbaseTxn_def COINBASE_REWARD_def)

lemma sample_commit:
  obtains s where "pow_commit vf (io_fine (length (block_line sample_found))) 1704067202 (Some sample_found) sample_grind = Some s"
    "tn_chain s = sample_chain" "tn_cfg s = sample_cfg" "tn_pool s = new_mempool 4096"
proof -
  let ?io = "io_fine (length (block_line sample_found))" and ?b = sample_found
  have io: "appendBlock ?io (nd_file (tn_node sample_grind)) ?b = Some (True, Some (block_line genesisBlock @ block_line ?b))"
    unfolding sample_grind_sel(4) by (rule append_fine) simp
  have tip: "height (tn_chain sample_grind) + 1 = bh_index (blk_header ?b) \<and>
      tipHash (tn_chain sample_grind) = bh_prevHash (blk_header ?b) \<and> blk_txns ?b = [coinbaseTxn sample_addr 1]"
    by (simp add: sample_grind_sel height_def tipHash_def sample_found_def sample_cand_def)
  obtain nd where "commitBlock vf ?io (tn_node sample_grind) ?b 1704067202 = Some (OK, nd)" "nd_chain nd = sample_chain"
    "nd_cfg nd = sample_cfg"
    using found_connects [of vf] io sample_grind_sel(2,3) by (simp add: commitBlock_def node_append_def tn_chain_def tn_cfg_def)
  then obtain s where "pow_commit vf ?io 1704067202 (Some ?b) sample_grind = Some s" "tn_node s = nd" "tn_pool s = new_mempool 4096"
    using tip sample_grind_sel(5) by (simp add: pow_commit_def tn_chain_def)
  with \<open>nd_chain nd = sample_chain\<close> \<open>nd_cfg nd = sample_cfg\<close> that show thesis by (simp add: tn_chain_def tn_cfg_def)
qed

lemma sample_supply: "supply_matches sample_chain"
proof -
  have "total_supply (credit (applyGenesis []) sample_addr 50) = 5050" by (subst total_credit) simp_all
  then show ?thesis by (simp add: supply_matches_def balance_sum_of_supply GENESIS_SUPPLY_def COINBASE_REWARD_def height_def)
qed

end
