(* ===== verification/Node_Send.thy ===== *)
theory Node_Send
  imports Texts Node_Sample
begin

text \<open>
  The command line program against a running node: the HTTP client of the \<^verbatim>\<open>send\<close> command reaches the
  request thread of the process, the network between them being the exchange of theory \<open>Http\<close>.
\<close>

section \<open>The process as a node service\<close>

definition process_http :: "verifier \<Rightarrow> txnode http" where
  "process_http vf meth host port path body s =
     (let (resp, s) = rpc_call vf meth path body s
      in (\<lparr>hr_ok = True, hr_status = rr_status resp, hr_body = rr_body resp\<rparr>, s))"

definition set_pool :: "mempool \<Rightarrow> txnode \<Rightarrow> txnode" where
  "set_pool m s = s\<lparr>tn_pool := m\<rparr>"

lemma process_account:
  "length a = 20 \<Longrightarrow> process_http vf ''GET'' host port (''/account/'' @ to_hex a) body s =
    (\<lparr>hr_ok = True, hr_status = 200, hr_body = render (account_json a (account (tn_chain s) a)
       (next_nonce (account (tn_chain s)) (tn_pool s) a))\<rparr>, s)"
  unfolding process_http_def rpc_call_def by (subst account_route) (simp_all add: rpc_context_of_def)

lemma process_submit:
  "wf_txn t \<Longrightarrow> admit vf (account (tn_chain s)) (tn_pool s) t = (A_OK, m) \<Longrightarrow>
    process_http vf ''POST'' host port ''/tx'' (to_hex (serialize_txn t)) s =
    (\<lparr>hr_ok = True, hr_status = 200, hr_body = render (txid_json (txid t))\<rparr>, set_pool m s)"
  using submit_route [of t "[]" "[]" vf "account (tn_chain s)" "rpc_context_of s" "tn_pool s"]
  by (simp add: process_http_def rpc_call_def set_pool_def)

interpretation process: node_service vf "process_http vf" tn_pool "\<lambda>s. account (tn_chain s)" set_pool for vf
  by unfold_locales (fact process_account process_submit)+

text \<open>
  C28. A \<^verbatim>\<open>send\<close> to a running node reaches its pool.  If the wallet file loads, the account (with
  balance and nonce below \<open>2 ^ 63\<close>) covers the amount on the committed chain and has nothing pending, and the pool has room, then the command asks
  the node for the next nonce, submits the signed transaction, prints its id and exits with zero; the
  node goes on in a run whose pool has exactly this transaction more, at the end.
\<close>

theorem send_reaches_pool:
  assumes run: "node_run vf t0 s" and seq: "unat (mp_next_seq (tn_pool s)) + 1 < 2 ^ 64"
    and args: "opt argv 2 ''--to'' = to_hex to" "length to = 20" "opt argv 2 ''--amount'' = amt" "amt \<noteq> []"
      "opt argv 2 ''--key'' = key" "key \<noteq> []" "parse_node (opt argv 2 ''--node'') = Some (host, port)"
    and wallet: "wallet_load d picojson key (fs key) = Returns wl" "wr_wallet wl = Some (wallet_of_seed d seed)"
    and backend: "backend_ok d sg vf" "address (d seed) \<noteq> kNullAddr"
    and acc: "account (tn_chain s) (address (d seed)) = acc" "strtoull amt \<le> acc_balance acc" "small (acc_nonce acc)"
      "small (acc_balance acc)"
    and t: "t = sign_txn d sg seed to (strtoull amt) (acc_nonce acc)"
    and free: "\<not> hasPending (tn_pool s) (address (d seed))" "\<not> mp_contains (tn_pool s) (txid t)" "mp_size (tn_pool s) < 4096"
  shows "\<exists>s'. run_send vf d sg ub picojson (process_http vf) fs now_s argv s = (Returns (prints 0 (to_hex (txid t))), s') \<and>
    node_run vf t0 s' \<and> tn_chain s' = tn_chain s \<and> pending_txns (tn_pool s') = pending_txns (tn_pool s) @ [t]"
proof -
  have inv: "mempool_inv vf (tn_pool s)" "mp_cap (tn_pool s) = 4096"
    using node_run_inv [OF run] by (simp_all add: node_inv_def)
  have room: "mp_size (tn_pool s) < mp_cap (tn_pool s)" using free(3) inv(2) by simp
  note send = process.send_admitted [of argv to amt key host port d picojson fs wl seed sg vf t s, unfolded acc(1),
    OF args wallet backend t acc(2,3) free(1,2) room picojson_account [OF acc(4,3,3)] picojson_txid]
  have "set_pool (admitted (tn_pool s) t) s = snd (rpc_call vf ''POST'' ''/tx'' (to_hex (serialize_txn t)) s)"
    using process_submit [OF send(3,2), of h p for h p] by (simp add: process_http_def split: prod.splits)
  then have "node_run vf t0 (set_pool (admitted (tn_pool s) t) s)" using run_request [OF run seq] by metis
  moreover have "pending_txns (admitted (tn_pool s) t) = pending_txns (tn_pool s) @ [t]"
    by (rule admit_pending [OF inv(1) seq send(2)])
  ultimately show ?thesis
    unfolding send(1) by (simp add: set_pool_def tn_chain_def)
qed

section \<open>A sample exchange\<close>

text \<open>
  The sample node has mined its first block, whose reward the demo wallet sends on.
\<close>

definition demo_argv :: "string list" where
  "demo_argv = [''txchain'', ''send'', ''--to'', to_hex kNullAddr, ''--amount'', ''7'', ''--node'', ''h:80'', ''--key'', ''k'']"

definition demo_wallet :: wallet where
  "demo_wallet = wallet_of_seed (derive_pubkey toy_ref10) sample_pub"

definition demo_files :: files where
  "demo_files path = (if path = ''k'' then Some \<lparr>wf_mode = 384, wf_text = Some (wallet_text demo_wallet)\<rparr> else None)"

lemma demo_args:
  "opt demo_argv 2 ''--to'' = to_hex kNullAddr" "opt demo_argv 2 ''--amount'' = ''7''"
  "opt demo_argv 2 ''--key'' = ''k''" "opt demo_argv 2 ''--node'' = ''h:80''"
  "parse_node ''h:80'' = Some (''h'', 80)"
proof -
  have "to_hex kNullAddr = replicate 40 CHR ''0''" by code_simp
  then show "opt demo_argv 2 ''--to'' = to_hex kNullAddr" "opt demo_argv 2 ''--amount'' = ''7''"
    "opt demo_argv 2 ''--key'' = ''k''" "opt demo_argv 2 ''--node'' = ''h:80''"
    by (simp_all add: demo_argv_def opt_def numeral_eq_Suc)
qed (simp add: parse_node_def demo_numbers)

lemma demo_wallet_loads:
  "wallet_load (derive_pubkey toy_ref10) picojson ''k'' (demo_files ''k'') = Returns
     \<lparr>wr_ok = True, wr_wallet = Some (wallet_of_seed (derive_pubkey toy_ref10) sample_pub), wr_error = [], wr_world_readable = False\<rparr>"
  using load_wallet_text [of sample_pub "derive_pubkey toy_ref10" "''k''"]
  by (simp add: demo_files_def demo_wallet_def toy_derive sample_pub_def)

lemma sample_mined: "\<exists>s. node_run vf 1704067202 s \<and> tn_pool s = new_mempool 4096 \<and> tn_chain s = sample_chain"
proof -
  obtain s where s: "pow_commit vf (io_fine (length (block_line sample_found))) 1704067202 (Some sample_found) sample_grind = Some s"
    "tn_chain s = sample_chain" "tn_pool s = new_mempool 4096" by (rule sample_commit)
  have "node_run vf 1704067202 s"
    using run_commit [OF sample_grinds sample_grind_sel(1) _ sample_room _ _ s(1), of "\<lambda>_. False"] sample_search
    by (simp add: sample_grind_sel sample_cfg_def clock_ok_def MAX_CLOCK_SKEW_S_def)
  with s(2,3) show ?thesis by blast
qed

theorem send_reaches_pool_witness:
  "let acc = \<lparr>acc_balance = 50, acc_nonce = 0\<rparr>;
       t = sign_txn (derive_pubkey toy_ref10) (sign toy_ref10) sample_pub kNullAddr 7 0
   in \<exists>s s'. node_run (verify toy_ref10) 1704067202 s \<and> length (ch_blocks (tn_chain s)) = 2 \<and>
     run_send (verify toy_ref10) (derive_pubkey toy_ref10) (sign toy_ref10) (\<lambda>_. 0) picojson
        (process_http (verify toy_ref10)) demo_files 0 demo_argv s = (Returns (prints 0 (to_hex (txid t))), s') \<and>
     node_run (verify toy_ref10) 1704067202 s' \<and> pending_txns (tn_pool s') = [t]"
proof -
  let ?acc = "\<lparr>acc_balance = 50, acc_nonce = 0\<rparr>"
  have a: "address (derive_pubkey toy_ref10 sample_pub) = sample_addr" by (simp add: toy_derive sample_addr_def sample_pub_def)
  obtain s where s: "node_run (verify toy_ref10) 1704067202 s" "tn_pool s = new_mempool 4096"
    "tn_chain s = sample_chain"
    using sample_mined by blast
  have acc: "account (tn_chain s) (address (derive_pubkey toy_ref10 sample_pub)) = ?acc"
    by (simp add: a s(3) account_def credit_def ledger_simps sample_not_genesis no_account_def)
  have len: "length (ch_blocks (tn_chain s)) = 2" by (simp add: s(3))
  let ?t = "sign_txn (derive_pubkey toy_ref10) (sign toy_ref10) sample_pub kNullAddr 7 0"
  have "\<exists>s'. run_send (verify toy_ref10) (derive_pubkey toy_ref10) (sign toy_ref10) (\<lambda>_. 0) picojson
        (process_http (verify toy_ref10)) demo_files 0 demo_argv s = (Returns (prints 0 (to_hex (txid ?t))), s') \<and>
     node_run (verify toy_ref10) 1704067202 s' \<and> tn_chain s' = tn_chain s \<and>
     pending_txns (tn_pool s') = pending_txns (tn_pool s) @ [?t]"
    by (rule send_reaches_pool [where amt = "''7''" and key = "''k''" and host = "''h''" and port = 80
          and seed = sample_pub and to = kNullAddr and d = "derive_pubkey toy_ref10" and sg = "sign toy_ref10"
          and vf = "verify toy_ref10" and fs = demo_files and argv = demo_argv and s = s and acc = ?acc,
          OF s(1) _ demo_args(1) _ demo_args(2) _ demo_args(3) _ _ demo_wallet_loads _ toy_ok _ acc])
      (simp_all add: a s(2) demo_args demo_numbers small_def new_mempool_def hasPending_def
        mp_contains_def mp_size_def kNullAddr_def sample_addr_not_null [unfolded kNullAddr_def])
  then show ?thesis using s(1,2) len unfolding Let_def by (metis append_Nil pending_new)
qed

end
