(* ===== verification/Node_Http.thy ===== *)
theory Node_Http
  imports Http_Server Node_Send
begin

text \<open>
  The request thread of a node: the accept loop with the request surface of the process as its handler.
  Every pass of the loop is at most one request step of a run, whatever bytes arrive.
\<close>

lemma rpc_call_pool:
  assumes "mempool_inv vf (tn_pool s)" "unat (mp_next_seq (tn_pool s)) + 1 < 2 ^ 64"
  shows "tn_node (snd (rpc_call vf meth target body s)) = tn_node s"
    "pending_txns (tn_pool (snd (rpc_call vf meth target body s))) = pending_txns (tn_pool s) \<or>
     (\<exists>x. wf_txn x \<and> pending_txns (tn_pool (snd (rpc_call vf meth target body s))) = pending_txns (tn_pool s) @ [x])"
proof -
  let ?m = "snd (handle_request vf (account (tn_chain s)) (rpc_context_of s) meth target body (tn_pool s))"
  have s': "snd (rpc_call vf meth target body s) = s\<lparr>tn_pool := ?m\<rparr>"
    by (simp add: rpc_call_def split: prod.split)
  show "tn_node (snd (rpc_call vf meth target body s)) = tn_node s" by (simp add: s')
  show "pending_txns (tn_pool (snd (rpc_call vf meth target body s))) = pending_txns (tn_pool s) \<or>
      (\<exists>x. wf_txn x \<and> pending_txns (tn_pool (snd (rpc_call vf meth target body s))) = pending_txns (tn_pool s) @ [x])"
    unfolding s' using request_pool [of vf "account (tn_chain s)" "rpc_context_of s" meth target body "tn_pool s"]
      admit_pending [OF assms] by auto
qed

text \<open>
  C32. No connection can harm a node.  Whatever arrives on a connection of the request thread, in
  whatever chunks and however it ends, a pass of the accept loop that returns leaves the node in a
  state of a run: the chain and the block file are as before, and the pool is as before or has one
  well-formed transaction more, at the end.
\<close>

theorem accept_pass_safe:
  assumes run: "node_run vf t s" and seq: "unat (mp_next_seq (tn_pool s)) + 1 < 2 ^ 64"
    and pass: "server_pass (rpc_call vf) ev s = Some (outs, s')"
  shows "node_run vf t s' \<and> tn_node s' = tn_node s \<and>
    (pending_txns (tn_pool s') = pending_txns (tn_pool s) \<or>
     (\<exists>x. wf_txn x \<and> pending_txns (tn_pool s') = pending_txns (tn_pool s) @ [x]))"
proof -
  have inv: "mempool_inv vf (tn_pool s)" using node_run_inv [OF run] by (simp add: node_inv_def)
  from server_pass_call [OF pass] consider "s' = s" | m u b where "s' = snd (rpc_call vf m u b s)" by blast
  then show ?thesis
  proof cases
    case 1
    with run show ?thesis by simp
  next
    case 2
    with run_request [OF run seq] rpc_call_pool [OF inv seq] show ?thesis by blast
  qed
qed

text \<open>A signed transaction submitted to the sample node in two chunks.\<close>

definition demo_txn :: txn where
  "demo_txn = sign_txn (derive_pubkey toy_ref10) (sign toy_ref10) sample_pub kNullAddr 7 0"

definition demo_request :: string where
  "demo_request = http_request_text ''POST'' ''node'' ''/tx'' (to_hex (serialize_txn demo_txn))"

lemma demo_admitted:
  assumes "tn_pool s = new_mempool 4096"
    and "tn_chain s = appended (new_chain 1 COINBASE_REWARD) sample_found (credit (applyGenesis []) sample_addr 50)"
  shows "\<exists>s'. rpc_call (verify toy_ref10) ''POST'' ''/tx'' (to_hex (serialize_txn demo_txn)) s =
      (\<lparr>rr_status = 200, rr_body = render (txid_json (txid demo_txn))\<rparr>, s')" "wf_txn demo_txn"
proof -
  let ?d = "derive_pubkey toy_ref10" and ?look = "account (tn_chain s)"
  have a: "address (?d sample_pub) = sample_addr" "length sample_pub = 32" by (simp_all add: toy_derive sample_addr_def sample_pub_def)
  have acc: "?look sample_addr = \<lparr>acc_balance = 50, acc_nonce = 0\<rparr>"
    by (simp add: assms(2) account_def credit_def ledger_simps sample_not_genesis no_account_def)
  have adm: "admit (verify toy_ref10) ?look (tn_pool s) demo_txn = (A_OK, admitted (tn_pool s) demo_txn)" "wf_txn demo_txn"
    using sign_txn_admitted [where lookup = ?look and vf = "verify toy_ref10" and m = "tn_pool s" and seed = sample_pub
        and d = ?d and s = "sign toy_ref10" and to = kNullAddr and x = 7 and n = 0, OF toy_ok a(2) _ _ demo_txn_def]
    by (simp_all add: a acc assms(1) new_mempool_def hasPending_def mp_contains_def mp_size_def kNullAddr_def
        sample_addr_not_null [unfolded kNullAddr_def])
  show "\<exists>s'. rpc_call (verify toy_ref10) ''POST'' ''/tx'' (to_hex (serialize_txn demo_txn)) s =
      (\<lparr>rr_status = 200, rr_body = render (txid_json (txid demo_txn))\<rparr>, s')" "wf_txn demo_txn"
    using submit_route [OF adm(2), of "[]" "[]" "verify toy_ref10" ?look "rpc_context_of s" "tn_pool s"] adm
    by (simp_all add: rpc_call_def)
qed

theorem accept_pass_safe_witness:
  "\<exists>s s' out ws. server_pass (rpc_call (verify toy_ref10))
       (Conn [R_DATA (take 7 demo_request), R_DATA (drop 7 demo_request)] ws) s = Some ([out], s') \<and>
     out = http_response_text \<lparr>rr_status = 200, rr_body = render (txid_json (txid demo_txn))\<rparr> \<and>
     node_run (verify toy_ref10) 1704067202 s' \<and> tn_node s' = tn_node s"
proof -
  let ?vf = "verify toy_ref10" and ?resp = "\<lparr>rr_status = 200, rr_body = render (txid_json (txid demo_txn))\<rparr>"
  let ?evs = "[R_DATA (take 7 demo_request), R_DATA (drop 7 demo_request)]" and ?body = "to_hex (serialize_txn demo_txn)"
  obtain s where s: "node_run ?vf 1704067202 s" "tn_pool s = new_mempool 4096"
    "tn_chain s = appended (new_chain 1 COINBASE_REWARD) sample_found (credit (applyGenesis []) sample_addr 50)"
    using sample_mined by blast
  obtain s' where r: "rpc_call ?vf ''POST'' ''/tx'' ?body s = (?resp, s')" using demo_admitted(1) [OF s(2,3)] by blast
  have "length ?body = 2 * kTxnSize"
    using demo_admitted(2) [OF s(2,3)] by (simp add: wf_txn_def length_serialize_txn)
  moreover have "length (to_string (2 * kTxnSize)) \<le> 10" by (simp add: kTxnSize_def to_string.simps)
  ultimately have len: "7 < length demo_request" "length demo_request \<le> kMaxRequestBytes"
    by (simp_all add: demo_request_def http_request_text_def CRLF_def kMaxRequestBytes_def kTxnSize_def)
  let ?ws = "[W_N (length (http_response_text ?resp))]"
  have "take 7 demo_request \<noteq> []" "drop 7 demo_request \<noteq> []" using len(1) by auto
  then have "serve_connection (rpc_call ?vf) ?evs ?ws s = Some (http_response_text ?resp, s')"
    by (intro serve_request [where meth = "''POST''" and host = "''node''" and path = "''/tx''" and body = ?body
          and handler = "rpc_call ?vf" and s = s and s' = s' and resp = ?resp])
      (use r len in \<open>simp_all add: token_def demo_request_def [symmetric]\<close>)
  then have pass: "server_pass (rpc_call ?vf) (Conn ?evs ?ws) s = Some ([http_response_text ?resp], s')"
    by (simp add: server_pass_def)
  moreover have "unat (mp_next_seq (tn_pool s)) + 1 < 2 ^ 64" by (simp add: s(2) new_mempool_def)
  ultimately show ?thesis using accept_pass_safe [OF s(1) _ pass] by blast
qed

end
