(* ===== verification/Node_Life.thy ===== *)
theory Node_Life
  imports Node_Sample
begin

text \<open>
  The properties of a node over all its runs: the invariant of chain and pool, the types and bounds of
  what it holds, and the commit of every block the search finds.  The witnesses run the sample node.
\<close>

section \<open>What holds in every run\<close>

text \<open>
  C31. In every run of a node, from any block file it starts on and under any interleaving of requests
  with the sections of its mining modes, the chain is a reachable one, the three indexes of the pool
  agree, and every pending transaction passes the consensus gate on the current tip as it stands.
\<close>

theorem node_invariant:
  assumes "node_run vf t s"
  shows "chain_reach vf (cfg_difficulty (tn_cfg s)) (node_reward (tn_cfg s)) t (tn_chain s) \<and>
    mempool_inv vf (tn_pool s) \<and>
    list_all (\<lambda>x. applyTxn vf (ch_state (tn_chain s)) x idx ti = (OK, moved (ch_state (tn_chain s)) x))
      (pending_txns (tn_pool s))"
proof -
  note inv = node_run_inv [OF assms]
  have "applyTxn vf (ch_state (tn_chain s)) x idx ti = (OK, moved (ch_state (tn_chain s)) x)"
    if x: "x \<in> set (pending_txns (tn_pool s))" for x
  proof -
    have "tx_from x \<noteq> kNullAddr" "transfer_ok vf (ch_state (tn_chain s)) x"
      using inv pool.pending_authentic [of vf "tn_pool s" x] x
      by (auto simp: node_inv_def executable_def list_all_iff authentic_def)
    then show ?thesis by (simp add: applyTxn_transfer_OK_iff)
  qed
  with inv show ?thesis by (simp add: node_inv_def list_all_iff)
qed

theorem node_invariant_witness:
  "chain_reach any_sig 1 COINBASE_REWARD 1704067201 (new_chain 1 COINBASE_REWARD) \<and> mempool_inv any_sig (tn_pool sample_grind)"
  using node_invariant [OF sample_grinds]
  by (simp add: sample_grind_def tn_cfg_def tn_chain_def sample_up_def fresh_node_def sample_cfg_def node_reward_def)

text \<open>
  C34. Every value a run holds has its type: the arrays of every block, pending transaction and of the
  miner's address have their fixed widths, whatever files and request bodies it has read.
\<close>

theorem node_typed:
  assumes "node_run vf t s"
  shows "list_all block_widths (ch_blocks (tn_chain s)) \<and> list_all wf_txn (pending_txns (tn_pool s)) \<and>
    length (tn_miner s) = 20"
  using node_run_inv [OF assms] chain_reach_widths by (auto simp: node_inv_def)

theorem node_typed_witness: "list_all block_widths (ch_blocks (tn_chain sample_grind)) \<and> length (tn_miner sample_grind) = 20"
  using node_typed [OF sample_grinds] by blast

lemma chain_reach_sizes:
  assumes "chain_reach vf D R t c" "clock_ok t"
  shows "list_all (\<lambda>b. length (blk_txns b) \<le> MAX_TXNS_PER_BLOCK) (ch_blocks c)"
proof -
  obtain bs where bs: "ch_blocks c = genesisBlock # bs" "replays vf t D R bs (ch_state c)"
    using chain_reach_replays [OF assms(1) order.refl assms(2)] by blast
  have "length (blk_txns (bs ! k)) \<le> MAX_TXNS_PER_BLOCK" if "k < length bs" for k
    using replays_accepts [OF bs(2) that] by (auto simp: block_accepts_def)
  then have "list_all (\<lambda>b. length (blk_txns b) \<le> MAX_TXNS_PER_BLOCK) bs" by (simp add: list_all_length)
  then show ?thesis by (simp add: bs(1))
qed

lemma pending_count:
  assumes inv: "mempool_inv vf m"
  shows "length (pending_txns m) \<le> mp_cap m"
proof -
  have "length (sortedBySeq m) = card (set (sortedBySeq m))"
    using distinct_pending [OF inv] by (simp add: pending_txns_def distinct_card [symmetric] distinct_map)
  also have "\<dots> \<le> card (snd ` set (mp_byTxid m))"
    using sortedBySeq_view [OF inv] by (intro card_mono) (force simp: ran_def dest!: map_of_SomeD)+
  also have "\<dots> \<le> length (mp_byTxid m)" by (metis card_image_le finite_set card_length le_trans)
  finally show ?thesis using inv by (simp add: pending_txns_def mempool_inv_def mp_size_def)
qed

text \<open>
  C35. The memory of a run is bounded: its pool never holds more than 4096 transactions, no two of
  one sender, and no block of its chain more than eight.
\<close>

theorem node_bounds:
  assumes "node_run vf t s"
  shows "length (pending_txns (tn_pool s)) \<le> 4096 \<and> distinct (map tx_from (pending_txns (tn_pool s))) \<and>
    list_all (\<lambda>b. length (blk_txns b) \<le> MAX_TXNS_PER_BLOCK) (ch_blocks (tn_chain s))"
  using node_run_inv [OF assms] pending_count [of vf "tn_pool s"] pending_distinct [of vf "tn_pool s"] chain_reach_sizes
  unfolding node_inv_def by metis

theorem node_bounds_witness: "length (pending_txns (tn_pool sample_grind)) \<le> 4096"
  using node_bounds [OF sample_grinds] by blast

text \<open>
  C36. What the search finds is committed.  When the search of a run ends with a block whose timestamp
  is after the tip's and within the clock skew, the commit section appends exactly this block,
  reports it, and leaves in the pool exactly the transactions that are not in the block: no request
  that came in during the search can spoil the block or get lost.
\<close>

theorem found_block_lands:
  assumes run: "node_run vf t s" and cand: "tn_grinding s = Some cand"
    and mined: "mine stop cand (cfg_difficulty (tn_cfg s)) = Some (Some b)"
    and time: "bh_timestamp (blk_header (last (ch_blocks (tn_chain s)))) < bh_timestamp (blk_header b)"
      "bh_timestamp (blk_header b) \<le> now_s + MAX_CLOCK_SKEW_S"
    and io: "appendBlock io (nd_file (tn_node s)) b = Some (ok, f)"
  shows "\<exists>s'. pow_commit vf io now_s (Some b) s = Some s' \<and>
    ch_blocks (tn_chain s') = ch_blocks (tn_chain s) @ [b] \<and> tn_grinding s' = None \<and>
    pending_txns (tn_pool s') = filter (\<lambda>x. x \<notin> set (blk_txns b)) (pending_txns (tn_pool s)) \<and>
    (\<exists>line. tn_log s' = tn_log s @ [line])"
proof -
  note inv = node_run_inv [OF run]
  obtain mp now0 where mp: "mempool_inv vf mp"
    and c: "cand = buildCandidate (tn_miner s) (height (tn_chain s)) (tipHash (tn_chain s))
      (bh_timestamp (blk_header (last (ch_blocks (tn_chain s))))) now0 mp (account (tn_chain s))"
    using inv cand by (auto simp: node_inv_def candidate_ok_def)
  have D: "ch_difficulty (tn_chain s) = cfg_difficulty (tn_cfg s)"
    using inv chain_reach_params by (auto simp: node_inv_def)
  obtain w where w: "tip_accepts vf (tn_chain s) b now_s w"
    using mined_connects [OF mp c refl _ time] mined D by auto
  obtain new where new: "blk_txns b = [coinbaseTxn (tn_miner s) (height (tn_chain s) + 1)] @ new" "distinct new"
    "set new \<subseteq> set (pending_txns (tn_pool s))" by (rule mined_block [OF inv cand mined])
  have tip: "height (tn_chain s) + 1 = bh_index (blk_header b) \<and> tipHash (tn_chain s) = bh_prevHash (blk_header b)"
    using w by (simp add: tip_accepts_def block_accepts_def next_index)
  let ?nd = "(tn_node s)\<lparr>nd_chain := appended (tn_chain s) b w, nd_file := f\<rparr>"
  have "connectBlock vf (tn_chain s) b now_s = (OK, appended (tn_chain s) b w)" using w by (auto simp: connectBlock_OK_iff)
  then have commit: "commitBlock vf io (tn_node s) b now_s = Some (OK, ?nd)"
    using io by (simp add: commitBlock_def node_append_def tn_chain_def Let_def)
  have pool: "mempool_inv vf (tn_pool s)" using inv by (simp add: node_inv_def)
  have cb: "coinbaseTxn (tn_miner s) (height (tn_chain s) + 1) \<notin> set (pending_txns (tn_pool s))"
    using pool.pending_authentic [OF pool, of "coinbaseTxn (tn_miner s) (height (tn_chain s) + 1)"]
    by (auto simp: authentic_def)
  have "filter (\<lambda>x. x \<notin> set new) (pending_txns (tn_pool s)) = filter (\<lambda>x. x \<notin> set (blk_txns b)) (pending_txns (tn_pool s))"
    using cb new(1) by (auto intro!: filter_cong)
  then have pend: "pending_txns (evictIncluded (tn_pool s) new) = filter (\<lambda>x. x \<notin> set (blk_txns b)) (pending_txns (tn_pool s))"
    using evict_pending [OF pool new(2,3)] by simp
  have evict: "(if length (blk_txns b) > 1 then evictIncluded (tn_pool s) (drop 1 (blk_txns b)) else tn_pool s) =
      evictIncluded (tn_pool s) new"
    using new(1) by (cases new) (simp_all add: evictIncluded_def)
  have left: "length (blk_txns b) > 1 \<Longrightarrow> pending_txns (evictIncluded (tn_pool s) (drop 1 (blk_txns b))) =
      filter (\<lambda>x. x \<notin> set (blk_txns b)) (pending_txns (tn_pool s))"
    "\<not> length (blk_txns b) > 1 \<Longrightarrow> pending_txns (tn_pool s) = filter (\<lambda>x. x \<notin> set (blk_txns b)) (pending_txns (tn_pool s))"
    using evict pend by simp_all
  show ?thesis
    using tip commit left by (simp add: pow_commit_def Let_def tn_chain_def)
qed

theorem found_block_lands_witness:
  "\<exists>s'. pow_commit any_sig (io_fine (length (block_line sample_found))) 1704067202 (Some sample_found) sample_grind = Some s' \<and>
     ch_blocks (tn_chain s') = [genesisBlock, sample_found]"
proof -
  have g: "tn_grinding sample_grind = Some sample_cand" "cfg_difficulty (tn_cfg sample_grind) = 1"
    "ch_blocks (tn_chain sample_grind) = [genesisBlock]" "nd_file (tn_node sample_grind) = Some (block_line genesisBlock)"
    by (simp_all add: sample_grind_def sample_up_def fresh_node_def tn_cfg_def tn_chain_def sample_cfg_def)
  have io: "appendBlock (io_fine (length (block_line sample_found))) (nd_file (tn_node sample_grind)) sample_found =
      Some (True, Some (block_line genesisBlock @ block_line sample_found))"
    unfolding g(4) by (rule append_fine) simp
  have "bh_timestamp (blk_header sample_found) = 1704067201" by (simp add: sample_found_def sample_cand_def)
  then show ?thesis
    using found_block_lands [OF sample_grinds g(1) _ _ _ io, of "\<lambda>_. False" 1704067202] sample_search g(2,3)
    by (auto simp: GENESIS_TIMESTAMP_def MAX_CLOCK_SKEW_S_def)
qed

lemma filter_take: "distinct xs \<Longrightarrow> filter (\<lambda>x. x \<notin> set (take n xs)) xs = drop n xs"
proof -
  assume d: "distinct xs"
  have "filter (\<lambda>x. x \<notin> set (take n xs)) (take n xs @ drop n xs) = drop n xs"
    using d set_take_disj_set_drop_if_distinct [OF d order.refl, of n]
    by (subst filter_append) (auto simp: filter_id_conv filter_empty_conv disjoint_iff)
  then show ?thesis by simp
qed

text \<open>The block a tick assembles at difficulty zero from pending transactions is accepted.\<close>

lemma sealed_connects:
  assumes inv: "node_inv vf now_s s" and D: "cfg_difficulty (tn_cfg s) = 0" and room: "room s (batch_of s)"
    and clock: "clock_ok now_s"
    and tip: "unat (bh_timestamp (blk_header (last (ch_blocks (tn_chain s))))) < unat now_s + unat MAX_CLOCK_SKEW_S"
  shows "\<exists>w. connectBlock vf (tn_chain s) (sealed_block (tn_chain s) now_s (batch_of s)) now_s =
    (OK, appended (tn_chain s) (sealed_block (tn_chain s) now_s (batch_of s)) w)"
proof -
  let ?c = "tn_chain s" and ?ps = "pending_txns (tn_pool s)" and ?b = "sealed_block (tn_chain s) now_s (batch_of s)"
  let ?tip = "bh_timestamp (blk_header (last (ch_blocks ?c)))"
  have reach: "chain_reach vf 0 0 now_s ?c" and pool: "mempool_inv vf (tn_pool s)"
    and ex: "executable vf (ch_state ?c) (tn_pool s)"
    using inv D by (simp_all add: node_inv_def node_reward_def)
  note par = chain_reach_params [OF reach]
  obtain bs where "replays vf now_s 0 0 bs (ch_state ?c)" using chain_reach_replays [OF reach order.refl clock] by blast
  then have wf: "wf_ledger (ch_state ?c)" by (rule replays_wf)
  have batch: "batch_of s = take MAX_TXNS_PER_BLOCK ?ps" by (rule batch_of_eq)
  have "list_all (\<lambda>x. transfer_ok vf (ch_state ?c) x \<and> tx_from x \<noteq> kNullAddr) ?ps"
    using ex pool.pending_all_authentic [OF pool] by (auto simp: executable_def list_all_iff authentic_def)
  then have "list_all (\<lambda>x. transfer_ok vf (ch_state ?c) x \<and> tx_from x \<noteq> kNullAddr) (batch_of s)"
    unfolding batch by (auto simp: list_all_iff dest: in_set_takeD)
  moreover have "distinct (map tx_from (batch_of s))" using pending_distinct [OF pool] by (simp add: batch flip: take_map)
  ultimately obtain w where w: "block_loop vf (height ?c + 1) (ch_state ?c) 0 0 (batch_of s) = Inr (0, w)"
    using block_loop_accepts [OF _ _ wf] room unfolding room_def by blast
  have tip_blk: "ch_blocks ?c ! unat (height ?c) = last (ch_blocks ?c)" by (rule tip_block [OF reach order.refl clock])
  have skew: "unat (now_s + MAX_CLOCK_SKEW_S) = unat now_s + unat MAX_CLOCK_SKEW_S"
    using clock by (simp add: clock_ok_def unat_add_lem [THEN iffD1])
  have next_ts: "unat (?tip + 1) = unat ?tip + 1"
    using clock tip by (subst unat_add_lem [THEN iffD1]) (simp_all add: clock_ok_def)
  have lo: "?tip < max now_s (?tip + 1)" using clock tip by (intro less_max_succ) (simp add: clock_ok_def)
  have hi: "max now_s (?tip + 1) \<le> now_s + MAX_CLOCK_SKEW_S"
    using next_ts skew tip by (simp only: max.bounded_iff word_le_nat_alt)
  have acc: "tip_accepts vf ?c ?b now_s w"
    using lo hi w par
    by (simp add: tip_accepts_def block_accepts_def sealed_block_def tip_blk next_index [symmetric] computeTxnsHash_def
        meets_difficulty_0 applyBlockTxns_def bar_ok_def batch)
  then show ?thesis by (auto simp: connectBlock_OK_iff)
qed

text \<open>A tip at the edge of the clock skew leaves no timestamp for a block above it.\<close>

lemma edge_refused:
  assumes inv: "node_inv vf now_s s" and clock: "clock_ok now_s"
    and edge: "\<not> unat (bh_timestamp (blk_header (last (ch_blocks (tn_chain s))))) < unat now_s + unat MAX_CLOCK_SKEW_S"
  obtains r where "commitBlock vf io (tn_node s) (sealed_block (tn_chain s) now_s txns) now_s = Some (r, tn_node s)" "r \<noteq> OK"
proof -
  let ?c = "tn_chain s" and ?b = "sealed_block (tn_chain s) now_s txns"
  let ?tip = "bh_timestamp (blk_header (last (ch_blocks ?c)))"
  have "chain_reach vf (cfg_difficulty (tn_cfg s)) (node_reward (tn_cfg s)) now_s ?c" using inv by (simp add: node_inv_def)
  then have tip_blk: "ch_blocks ?c ! unat (height ?c) = last (ch_blocks ?c)" by (rule tip_block [OF _ order.refl clock])
  have skew: "unat (now_s + MAX_CLOCK_SKEW_S) = unat now_s + unat MAX_CLOCK_SKEW_S"
    using clock by (simp add: clock_ok_def unat_add_lem [THEN iffD1])
  have "\<not> tip_accepts vf ?c ?b now_s w" for w
  proof
    assume "tip_accepts vf ?c ?b now_s w"
    then have t: "?tip < bh_timestamp (blk_header ?b)" "bh_timestamp (blk_header ?b) \<le> now_s + MAX_CLOCK_SKEW_S"
      by (simp_all add: tip_accepts_def block_accepts_def)
    have "unat (bh_timestamp (blk_header ?b)) \<le> unat ?tip"
      using t edge skew by (simp add: word_le_nat_alt)
    with t(1) show False by (simp add: word_less_nat_alt)
  qed
  then obtain r c where c: "connectBlock vf ?c ?b now_s = (r, c)" "r \<noteq> OK"
    by (cases "connectBlock vf ?c ?b now_s") (metis connectBlock_OK_iff)
  then have "commitBlock vf io (tn_node s) ?b now_s = Some (r, tn_node s)"
    using connectBlock_fail [OF c] by (simp add: commitBlock_def tn_chain_def Let_def)
  with c(2) show thesis by (rule that [rotated])
qed

text \<open>
  C37. What a due tick does in the cadence mode, with a full or an empty pool and whatever
  \<^verbatim>\<open>seal_empty\<close> says.  If the timestamp of the tip is not at the end of the clock skew, the tick appends a block with exactly the
  first eight pending transactions and leaves exactly the others pending, in order.  If it is (the
  tip moves a second per block, so a cadence of less than a second gets there), the tick changes
  neither chain nor pool nor file, prints nothing, and starts the cadence anew.
\<close>

theorem due_tick_seals:
  assumes run: "node_run vf t s" and due: "\<not> pow_mode (tn_cfg s)" "should_seal_now (tn_cfg s) (now_ms - tn_last_seal_ms s) 0"
    and room: "room s (batch_of s)" and now: "t \<le> now_s" "clock_ok now_s"
    and io: "\<And>b. \<exists>ok f. appendBlock io (nd_file (tn_node s)) b = Some (ok, f)"
  shows "if unat (bh_timestamp (blk_header (last (ch_blocks (tn_chain s))))) < unat now_s + unat MAX_CLOCK_SKEW_S
    then \<exists>s' b. cadence_tick vf io now_s now_ms end_ms s = Some s' \<and>
      ch_blocks (tn_chain s') = ch_blocks (tn_chain s) @ [b] \<and>
      blk_txns b = take MAX_TXNS_PER_BLOCK (pending_txns (tn_pool s)) \<and>
      pending_txns (tn_pool s') = drop MAX_TXNS_PER_BLOCK (pending_txns (tn_pool s))
    else cadence_tick vf io now_s now_ms end_ms s = Some (s\<lparr>tn_last_seal_ms := end_ms\<rparr>)"
proof (cases "unat (bh_timestamp (blk_header (last (ch_blocks (tn_chain s))))) < unat now_s + unat MAX_CLOCK_SKEW_S")
  case False
  have "node_inv vf now_s s" by (rule node_inv_later [OF node_run_inv [OF run] now])
  from edge_refused [OF this now(2) False] obtain r where
    "seal_next_block vf io (tn_node s) now_s (drain (sortedBySeq (tn_pool s)) []) = Some (r, tn_node s)" "r \<noteq> OK"
    by (metis seal_commit tn_chain_def)
  with False due(2) show ?thesis by (simp add: cadence_tick_def Let_def)
next
  case tip: True
  have inv: "node_inv vf now_s s" by (rule node_inv_later [OF node_run_inv [OF run] now])
  let ?c = "tn_chain s" and ?ps = "pending_txns (tn_pool s)" and ?b = "sealed_block (tn_chain s) now_s (batch_of s)"
  have pool: "mempool_inv vf (tn_pool s)" using inv by (simp add: node_inv_def)
  have batch: "batch_of s = take MAX_TXNS_PER_BLOCK ?ps" by (rule batch_of_eq)
  have D: "cfg_difficulty (tn_cfg s) = 0"
    using due by (auto simp: pow_mode_def should_seal_now_def word_gt_0 split: if_splits)
  obtain w where "connectBlock vf ?c ?b now_s = (OK, appended ?c ?b w)"
    using sealed_connects [OF inv D room now(2) tip] by blast
  moreover obtain ok f where "appendBlock io (nd_file (tn_node s)) ?b = Some (ok, f)" using io by blast
  ultimately obtain nd where seal: "seal_next_block vf io (tn_node s) now_s (batch_of s) = Some (OK, nd)"
    and nd: "nd_chain nd = appended ?c ?b w"
    by (simp add: seal_commit commitBlock_def node_append_def tn_chain_def)
  have "(if batch_of s \<noteq> [] then evictIncluded (tn_pool s) (batch_of s) else tn_pool s) =
      evictIncluded (tn_pool s) (batch_of s)" by (simp add: evictIncluded_def)
  then obtain s' where s': "cadence_tick vf io now_s now_ms end_ms s = Some s'" "tn_node s' = nd"
    "tn_pool s' = evictIncluded (tn_pool s) (batch_of s)"
    using due(2) seal unfolding cadence_tick_def batch_of_def [symmetric] Let_def by simp
  have "pending_txns (evictIncluded (tn_pool s) (batch_of s)) = drop MAX_TXNS_PER_BLOCK ?ps"
    using evict_pending [OF pool, of "batch_of s"] distinct_pending [OF pool] filter_take [of ?ps]
      set_take_subset [of MAX_TXNS_PER_BLOCK ?ps]
    by (simp add: batch)
  moreover have "ch_blocks (tn_chain s') = ch_blocks ?c @ [?b]" using s'(2) nd by (simp add: tn_chain_def)
  moreover have "blk_txns ?b = take MAX_TXNS_PER_BLOCK ?ps" by (simp add: sealed_block_def batch)
  ultimately show ?thesis using s'(1,3) tip by (simp only: if_True) metis
qed

theorem due_tick_seals_witness:
  "\<exists>s' b. cadence_tick any_sig \<lparr>io_open = False, io_writes = [], io_fsync = False\<rparr> 1704067201 5000 5001 (fresh_node cadence_cfg) = Some s' \<and>
     ch_blocks (tn_chain s') = [genesisBlock, b] \<and> blk_txns b = []"
proof -
  have sel: "tn_cfg (fresh_node cadence_cfg) = cadence_cfg" "tn_last_seal_ms (fresh_node cadence_cfg) = 0"
    "ch_blocks (tn_chain (fresh_node cadence_cfg)) = [genesisBlock]" "tn_pool (fresh_node cadence_cfg) = new_mempool 4096"
    "ch_state (tn_chain (fresh_node cadence_cfg)) = applyGenesis []"
    by (simp_all add: fresh_node_def tn_cfg_def tn_chain_def)
  have "\<not> pow_mode cadence_cfg" "should_seal_now cadence_cfg 5000 0"
    by (simp_all add: pow_mode_def should_seal_now_def cadence_cfg_def default_config_def)
  moreover have "room (fresh_node cadence_cfg) (batch_of (fresh_node cadence_cfg))"
    by (simp add: room_def batch_of_eq sel)
  moreover have "\<exists>ok f. appendBlock \<lparr>io_open = False, io_writes = [], io_fsync = False\<rparr> old b = Some (ok, f)" for old b
    by (auto simp: appendBlock_def write_file_def)
  ultimately show ?thesis
    using due_tick_seals [where vf = any_sig and now_ms = 5000 and now_s = 1704067201 and end_ms = 5001
        and io = "\<lparr>io_open = False, io_writes = [], io_fsync = False\<rparr>", OF cadence_runs]
    by (simp add: sel GENESIS_TIMESTAMP_def MAX_CLOCK_SKEW_S_def) blast
qed

end
