(* ===== verification/Node_Main.thy ===== *)
theory Node_Main
  imports Node_Sample
begin

text \<open>
  The main loop of the node process (\<^verbatim>\<open>apps/txnode/main.cpp\<close>) over what each of its passes meets: the
  requests that get the lock before and during the search, the clock readings, the polls of the stop
  flag and the system calls of the append.  A run of the loop is a run of the node; and a node that
  was stopped after appends without an error is restarted with the chain it had.
\<close>

section \<open>The loop\<close>

type_synonym request = "string \<times> string \<times> string"

fun serve_requests :: "verifier \<Rightarrow> request list \<Rightarrow> txnode \<Rightarrow> txnode" where
  "serve_requests vf [] s = s"
| "serve_requests vf ((meth, target, body) # reqs) s = serve_requests vf reqs (snd (rpc_call vf meth target body s))"

record pass_input =
  pi_before :: "request list"
  pi_now_s :: u64
  pi_stop :: "nat \<Rightarrow> bool"
  pi_during :: "request list"
  pi_commit_s :: u64
  pi_io :: io
  pi_now_ms :: u64
  pi_end_ms :: u64

text \<open>
  One pass of the loop body; \<open>None\<close> if the pass does not come to its end.  The proof-of-work mode reads
  the clock for the candidate and for the commit, the cadence mode once for the sealed block.
\<close>

definition main_pass :: "verifier \<Rightarrow> pass_input \<Rightarrow> txnode \<Rightarrow> txnode option" where
  "main_pass vf i s =
     (if pow_mode (tn_cfg s) then
        let s = pow_snapshot (pi_now_s i) (serve_requests vf (pi_before i) s)
        in case tn_grinding s of
             None \<Rightarrow> None
           | Some cand \<Rightarrow>
               (case mine (pi_stop i) cand (cfg_difficulty (tn_cfg s)) of
                  None \<Rightarrow> None
                | Some mined \<Rightarrow> pow_commit vf (pi_io i) (pi_commit_s i) mined (serve_requests vf (pi_during i) s))
      else cadence_tick vf (pi_io i) (pi_commit_s i) (pi_now_ms i) (pi_end_ms i) (serve_requests vf (pi_before i) s))"

text \<open>
  At each test of \<^verbatim>\<open>g_stop\<close> the loop either goes through a pass or ends; then the request thread is
  stopped, which may still answer requests, and the last line is printed.  \<open>None\<close>: the loop has not
  ended with these turns.
\<close>

datatype turn = Pass pass_input | Stop "request list"

definition shut_down :: "txnode \<Rightarrow> txnode" where
  "shut_down s = s\<lparr>tn_log := tn_log s @ [node_down_line s]\<rparr>"

fun main_loop :: "verifier \<Rightarrow> turn list \<Rightarrow> txnode \<Rightarrow> txnode option" where
  "main_loop vf [] s = None"
| "main_loop vf (Stop reqs # _) s = Some (shut_down (serve_requests vf reqs s))"
| "main_loop vf (Pass i # turns) s =
     (case main_pass vf i s of None \<Rightarrow> None | Some s \<Rightarrow> main_loop vf turns s)"

text \<open>The whole process: its exit code, its lines, and the node as it was stopped.\<close>

datatype process_end = Exited int "string list" "txnode option" | Aborted "string list"

definition txnode_main :: "verifier \<Rightarrow> (double \<Rightarrow> u64) \<Rightarrow> json_parser \<Rightarrow> (byte list \<Rightarrow> byte list) \<Rightarrow>
    (string \<Rightarrow> string option) \<Rightarrow> key_pair option \<Rightarrow> io \<Rightarrow> io \<Rightarrow> bool \<Rightarrow> int option \<Rightarrow> string list \<Rightarrow>
    fcontent \<Rightarrow> wallet_file option \<Rightarrow> u64 \<Rightarrow> u64 \<Rightarrow> turn list \<Rightarrow> process_end option" where
  "txnode_main vf ub parse derive read_file kp io1 io2 chmod_ok bound argv f wallet_f now_s now_ms turns =
     (case txnode_start vf ub parse derive read_file kp io1 io2 chmod_ok bound argv f wallet_f now_s now_ms of
        None \<Rightarrow> None
      | Some (Exits code log) \<Rightarrow> Some (Exited code log None)
      | Some (Aborts log) \<Rightarrow> Some (Aborted log)
      | Some (Up s) \<Rightarrow> map_option (\<lambda>s. Exited 0 (tn_log s) (Some s)) (main_loop vf turns s))"

section \<open>The loop is a run of the node\<close>

lemma rpc_call_keeps [simp]:
  "tn_node (snd (rpc_call vf m u b s)) = tn_node s" "tn_grinding (snd (rpc_call vf m u b s)) = tn_grinding s"
  "tn_miner (snd (rpc_call vf m u b s)) = tn_miner s" "tn_log (snd (rpc_call vf m u b s)) = tn_log s"
  by (simp_all add: rpc_call_def split: prod.split)

lemma serve_keeps [simp]:
  "tn_node (serve_requests vf reqs s) = tn_node s" "tn_grinding (serve_requests vf reqs s) = tn_grinding s"
  "tn_miner (serve_requests vf reqs s) = tn_miner s" "tn_log (serve_requests vf reqs s) = tn_log s"
  by (induction vf reqs s rule: serve_requests.induct) simp_all

lemma serve_chain [simp]: "tn_chain (serve_requests vf reqs s) = tn_chain s" "tn_cfg (serve_requests vf reqs s) = tn_cfg s"
  by (simp_all add: tn_chain_def tn_cfg_def)

lemma rpc_call_seq:
  "unat (mp_next_seq (tn_pool s)) + 1 < 2 ^ 64 \<Longrightarrow>
   unat (mp_next_seq (tn_pool (snd (rpc_call vf m u b s)))) \<le> unat (mp_next_seq (tn_pool s)) + 1"
proof -
  assume "unat (mp_next_seq (tn_pool s)) + 1 < 2 ^ 64"
  then have one: "unat (mp_next_seq (tn_pool s) + 1) = unat (mp_next_seq (tn_pool s)) + 1"
    by (subst unat_add_lem [THEN iffD1]) simp_all
  have "tn_pool (snd (rpc_call vf m u b s)) =
      snd (handle_request vf (account (tn_chain s)) (rpc_context_of s) m u b (tn_pool s))"
    by (simp add: rpc_call_def split: prod.split)
  then consider "tn_pool (snd (rpc_call vf m u b s)) = tn_pool s"
    | t where "admit vf (account (tn_chain s)) (tn_pool s) t = (A_OK, tn_pool (snd (rpc_call vf m u b s)))"
    using request_pool [of vf "account (tn_chain s)" "rpc_context_of s" m u b "tn_pool s"] by auto
  then show ?thesis
  proof cases
    case (2 t)
    then have "tn_pool (snd (rpc_call vf m u b s)) = admitted (tn_pool s) t" by (auto simp: admit_eq split: if_splits)
    then show ?thesis using one by (simp add: admitted_def)
  qed simp
qed

lemma serve_run:
  "node_run vf t s \<Longrightarrow> unat (mp_next_seq (tn_pool s)) + length reqs < 2 ^ 64 \<Longrightarrow>
   node_run vf t (serve_requests vf reqs s) \<and>
   unat (mp_next_seq (tn_pool (serve_requests vf reqs s))) \<le> unat (mp_next_seq (tn_pool s)) + length reqs"
proof (induction vf reqs s rule: serve_requests.induct)
  case (2 vf m u b reqs s)
  let ?s = "snd (rpc_call vf m u b s)"
  have seq: "unat (mp_next_seq (tn_pool s)) + 1 < 2 ^ 64" using 2(3) by simp
  note le = rpc_call_seq [OF seq, of vf m u b]
  have "node_run vf t ?s" by (rule run_request [OF 2(2) seq])
  with 2(1) le 2(3) show ?case by (simp add: le_trans)
qed simp

text \<open>
  What a pass has to meet: clocks that do not run back, fewer requests than sequence numbers, and a
  supply that stays below the 64-bit range with the transactions of the block.
\<close>

definition pass_ok :: "verifier \<Rightarrow> u64 \<Rightarrow> pass_input \<Rightarrow> txnode \<Rightarrow> bool" where
  "pass_ok vf t i s \<longleftrightarrow>
     unat (mp_next_seq (tn_pool s)) + length (pi_before i) + length (pi_during i) < 2 ^ 64 \<and>
     t \<le> pi_commit_s i \<and> clock_ok (pi_commit_s i) \<and>
     (let s = serve_requests vf (pi_before i) s
      in if pow_mode (tn_cfg s) then
           t \<le> pi_now_s i \<and> pi_now_s i \<le> pi_commit_s i \<and>
           (let s = serve_requests vf (pi_during i) (pow_snapshot (pi_now_s i) s)
            in case tn_grinding s of None \<Rightarrow> True | Some cand \<Rightarrow>
                 pred_option (\<lambda>mined. room s (mined_txns mined)) (mine (pi_stop i) cand (cfg_difficulty (tn_cfg s))))
         else room s (batch_of s))"

fun turns_ok :: "verifier \<Rightarrow> u64 \<Rightarrow> turn list \<Rightarrow> txnode \<Rightarrow> bool" where
  "turns_ok vf t [] s = True"
| "turns_ok vf t (Stop reqs # _) s = (unat (mp_next_seq (tn_pool s)) + length reqs < 2 ^ 64)"
| "turns_ok vf t (Pass i # turns) s =
     (pass_ok vf t i s \<and> pred_option (turns_ok vf (pi_commit_s i) turns) (main_pass vf i s))"

fun end_time :: "u64 \<Rightarrow> turn list \<Rightarrow> u64" where
  "end_time t [] = t"
| "end_time t (Stop _ # _) = t"
| "end_time t (Pass i # turns) = end_time (pi_commit_s i) turns"

lemma clock_ok_le: "clock_ok b \<Longrightarrow> a \<le> b \<Longrightarrow> clock_ok a"
  by (simp add: clock_ok_def word_le_nat_alt)

lemma commit_idle: "pow_commit vf io now_s mined s = Some s' \<Longrightarrow> tn_grinding s' = None"
  by (auto simp: pow_commit_def Let_def split: option.splits if_splits)

lemma main_pass_run:
  assumes run: "node_run vf t s" and idle: "tn_grinding s = None" and ok: "pass_ok vf t i s"
    and pass: "main_pass vf i s = Some s'"
  shows "node_run vf (pi_commit_s i) s' \<and> tn_grinding s' = None"
proof -
  let ?s1 = "serve_requests vf (pi_before i) s"
  have seq: "unat (mp_next_seq (tn_pool s)) + length (pi_before i) < 2 ^ 64"
    and time: "t \<le> pi_commit_s i" "clock_ok (pi_commit_s i)" using ok by (simp_all add: pass_ok_def)
  note s1 = serve_run [OF run seq]
  show ?thesis
  proof (cases "pow_mode (tn_cfg s)")
    case False
    then have "cadence_tick vf (pi_io i) (pi_commit_s i) (pi_now_ms i) (pi_end_ms i) ?s1 = Some s'" "room ?s1 (batch_of ?s1)"
      using pass ok by (simp_all add: main_pass_def pass_ok_def Let_def)
    moreover from this(1) have "tn_grinding s' = None"
      using idle by (auto simp: cadence_tick_def Let_def split: option.splits if_splits)
    ultimately show ?thesis using run_tick [of vf t ?s1] s1 False idle time by simp
  next
    case True
    let ?s2 = "pow_snapshot (pi_now_s i) ?s1"
    let ?s3 = "serve_requests vf (pi_during i) ?s2"
    have now: "t \<le> pi_now_s i" "pi_now_s i \<le> pi_commit_s i" using ok True by (simp_all add: pass_ok_def Let_def)
    have "node_run vf (pi_now_s i) ?s2"
      using run_snapshot [of vf t ?s1] s1 True now(1) clock_ok_le [OF time(2) now(2)] by simp
    moreover have "tn_pool ?s2 = tn_pool ?s1" by (simp add: pow_snapshot_def Let_def)
    ultimately have s3: "node_run vf (pi_now_s i) ?s3"
      using serve_run [of vf "pi_now_s i" ?s2 "pi_during i"] s1 ok by (simp add: pass_ok_def)
    obtain cand where cand: "tn_grinding ?s2 = Some cand" by (simp add: pow_snapshot_def Let_def)
    then obtain mined where mined: "mine (pi_stop i) cand (cfg_difficulty (tn_cfg ?s2)) = Some mined"
      and commit: "pow_commit vf (pi_io i) (pi_commit_s i) mined ?s3 = Some s'"
      using pass True by (auto simp: main_pass_def Let_def split: option.splits)
    have "room ?s3 (mined_txns mined)" using ok True cand mined by (simp add: pass_ok_def Let_def)
    then have "node_run vf (pi_commit_s i) s'"
      using run_commit [OF s3 _ _ _ now(2) time(2) commit, of cand "pi_stop i"] cand mined by simp
    with commit_idle [OF commit] show ?thesis by simp
  qed
qed

lemma main_loop_run:
  "main_loop vf turns s = Some s' \<Longrightarrow> node_run vf t s \<Longrightarrow> tn_grinding s = None \<Longrightarrow> turns_ok vf t turns s \<Longrightarrow>
   \<exists>s1. node_run vf (end_time t turns) s1 \<and> s' = shut_down s1"
proof (induction vf turns s arbitrary: t rule: main_loop.induct)
  case (2 vf reqs turns s)
  then show ?case using serve_run [of vf t s reqs] by auto
next
  case (3 vf i turns s)
  then obtain s1 where s1: "main_pass vf i s = Some s1" "main_loop vf turns s1 = Some s'"
    by (auto split: option.splits)
  with 3 main_pass_run [OF 3(3,4) _ s1(1)] show ?case by simp
qed simp

section \<open>Durability\<close>

text \<open>The block file holds the chain.  The system calls of an append that goes well:\<close>

definition on_disk :: "node \<Rightarrow> bool" where
  "on_disk n \<longleftrightarrow> nd_file n = Some (file_of (ch_blocks (nd_chain n)))"

definition io_sound :: "io \<Rightarrow> bool" where
  "io_sound io \<longleftrightarrow> io_open io \<and> io_fsync io \<and> steady (io_writes io)"

lemma write_loop_sound: "write_loop ws rest f = Some (ok, f') \<Longrightarrow> steady ws \<Longrightarrow> f' = f @ rest"
  by (induction ws rest f rule: write_loop.induct) auto

lemma append_sound:
  "appendBlock io old b = Some (ok, f) \<Longrightarrow> io_sound io \<Longrightarrow> f = Some ((case old of None \<Rightarrow> [] | Some s \<Rightarrow> s) @ block_line b)"
  by (auto simp: appendBlock_def write_file_def io_sound_def block_line_def Let_def split: option.splits dest: write_loop_sound)

lemma commit_stored:
  assumes "commitBlock vf io n b now_s = Some (r, n')" "io_sound io" "on_disk n"
  shows "on_disk n' \<and> nd_cfg n' = nd_cfg n"
  using assms(1)
proof (cases rule: commitBlock_cases)
  case (committed w f)
  obtain ok where "appendBlock io (nd_file n) b = Some (ok, f)"
    using commitBlock_OK [OF assms(1) [unfolded committed(1)]] committed(3) by (metis node.ext_inject node.surjective node.update_convs(2,3))
  from append_sound [OF this assms(2)] assms(3) committed show ?thesis by (simp add: on_disk_def file_of_def)
next
  case rejected
  with assms show ?thesis by simp
qed

lemma main_pass_stored:
  assumes pass: "main_pass vf i s = Some s'" and io: "io_sound (pi_io i)" and st: "on_disk (tn_node s)"
  shows "on_disk (tn_node s') \<and> tn_cfg s' = tn_cfg s"
proof (cases "pow_mode (tn_cfg s)")
  case True
  have [simp]: "tn_node (pow_snapshot now s) = tn_node s" "tn_cfg (pow_snapshot now s) = tn_cfg s" for now s
    by (simp_all add: pow_snapshot_def Let_def tn_cfg_def)
  from True pass obtain mined where
    "pow_commit vf (pi_io i) (pi_commit_s i) mined
       (serve_requests vf (pi_during i) (pow_snapshot (pi_now_s i) (serve_requests vf (pi_before i) s))) = Some s'"
    by (auto simp: main_pass_def Let_def split: option.splits)
  then show ?thesis
    using io st
    by (auto simp: pow_commit_def Let_def tn_cfg_def split: option.splits if_splits dest!: commit_stored)
next
  case False
  with pass io st show ?thesis
    by (auto simp: main_pass_def cadence_tick_def Let_def seal_commit tn_cfg_def split: option.splits if_splits
        dest!: commit_stored)
qed

lemma main_loop_stored:
  "main_loop vf turns s = Some s' \<Longrightarrow> \<forall>i. Pass i \<in> set turns \<longrightarrow> io_sound (pi_io i) \<Longrightarrow> on_disk (tn_node s) \<Longrightarrow>
   on_disk (tn_node s') \<and> tn_cfg s' = tn_cfg s"
proof (induction vf turns s rule: main_loop.induct)
  case (2 vf reqs turns s)
  then show ?case by (auto simp: shut_down_def tn_cfg_def)
next
  case (3 vf i turns s)
  then obtain s1 where s1: "main_pass vf i s = Some s1" "main_loop vf turns s1 = Some s'"
    by (auto split: option.splits)
  have "on_disk (tn_node s1) \<and> tn_cfg s1 = tn_cfg s" by (rule main_pass_stored [OF s1(1)]) (use 3 in auto)
  with 3 s1 show ?case by simp
qed simp

lemma start_cfg:
  assumes "txnode_start vf ub parse d read_file kp io1 io2 ok bound argv f key_file now_s now_ms = Some (Up s)" "clock_ok now_s"
  shows "resolve_config ub parse read_file argv = Returns (tn_cfg s)"
  using assms boot_chain [OF _ _ assms(2)] unfolding txnode_start_def Let_def
  by (auto simp: tn_cfg_def split: option.splits prod.splits if_splits raised.splits)

text \<open>A first start, without a block file, leaves one that holds the chain.\<close>

lemma first_start_stored:
  assumes "txnode_start vf ub parse d read_file kp io1 io2 ok bound argv None key_file now_s now_ms = Some (Up s)" "io_sound io1"
  shows "on_disk (tn_node s)"
  using assms unfolding txnode_start_def boot_def Let_def
  by (auto simp: new_node_def node_append_def on_disk_def file_of_def split: option.splits prod.splits if_splits raised.splits
      dest!: append_sound)

text \<open>
  C33. A node that was stopped comes back with its chain.  If the block file held the chain when the
  node came up and no append of the run failed, then the process ends with exit code zero and its
  \<^verbatim>\<open>node_down\<close> line, and a later start with the same arguments on the file it left passes the checks of the
  boot and comes up with exactly the chain it was stopped with and an empty pool, and again with a file that
  holds the chain; provided that no transfer of the chain goes from an account to itself (\<open>plain_chain\<close>: such a chain,
  which C6 shows the node can come to, is refused), the fields of its blocks are below \<open>2 ^ 63\<close>, and the wallet file loads.
\<close>

theorem restart_resumes:
  assumes up: "txnode_start vf ub picojson d read_file kp io1 io2 ok bound argv f key_file now0 ms0 = Some (Up s0)" "clock_ok now0"
      "on_disk (tn_node s0)"
    and main: "txnode_main vf ub picojson d read_file kp io1 io2 ok bound argv f key_file now0 ms0 turns = Some (Exited code log (Some s))"
    and turns: "turns_ok vf now0 turns s0" "\<forall>i. Pass i \<in> set turns \<longrightarrow> io_sound (pi_io i)"
    and chain: "list_all block_small (ch_blocks (tn_chain s))" "plain_chain (tn_chain s)"
    and later: "end_time now0 turns \<le> now1" "clock_ok now1"
    and key: "load_or_create_wallet d picojson kp' io2' ok' (cfg_datadir (tn_cfg s)) key_file' = Some (Returns (wr, key_file''))"
      "wr_wallet wr = Some w"
  shows "code = 0 \<and> last log = node_down_line s \<and>
    (\<exists>s1. txnode_start vf ub picojson d read_file kp' io1' io2' ok' bound' argv (nd_file (tn_node s)) key_file' now1 ms1 = Some (Up s1) \<and>
       tn_chain s1 = tn_chain s \<and> on_disk (tn_node s1) \<and> pending_txns (tn_pool s1) = [])"
proof -
  have loop: "main_loop vf turns s0 = Some s" and log: "code = 0" "log = tn_log s" using main up(1) by (auto simp: txnode_main_def)
  have "tn_grinding s0 = None" using start_state [OF up(1,2)] by simp
  then obtain s2 where s2: "node_run vf (end_time now0 turns) s2" "s = shut_down s2"
    using main_loop_run [OF loop run_start [OF up(1,2)] _ turns(1)] by blast
  have st: "on_disk (tn_node s)" "tn_cfg s = tn_cfg s0" using main_loop_stored [OF loop turns(2) up(3)] by simp_all
  have cfg: "resolve_config ub picojson read_file argv = Returns (tn_cfg s)" using st(2) start_cfg [OF up(1,2)] by simp
  have reach: "chain_reach vf (cfg_difficulty (tn_cfg s)) (node_reward (tn_cfg s)) (end_time now0 turns) (tn_chain s)"
    using node_run_inv [OF s2(1)] by (simp add: s2(2) shut_down_def node_inv_def tn_chain_def tn_cfg_def)
  have "tn_chain s2 = tn_chain s" by (simp add: s2(2) shut_down_def tn_chain_def)
  then have valid: "validateChain vf (tn_chain s) now1 = OK"
    using run_validates [OF s2(1) _ later] chain(2) by simp
  have "boot vf ub picojson io1' (tn_cfg s) (nd_file (tn_node s)) now1 =
      Some (Returns (boot_ok, \<lparr>nd_cfg = tn_cfg s, nd_file = nd_file (tn_node s), nd_chain = tn_chain s\<rparr>))"
  proof -
    have "ch_blocks (tn_chain s) \<noteq> []" using chain_reach_replays [OF reach later] by auto
    from boot_loaded [OF reach later valid file_of_nonempty [OF this] load_file_of [OF chain(1)]] st(1)
    show ?thesis by (simp add: on_disk_def tn_chain_def)
  qed
  then have "\<exists>s1. txnode_start vf ub picojson d read_file kp' io1' io2' ok' bound' argv (nd_file (tn_node s)) key_file' now1 ms1 = Some (Up s1) \<and>
      tn_chain s1 = tn_chain s \<and> on_disk (tn_node s1) \<and> tn_pool s1 = new_mempool 4096"
    using key st(1) by (simp add: txnode_start_def cfg boot_ok_def tn_chain_def on_disk_def Let_def)
  then show ?thesis using log s2(2) by (auto simp: shut_down_def node_down_line_def tn_chain_def)
qed

section \<open>A node that mined its first block and was stopped\<close>

definition sample_turns :: "turn list" where
  "sample_turns = [Pass \<lparr>pi_before = [], pi_now_s = 1704067201, pi_stop = \<lambda>_. False, pi_during = [], pi_commit_s = 1704067202,
     pi_io = io_fine (length (block_line sample_found)), pi_now_ms = 0, pi_end_ms = 0\<rparr>, Stop []]"

lemma sample_found_small: "list_all block_small [genesisBlock, sample_found]"
  by (simp add: genesis_small block_small_def sample_found_def sample_cand_def header_widths_def small_def txn_small_def wf_txn_def
      txn_widths_def coinbaseTxn_def kNullAddr_def kNullPub_def kNullSig_def COINBASE_REWARD_def GENESIS_TIMESTAMP_def)

lemma sample_loop:
  obtains s where "main_loop vf sample_turns sample_up = Some (shut_down s)"
    "tn_chain s = sample_chain" "tn_cfg s = sample_cfg" "turns_ok vf 1704067201 sample_turns sample_up"
proof -
  obtain s where s: "pow_commit vf (io_fine (length (block_line sample_found))) 1704067202 (Some sample_found) sample_grind = Some s"
    "tn_chain s = sample_chain" "tn_cfg s = sample_cfg" "tn_pool s = new_mempool 4096" by (rule sample_commit)
  have up: "pow_mode (tn_cfg sample_up)" "cfg_difficulty (tn_cfg sample_up) = 1" "tn_cfg sample_grind = tn_cfg sample_up"
    "tn_grinding sample_grind = Some sample_cand" "mp_next_seq (tn_pool sample_up) = 0"
    by (simp_all add: pow_mode_def tn_cfg_def sample_up_def fresh_node_def sample_cfg_def sample_grind_def new_mempool_def)
  let ?i = "\<lparr>pi_before = [], pi_now_s = 1704067201, pi_stop = \<lambda>_. False, pi_during = [], pi_commit_s = 1704067202,
     pi_io = io_fine (length (block_line sample_found)), pi_now_ms = 0, pi_end_ms = 0\<rparr>"
  have pass: "main_pass vf ?i sample_up = Some s"
    by (simp add: main_pass_def up sample_snapshot sample_search s(1))
  moreover have "pass_ok vf 1704067201 ?i sample_up"
    using sample_room clock_2024 by (simp add: pass_ok_def up sample_snapshot sample_search)
  ultimately show thesis
    using s(4) by (intro that [of s]) (simp_all add: sample_turns_def s new_mempool_def)
qed

theorem restart_resumes_witness:
  "\<exists>s s1. txnode_main any_sig (\<lambda>_. 0) picojson (\<lambda>_. sample_pub) (\<lambda>_. None) None
      (io_fine (length (block_line genesisBlock))) (io_fine 0) True (Some 30000) sample_argv None (Some sample_key)
      1704067201 0 sample_turns = Some (Exited 0 (tn_log s) (Some s)) \<and>
    txnode_start any_sig (\<lambda>_. 0) picojson (\<lambda>_. sample_pub) (\<lambda>_. None) None
      (io_fine 0) (io_fine 0) True None sample_argv (nd_file (tn_node s)) (Some sample_key) 1704067202 0 = Some (Up s1) \<and>
    ch_blocks (tn_chain s1) = [genesisBlock, sample_found]"
proof -
  note up = fresh_starts [OF sample_configs(1), of any_sig, folded sample_up_def]
  obtain s where s: "main_loop any_sig sample_turns sample_up = Some (shut_down s)" "tn_chain s = sample_chain"
    "tn_cfg s = sample_cfg" "turns_ok any_sig 1704067201 sample_turns sample_up" by (rule sample_loop)
  let ?s = "shut_down s"
  have chain: "tn_chain ?s = sample_chain" "tn_cfg ?s = sample_cfg"
    using s(2,3) by (simp_all add: shut_down_def tn_chain_def tn_cfg_def)
  have main: "txnode_main any_sig (\<lambda>_. 0) picojson (\<lambda>_. sample_pub) (\<lambda>_. None) None
      (io_fine (length (block_line genesisBlock))) (io_fine 0) True (Some 30000) sample_argv None (Some sample_key)
      1704067201 0 sample_turns = Some (Exited 0 (tn_log ?s) (Some ?s))"
    using s(1) by (simp add: txnode_main_def up)
  have io: "io_sound (io_fine n)" for n by (simp add: io_sound_def io_fine_def)
  have st: "on_disk (tn_node sample_up)" by (rule first_start_stored [OF up io])
  have plain: "plain_chain (tn_chain ?s)"
    using chain by (simp add: plain_chain_def sample_found_def sample_cand_def self_transfer_def coinbaseTxn_def)
  have key: "load_or_create_wallet (\<lambda>_. sample_pub) picojson None (io_fine 0) True (cfg_datadir (tn_cfg ?s)) (Some sample_key) =
      Some (Returns (\<lparr>wr_ok = True, wr_wallet = Some sample_wallet, wr_error = [], wr_world_readable = False\<rparr>, Some sample_key))"
    by (simp add: load_or_create_wallet_def sample_key_loads)
  have "list_all block_small (ch_blocks (tn_chain ?s))" using sample_found_small chain by simp
  moreover have "\<forall>i. Pass i \<in> set sample_turns \<longrightarrow> io_sound (pi_io i)" by (simp add: sample_turns_def io)
  moreover have "end_time 1704067201 sample_turns \<le> 1704067202" by (simp add: sample_turns_def)
  ultimately obtain s1 where "txnode_start any_sig (\<lambda>_. 0) picojson (\<lambda>_. sample_pub) (\<lambda>_. None) None
      (io_fine 0) (io_fine 0) True None sample_argv (nd_file (tn_node ?s)) (Some sample_key) 1704067202 0 = Some (Up s1)"
    "tn_chain s1 = tn_chain ?s"
    using restart_resumes [OF up clock_2024(2) st main s(4) _ _ plain _ clock_2024(1) key, of sample_wallet "io_fine 0" None 0]
    by auto
  moreover from this(2) have "ch_blocks (tn_chain s1) = [genesisBlock, sample_found]" unfolding chain by simp
  ultimately show ?thesis using main by (intro exI conjI)
qed

end
