(* ===== verification/Backend.thy ===== *)
theory Backend
  imports Cli
begin

text \<open>
  The backend servers of the first version (\<^verbatim>\<open>serverA.cpp\<close>, \<^verbatim>\<open>serverB.cpp\<close>, \<^verbatim>\<open>serverC.cpp\<close>): three
  programs with the same text but for the port, the block file and the name.  A backend keeps the
  rows of its block file as they are, encrypted, and answers one datagram at a time.

  The lemmas read a row back from its text, give the replies in closed form, and show that a restart
  finds every row that was added.
\<close>

section \<open>Formatted input (\<^verbatim>\<open>std::istream >>\<close>)\<close>

definition in_long :: "int \<Rightarrow> bool" where
  "in_long v \<longleftrightarrow> - (2 ^ 63) \<le> v \<and> v < 2 ^ 63"

definition read_word :: "string \<Rightarrow> (string \<times> string) option" where
  "read_word s =
     (let s = dropWhile is_blank s
      in if s = [] then None
         else Some (takeWhile (\<lambda>c. \<not> is_blank c) s, dropWhile (\<lambda>c. \<not> is_blank c) s))"

text \<open>A \<^verbatim>\<open>long\<close>: the extraction fails without digits and on overflow.\<close>

definition read_long :: "string \<Rightarrow> (int \<times> string) option" where
  "read_long s =
     (let s = dropWhile is_blank s;
          neg = (case s of c # _ \<Rightarrow> c = CHR ''-'' | [] \<Rightarrow> False);
          ds = (case s of c # cs \<Rightarrow> if c = CHR ''-'' \<or> c = CHR ''+'' then cs else s | [] \<Rightarrow> []);
          n = int (dec_val (takeWhile is_digit ds));
          v = (if neg then - n else n)
      in if takeWhile is_digit ds = [] \<or> \<not> in_long v then None else Some (v, dropWhile is_digit ds))"

text \<open>A string variable stays empty when its extraction fails.\<close>

definition word_or_empty :: "string \<Rightarrow> string \<times> string" where
  "word_or_empty s = (case read_word s of None \<Rightarrow> ([], []) | Some p \<Rightarrow> p)"

section \<open>Rows\<close>

definition parse_row :: "string \<Rightarrow> (int \<times> string \<times> string \<times> string) option" where
  "parse_row line =
     (case read_long line of
        None \<Rightarrow> None
      | Some (serial, s1) \<Rightarrow>
          (case read_word s1 of
             None \<Rightarrow> None
           | Some (s, s2) \<Rightarrow>
               (case read_word s2 of
                  None \<Rightarrow> None
                | Some (r, s3) \<Rightarrow>
                    (case read_word s3 of None \<Rightarrow> None | Some (amt, _) \<Rightarrow> Some (serial, s, r, amt)))))"

definition row_text :: "int \<Rightarrow> string \<Rightarrow> string \<Rightarrow> string \<Rightarrow> string" where
  "row_text serial s r amt = int_to_string serial @ '' '' @ s @ '' '' @ r @ '' '' @ amt"

section \<open>The block file and the requests\<close>

record backend =
  be_rows :: "string list"
  be_file :: fcontent

definition load_block :: "fcontent \<Rightarrow> string list" where
  "load_block f = filter (\<lambda>line. line \<noteq> []) (case f of None \<Rightarrow> [] | Some s \<Rightarrow> split_lines s)"

definition query_row :: "string \<Rightarrow> string \<Rightarrow> string \<Rightarrow> int \<times> string \<Rightarrow> int \<times> string" where
  "query_row name1 name2 line st =
     (case st of (max_serial, rows) \<Rightarrow>
        case parse_row line of
          None \<Rightarrow> st
        | Some (serial, s, r, amt) \<Rightarrow>
            (if serial > max_serial then serial else max_serial,
             if (s = name1 \<or> r = name1) \<or> name2 \<noteq> ''*'' \<and> (s = name2 \<or> r = name2)
             then rows @ [newline] @ line else rows))"

definition handle_query :: "string \<Rightarrow> string \<Rightarrow> string list \<Rightarrow> string" where
  "handle_query name1 name2 g_txns =
     (let (max_serial, rows) = fold (query_row name1 name2) g_txns (0, [])
      in int_to_string max_serial @ rows)"

definition all_row :: "string \<Rightarrow> int \<times> string \<Rightarrow> int \<times> string" where
  "all_row line st =
     (case st of (max_serial, rows) \<Rightarrow>
        case parse_row line of
          None \<Rightarrow> st
        | Some (serial, s, r, amt) \<Rightarrow>
            (if serial > max_serial then serial else max_serial, rows @ [newline] @ line))"

definition handle_all :: "string list \<Rightarrow> string" where
  "handle_all g_txns =
     (let (max_serial, rows) = fold all_row g_txns (0, []) in int_to_string max_serial @ rows)"

text \<open>
  \<open>reached\<close> is how many characters of the appended line the file took, \<open>None\<close> if it could not be
  opened; the program does not look.
\<close>

definition handle_new :: "nat option \<Rightarrow> string \<Rightarrow> backend \<Rightarrow> string \<times> backend" where
  "handle_new reached rest b =
     (case parse_row rest of
        None \<Rightarrow> (''ERR'', b)
      | Some (serial, s, r, amt) \<Rightarrow>
          let line = row_text serial s r amt
          in (''OK'', \<lparr>be_rows = be_rows b @ [line],
                be_file = (case reached of
                   None \<Rightarrow> be_file b
                 | Some k \<Rightarrow> Some ((case be_file b of None \<Rightarrow> [] | Some f \<Rightarrow> f) @ take k (line @ [newline])))\<rparr>))"

section \<open>One datagram\<close>

definition BUF_SIZE :: nat where "BUF_SIZE = 65536"

definition backend_reply :: "nat option \<Rightarrow> string \<Rightarrow> backend \<Rightarrow> string \<times> backend" where
  "backend_reply reached datagram b =
     (let msg = cstr (take (BUF_SIZE - 1) datagram);
          (op, s) = word_or_empty msg
      in if op = ''QUERY'' then
           (let (n1, s) = word_or_empty s; (n2, _) = word_or_empty s in (handle_query n1 n2 (be_rows b), b))
         else if op = ''ALL'' then (handle_all (be_rows b), b)
         else if op = ''NEW'' then
           (let rest = takeWhile (\<lambda>c. c \<noteq> newline) s;
                rest = (case rest of c # cs \<Rightarrow> if c = CHR '' '' then cs else rest | [] \<Rightarrow> [])
            in handle_new reached rest b)
         else (''ERR'', b))"

text \<open>The body of the loop: the reply, the lines it prints and the new state.\<close>

definition backend_step :: "string \<Rightarrow> nat option \<Rightarrow> string \<Rightarrow> backend \<Rightarrow> string \<times> string list \<times> backend" where
  "backend_step srv reached datagram b =
     (let (reply, b) = backend_reply reached datagram b
      in (reply, [''The Server'' @ srv @ '' received a request from the Main Server.'',
                  ''The Server'' @ srv @ '' finished sending the response to the Main Server.''], b))"

record backend_conf =
  bc_port :: nat
  bc_file :: string
  bc_name :: string

definition serverA :: backend_conf where "serverA = \<lparr>bc_port = 21875, bc_file = ''block1.txt'', bc_name = ''A''\<rparr>"
definition serverB :: backend_conf where "serverB = \<lparr>bc_port = 22875, bc_file = ''block2.txt'', bc_name = ''B''\<rparr>"
definition serverC :: backend_conf where "serverC = \<lparr>bc_port = 23875, bc_file = ''block3.txt'', bc_name = ''C''\<rparr>"

definition backend_boot :: "backend_conf \<Rightarrow> (string \<Rightarrow> fcontent) \<Rightarrow> string \<times> backend" where
  "backend_boot conf fs =
     (''The Server'' @ bc_name conf @ '' is up and running using UDP on port '' @ to_string (bc_port conf) @ ''.'',
      \<lparr>be_rows = load_block (fs (bc_file conf)), be_file = fs (bc_file conf)\<rparr>)"

definition serverA_step :: "nat option \<Rightarrow> string \<Rightarrow> backend \<Rightarrow> string \<times> string list \<times> backend" where
  "serverA_step = backend_step (bc_name serverA)"

definition serverB_step :: "nat option \<Rightarrow> string \<Rightarrow> backend \<Rightarrow> string \<times> string list \<times> backend" where
  "serverB_step = backend_step (bc_name serverB)"

definition serverC_step :: "nat option \<Rightarrow> string \<Rightarrow> backend \<Rightarrow> string \<times> string list \<times> backend" where
  "serverC_step = backend_step (bc_name serverC)"

section \<open>Reading back what was written\<close>

definition blank_free :: "string \<Rightarrow> bool" where
  "blank_free w \<longleftrightarrow> w \<noteq> [] \<and> (\<forall>c \<in> set w. \<not> is_blank c)"

text \<open>What follows a word or a number: nothing, or a blank first.\<close>

definition ends_word :: "string \<Rightarrow> bool" where
  "ends_word rest \<longleftrightarrow> (case rest of [] \<Rightarrow> True | c # _ \<Rightarrow> is_blank c)"

lemma ends_word_simps [simp]: "ends_word []" "ends_word (CHR '' '' # s)"
  by (simp_all add: ends_word_def is_blank_def)

lemma blank_space [simp]: "is_blank CHR '' ''" by (simp add: is_blank_def)

lemma digit_not_blank: "is_digit c \<Longrightarrow> \<not> is_blank c" and digit_not_sign: "is_digit c \<Longrightarrow> c \<noteq> CHR ''-'' \<and> c \<noteq> CHR ''+''"
  by (auto simp: is_digit_def is_blank_def)

lemma span_word:
  assumes "\<And>c. c \<in> set w \<Longrightarrow> P c" "case rest of [] \<Rightarrow> True | c # _ \<Rightarrow> \<not> P c"
  shows "takeWhile P (w @ rest) = w" "dropWhile P (w @ rest) = rest"
proof -
  show "takeWhile P (w @ rest) = w" using assms by (cases rest) (simp_all add: takeWhile_append)
  show "dropWhile P (w @ rest) = rest" using assms by (cases rest) (simp_all add: dropWhile_append)
qed

lemma read_word_text:
  assumes "blank_free w" "ends_word rest"
  shows "read_word (w @ rest) = Some (w, rest)" "read_word (CHR '' '' # w @ rest) = Some (w, rest)"
proof -
  have d: "dropWhile is_blank (w @ rest) = w @ rest"
    using assms(1) by (cases w) (simp_all add: blank_free_def)
  note sp = span_word [of w "\<lambda>c. \<not> is_blank c" rest]
  have "takeWhile (\<lambda>c. \<not> is_blank c) (w @ rest) = w" "dropWhile (\<lambda>c. \<not> is_blank c) (w @ rest) = rest"
    using assms by (auto simp: blank_free_def ends_word_def intro!: sp split: list.splits)
  moreover have "w @ rest \<noteq> []" using assms(1) by (simp add: blank_free_def)
  ultimately show "read_word (w @ rest) = Some (w, rest)" "read_word (CHR '' '' # w @ rest) = Some (w, rest)"
    unfolding read_word_def Let_def by (simp_all add: d)
qed

lemma read_word_last:
  "blank_free w \<Longrightarrow> read_word w = Some (w, [])" "blank_free w \<Longrightarrow> read_word (CHR '' '' # w) = Some (w, [])"
  using read_word_text [of w "[]"] by simp_all

lemma int_to_string_digits: "int_to_string n = (if n < 0 then ''-'' else []) @ to_string (nat \<bar>n\<bar>)"
  by (simp add: int_to_string_def)

lemma number_start:
  "\<exists>d ds. to_string k = d # ds \<and> is_digit d \<and> \<not> is_blank d \<and> d \<noteq> CHR ''-'' \<and> d \<noteq> CHR ''+''"
proof -
  obtain d ds where "to_string k = d # ds" by (cases "to_string k") auto
  then show ?thesis using to_string_digits [of d k] digit_not_blank digit_not_sign by simp
qed

lemma number_span:
  assumes "ends_word rest"
  shows "takeWhile is_digit (to_string k @ rest) = to_string k" "dropWhile is_digit (to_string k @ rest) = rest"
  using assms to_string_digits by (auto simp: ends_word_def dest: digit_not_blank intro!: span_word split: list.splits)

lemma read_long_text:
  assumes "in_long n" "ends_word rest"
  shows "read_long (int_to_string n @ rest) = Some (n, rest)"
proof -
  obtain d ds where d: "to_string (nat \<bar>n\<bar>) = d # ds" "is_digit d" "\<not> is_blank d" "d \<noteq> CHR ''-''" "d \<noteq> CHR ''+''"
    using number_start by blast
  note sp = number_span [OF assms(2), of "nat \<bar>n\<bar>"]
  have v: "int (dec_val (d # ds)) = \<bar>n\<bar>" using dec_val_to_string [of "nat \<bar>n\<bar>"] by (simp flip: d(1))
  have minus: "\<not> is_blank CHR ''-''" by (simp add: is_blank_def)
  show ?thesis
  proof (cases "n < 0")
    case True
    then show ?thesis
      using sp assms(1) v unfolding int_to_string_digits read_long_def Let_def d(1) by (simp add: minus)
  next
    case False
    then show ?thesis
      using sp assms(1) v d(2-) unfolding int_to_string_digits read_long_def Let_def d(1) by simp
  qed
qed

lemma strtol_text: "in_long n \<Longrightarrow> strtol (int_to_string n) = n"
proof -
  assume n: "in_long n"
  obtain d ds where d: "to_string (nat \<bar>n\<bar>) = d # ds" "is_digit d" "\<not> is_blank d" "d \<noteq> CHR ''-''" "d \<noteq> CHR ''+''"
    using number_start by blast
  have sp: "takeWhile is_digit ds = ds"
    using number_span(1) [of "[]" "nat \<bar>n\<bar>"] by (simp add: d(1,2) del: takeWhile_eq_all_conv)
  have v: "int (dec_val (d # ds)) = \<bar>n\<bar>" using dec_val_to_string [of "nat \<bar>n\<bar>"] by (simp flip: d(1))
  have minus: "\<not> is_blank CHR ''-''" by (simp add: is_blank_def)
  show ?thesis
  proof (cases "n < 0")
    case True
    then show ?thesis
      using v n unfolding strtol_def sign_digits_def Let_def int_to_string_digits d(1)
      by (simp add: minus in_long_def d(2) sp)
  next
    case False
    then show ?thesis
      using v n unfolding strtol_def sign_digits_def Let_def int_to_string_digits d(1)
      by (simp add: in_long_def d(2-) sp)
  qed
qed

lemma parse_row_text:
  "in_long serial \<Longrightarrow> blank_free s \<Longrightarrow> blank_free r \<Longrightarrow> blank_free amt \<Longrightarrow>
   parse_row (row_text serial s r amt) = Some (serial, s, r, amt)"
  by (simp add: parse_row_def row_text_def read_long_text read_word_text read_word_last)

section \<open>The replies in closed form\<close>

definition top_from :: "string list \<Rightarrow> int \<Rightarrow> int" where
  "top_from rows = fold (\<lambda>line m. case parse_row line of None \<Rightarrow> m | Some (n, _) \<Rightarrow> max m n) rows"

definition top_serial :: "string list \<Rightarrow> int" where
  "top_serial rows = top_from rows 0"

definition row_matches :: "string \<Rightarrow> string \<Rightarrow> string \<Rightarrow> bool" where
  "row_matches name1 name2 line =
     (case parse_row line of
        None \<Rightarrow> False
      | Some (_, s, r, _) \<Rightarrow> s = name1 \<or> r = name1 \<or> name2 \<noteq> ''*'' \<and> (s = name2 \<or> r = name2))"

definition row_ok :: "string \<Rightarrow> bool" where
  "row_ok line \<longleftrightarrow> parse_row line \<noteq> None"

abbreviation lines_after :: "string list \<Rightarrow> string" where
  "lines_after ls \<equiv> concat (map (\<lambda>line. newline # line) ls)"

lemma query_fold:
  "fold (query_row name1 name2) rows (m, acc) =
   (top_from rows m,
    acc @ lines_after (filter (row_matches name1 name2) rows))"
  by (induction rows arbitrary: m acc)
    (auto simp: top_from_def query_row_def row_matches_def max_def split: option.splits)

lemma all_fold:
  "fold all_row rows (m, acc) =
   (top_from rows m,
    acc @ lines_after (filter row_ok rows))"
  by (induction rows arbitrary: m acc) (auto simp: top_from_def all_row_def row_ok_def max_def split: option.splits)

lemma handle_query_eq:
  "handle_query name1 name2 rows = int_to_string (top_serial rows) @ lines_after (filter (row_matches name1 name2) rows)"
  by (simp add: handle_query_def query_fold top_serial_def)

lemma handle_all_eq:
  "handle_all rows = int_to_string (top_serial rows) @ lines_after (filter row_ok rows)"
  by (simp add: handle_all_def all_fold top_serial_def)

lemma parse_row_serial: "parse_row line = Some (n, x) \<Longrightarrow> in_long n"
  by (auto simp: parse_row_def read_long_def Let_def split: option.splits if_splits)

lemma top_from_bounds:
  "in_long m \<Longrightarrow> in_long (top_from rows m) \<and> m \<le> top_from rows m \<and>
   (\<forall>line \<in> set rows. \<forall>n x. parse_row line = Some (n, x) \<longrightarrow> n \<le> top_from rows m)"
proof (induction rows arbitrary: m)
  case Nil
  then show ?case by (simp add: top_from_def)
next
  case (Cons line rows)
  define m' where "m' = (case parse_row line of None \<Rightarrow> m | Some (n, _) \<Rightarrow> max m n)"
  have m': "in_long m'" "m \<le> m'" "\<And>n x. parse_row line = Some (n, x) \<Longrightarrow> n \<le> m'"
    using Cons.prems parse_row_serial [of line] by (auto simp: m'_def max_def split: option.splits)
  have "top_from (line # rows) m = top_from rows m'" by (simp add: top_from_def m'_def)
  with Cons.IH [OF m'(1)] m' show ?case by (auto intro: order.trans)
qed

lemma top_serial_bounds:
  "in_long (top_serial rows)" "0 \<le> top_serial rows"
  "line \<in> set rows \<Longrightarrow> parse_row line = Some (n, x) \<Longrightarrow> n \<le> top_serial rows"
  using top_from_bounds [of 0 rows] unfolding top_serial_def by (auto simp: in_long_def simp del: split_paired_All split_paired_Ex)

lemma lines_after_filter_le: "length (lines_after (filter P rows)) \<le> length (lines_after rows)"
  by (induction rows) auto

text \<open>A datagram without null characters that fits the buffer is read as it is.\<close>

definition MAX_DATAGRAM :: nat where "MAX_DATAGRAM = 65507"

definition sendable :: "string \<Rightarrow> bool" where
  "sendable s \<longleftrightarrow> length s \<le> MAX_DATAGRAM \<and> CHR 0x00 \<notin> set s"

lemma received [simp]:
  "sendable s \<Longrightarrow> cstr (take (BUF_SIZE - 1) s) = s" "sendable s \<Longrightarrow> cstr (take (BUF_SIZE - Suc 0) s) = s"
  by (auto simp: sendable_def cstr_def BUF_SIZE_def MAX_DATAGRAM_def takeWhile_eq_all_conv)

section \<open>Restart\<close>

text \<open>A backend whose file ends with a newline and holds the rows of its memory.\<close>

definition stored :: "backend \<Rightarrow> bool" where
  "stored b \<longleftrightarrow> load_block (be_file b) = be_rows b \<and>
     (case be_file b of None \<Rightarrow> True | Some f \<Rightarrow> f = [] \<or> last f = newline)"

lemma split_lines_Nil: "split_lines [] = []"
  by (subst split_lines.simps) simp

lemma split_lines_snoc:
  "f = [] \<or> last f = newline \<Longrightarrow> newline \<notin> set l \<Longrightarrow> split_lines (f @ l @ [newline]) = split_lines f @ [l]"
proof (induction f rule: split_lines.induct)
  case (1 f)
  show ?case
  proof (cases "f = []")
    case True
    then show ?thesis using "1.prems"(2) by (subst split_lines.simps) (simp add: split_lines.simps takeWhile_append dropWhile_append)
  next
    case False
    then have nl: "newline \<in> set f" using "1.prems"(1) last_in_set by metis
    let ?rest = "drop 1 (dropWhile (\<lambda>c. c \<noteq> newline) f)"
    have ne: "dropWhile (\<lambda>c. c \<noteq> newline) f \<noteq> []" using nl by (simp add: dropWhile_eq_Nil_conv)
    have "?rest = [] \<or> last ?rest = newline"
    proof (cases "?rest = []")
      case False
      have "last ?rest = last f"
        using False ne by (metis last_drop last_append takeWhile_dropWhile_id drop_eq_Nil2 linorder_not_le)
      with "1.prems"(1) \<open>f \<noteq> []\<close> show ?thesis by simp
    qed simp
    note IH = "1.IH" [OF False this "1.prems"(2)]
    have "takeWhile (\<lambda>c. c \<noteq> newline) (f @ l @ [newline]) = takeWhile (\<lambda>c. c \<noteq> newline) f"
      "drop 1 (dropWhile (\<lambda>c. c \<noteq> newline) (f @ l @ [newline])) = ?rest @ l @ [newline]"
      using nl ne by (simp_all add: takeWhile_append1 [of newline] dropWhile_append1 [of newline] Suc_le_eq del: dropWhile_eq_Nil_conv)
    with IH False show ?thesis
      by (simp add: split_lines.simps [of "f @ l @ [newline]"] split_lines.simps [of f])
  qed
qed

lemma blank_newline: "is_blank newline" by (simp add: is_blank_def newline_def)

lemma read_word_blank_free:
  assumes "read_word s = Some (w, rest)"
  shows "blank_free w"
proof -
  let ?s = "dropWhile is_blank s"
  have s: "?s \<noteq> []" "w = takeWhile (\<lambda>c. \<not> is_blank c) ?s"
    using assms by (auto simp: read_word_def Let_def split: if_splits)
  have "\<not> is_blank (hd ?s)" using s(1) hd_dropWhile by blast
  with s show ?thesis by (cases ?s) (auto simp: blank_free_def dest: set_takeWhileD)
qed

lemma parse_row_words:
  assumes "parse_row line = Some (n, s, r, amt)"
  shows "in_long n" "blank_free s" "blank_free r" "blank_free amt"
  using assms parse_row_serial read_word_blank_free
  by (auto simp: parse_row_def split: option.splits prod.splits)

lemma int_to_string_no_blank: "c \<in> set (int_to_string n) \<Longrightarrow> \<not> is_blank c"
  by (auto simp: int_to_string_digits is_blank_def dest!: to_string_digits digit_not_blank split: if_splits)

lemma int_to_string_nonempty [simp]: "int_to_string n \<noteq> []"
  by (simp add: int_to_string_digits)

lemma row_text_one_line:
  assumes "blank_free s" "blank_free r" "blank_free amt"
  shows "newline \<notin> set (row_text n s r amt)" "row_text n s r amt \<noteq> []"
proof -
  have "newline \<notin> set s \<union> set r \<union> set amt" using assms blank_newline by (auto simp: blank_free_def)
  moreover have "newline \<notin> set (int_to_string n)" using int_to_string_no_blank blank_newline by blast
  ultimately show "newline \<notin> set (row_text n s r amt)" by (simp add: row_text_def newline_def)
qed (simp add: row_text_def)

lemma stored_new:
  assumes st: "stored b" and r: "parse_row rest = Some (n, s, r, amt)"
    and k: "k \<ge> length (row_text n s r amt) + 1"
  shows "stored (snd (handle_new (Some k) rest b))"
proof -
  let ?l = "row_text n s r amt"
  note l = row_text_one_line [OF parse_row_words(2-4) [OF r]]
  define f where "f = (case be_file b of None \<Rightarrow> [] | Some f \<Rightarrow> f)"
  have f: "f = [] \<or> last f = newline" "load_block (Some f) = be_rows b"
    using st by (auto simp: stored_def f_def load_block_def split_lines_Nil split: option.splits)
  have b': "snd (handle_new (Some k) rest b) = \<lparr>be_rows = be_rows b @ [?l], be_file = Some (f @ ?l @ [newline])\<rparr>"
    using k by (simp add: handle_new_def Let_def r f_def)
  show ?thesis
    using f(2) l(2) unfolding stored_def b' by (simp add: load_block_def split_lines_snoc [OF f(1) l(1)])
qed

definition backend_run :: "nat option \<Rightarrow> string list \<Rightarrow> backend \<Rightarrow> backend" where
  "backend_run reached datagrams b = fold (\<lambda>d b. snd (backend_reply reached d b)) datagrams b"

lemma reply_rows: "\<exists>ls. be_rows (snd (backend_reply reached d b)) = be_rows b @ ls"
  by (auto simp: backend_reply_def handle_new_def Let_def split: option.splits prod.splits list.splits)

lemma run_rows: "\<exists>ls. be_rows (backend_run reached ds b) = be_rows b @ ls"
proof (induction ds arbitrary: b)
  case Nil
  then show ?case by (simp add: backend_run_def)
next
  case (Cons d ds)
  then show ?case using reply_rows [of reached d b] by (simp add: backend_run_def) (metis append.assoc)
qed

lemma backend_reply_cases:
  "snd (backend_reply reached d b) = b \<or> (\<exists>rest. backend_reply reached d b = handle_new reached rest b)"
proof -
  obtain op s where "word_or_empty (cstr (take (BUF_SIZE - 1) d)) = (op, s)" by fastforce
  then show ?thesis by (auto simp: backend_reply_def Let_def split: prod.split)
qed

lemma stored_reply:
  assumes st: "stored b" and short: "\<forall>line \<in> set (be_rows (snd (backend_reply (Some k) d b))). length line < k"
  shows "stored (snd (backend_reply (Some k) d b))"
proof (cases "snd (backend_reply (Some k) d b) = b")
  case True
  with st show ?thesis by simp
next
  case False
  then obtain rest where 2: "backend_reply (Some k) d b = handle_new (Some k) rest b"
    using backend_reply_cases by metis
  show ?thesis
  proof (cases "parse_row rest")
    case None
    with st 2 show ?thesis by (simp add: handle_new_def)
  next
    case (Some x)
    obtain n s r amt where x: "x = (n, s, r, amt)" by (cases x)
    then have "length (row_text n s r amt) + 1 \<le> k" using short Some by (simp add: 2 handle_new_def Let_def)
    from stored_new [OF st Some [unfolded x] this] show ?thesis by (simp add: 2)
  qed
qed

lemma stored_run:
  "stored b \<Longrightarrow> \<forall>line \<in> set (be_rows (backend_run (Some k) ds b)). length line < k \<Longrightarrow> stored (backend_run (Some k) ds b)"
proof (induction ds arbitrary: b)
  case Nil
  then show ?case by (simp add: backend_run_def)
next
  case (Cons d ds)
  let ?b = "snd (backend_reply (Some k) d b)"
  have run: "backend_run (Some k) (d # ds) b = backend_run (Some k) ds ?b" by (simp add: backend_run_def)
  obtain ls where "be_rows (backend_run (Some k) ds ?b) = be_rows ?b @ ls" using run_rows by blast
  with Cons.prems(2) run have "\<forall>line \<in> set (be_rows ?b). length line < k" by simp
  from stored_reply [OF Cons.prems(1) this] Cons.IH Cons.prems(2) run show ?case by simp
qed

lemma stored_boot:
  "case fs (bc_file conf) of None \<Rightarrow> True | Some f \<Rightarrow> f = [] \<or> last f = newline \<Longrightarrow> stored (snd (backend_boot conf fs))"
  by (simp add: stored_def backend_boot_def)

text \<open>
  A restart loses no row.  A backend that was started on a block file ending with a newline, and
  then served any datagrams with its appends reaching the file, has on a restart the rows it had in
  memory.
\<close>

theorem restart_keeps_rows:
  assumes "case fs (bc_file conf) of None \<Rightarrow> True | Some f \<Rightarrow> f = [] \<or> last f = newline"
    and "b = backend_run (Some k) datagrams (snd (backend_boot conf fs))"
    and "\<forall>line \<in> set (be_rows b). length line < k"
  shows "be_rows (snd (backend_boot conf (fs(bc_file conf := be_file b)))) = be_rows b"
  using stored_run [OF stored_boot [of fs conf, OF assms(1)]] assms(2,3) by (simp add: stored_def backend_boot_def)

theorem restart_keeps_rows_witness:
  "be_rows (snd (backend_boot serverA ((\<lambda>_. None)(''block1.txt'' := be_file
     (backend_run (Some 100) [''NEW 7 Dol Erev 43''] (snd (backend_boot serverA (\<lambda>_. None)))))))) =
   [''7 Dol Erev 43'']"
proof -
  let ?b = "backend_run (Some 100) [''NEW 7 Dol Erev 43''] (snd (backend_boot serverA (\<lambda>_. None)))"
  have s: "sendable ''NEW 7 Dol Erev 43''" by (simp add: sendable_def MAX_DATAGRAM_def)
  have "be_rows ?b = [''7 Dol Erev 43'']"
    by (simp add: backend_run_def backend_boot_def load_block_def backend_reply_def received [OF s]) code_simp
  with restart_keeps_rows [of "\<lambda>_. None" serverA ?b 100 "[''NEW 7 Dol Erev 43'']"] show ?thesis
    by (simp add: serverA_def)
qed

end
