(* ===== verification/Main_Server.thy ===== *)
theory Main_Server
  imports Backend
begin

text \<open>
  The main server of the first version (\<^verbatim>\<open>serverM.cpp\<close>) with its client and monitor
  (\<^verbatim>\<open>client.cpp\<close>, \<^verbatim>\<open>monitor.cpp\<close>).  The main server keeps nothing between two requests: it encrypts
  the names, asks the three backends and computes from the rows they return.

  The datagram exchange is the argument \<open>udp\<close> with a state of its own: \<open>None\<close> when no reply ever
  arrives, the inner \<open>None\<close> when \<^verbatim>\<open>recvfrom\<close> fails.  \<open>gone\<close> says whether the peer has reset the connection by the
  time of the reply: then \<^verbatim>\<open>send\<close>, which does not suppress it, raises \<^verbatim>\<open>SIGPIPE\<close>, and the server ends.  A whole
  operation is \<open>None\<close> if the server ends in this way, if it never returns, or if a signed addition overflows, which
  C++ leaves undefined.  \<open>pick\<close> is the backend \<^verbatim>\<open>rand\<close> chooses.
\<close>

section \<open>Encryption\<close>

definition code_of :: "char \<Rightarrow> nat" where "code_of c = of_char c"

definition enc_char :: "char \<Rightarrow> char" where
  "enc_char c =
     (let n = code_of c
      in if 97 \<le> n \<and> n \<le> 122 then char_of (97 + (n - 97 + 3) mod 26)
         else if 65 \<le> n \<and> n \<le> 90 then char_of (65 + (n - 65 + 3) mod 26)
         else if 48 \<le> n \<and> n \<le> 57 then char_of (48 + (n - 48 + 3) mod 10)
         else c)"

definition dec_char :: "char \<Rightarrow> char" where
  "dec_char c =
     (let n = code_of c
      in if 97 \<le> n \<and> n \<le> 122 then char_of (97 + (n - 97 + 23) mod 26)
         else if 65 \<le> n \<and> n \<le> 90 then char_of (65 + (n - 65 + 23) mod 26)
         else if 48 \<le> n \<and> n \<le> 57 then char_of (48 + (n - 48 + 7) mod 10)
         else c)"

definition enc_str :: "string \<Rightarrow> string" where "enc_str s = map enc_char s"
definition dec_str :: "string \<Rightarrow> string" where "dec_str s = map dec_char s"

section \<open>Asking the backends\<close>

record mtxn =
  mt_serial :: int
  mt_sender :: string
  mt_receiver :: string
  mt_amount :: int

type_synonym 's udp = "nat \<Rightarrow> string \<Rightarrow> 's \<Rightarrow> (string option \<times> 's) option"

definition udp_request :: "'s udp \<Rightarrow> nat \<Rightarrow> string \<Rightarrow> 's \<Rightarrow> (string \<times> 's) option" where
  "udp_request udp i req s =
     (case udp i req s of
        None \<Rightarrow> None
      | Some (d, s) \<Rightarrow> Some (case d of None \<Rightarrow> [] | Some bytes \<Rightarrow> cstr (take (BUF_SIZE - 1) bytes), s))"

definition decode_row :: "string \<Rightarrow> mtxn option" where
  "decode_row line =
     (case parse_row line of
        None \<Rightarrow> None
      | Some (serial, es, er, ea) \<Rightarrow>
          Some \<lparr>mt_serial = serial, mt_sender = dec_str es, mt_receiver = dec_str er,
            mt_amount = strtol (dec_str ea)\<rparr>)"

definition reply_line :: "string \<Rightarrow> mtxn list \<Rightarrow> mtxn list" where
  "reply_line line out =
     (if line = [] then out else case decode_row line of None \<Rightarrow> out | Some t \<Rightarrow> out @ [t])"

definition parse_query_reply :: "string \<Rightarrow> mtxn list \<times> int \<Rightarrow> mtxn list \<times> int" where
  "parse_query_reply reply st =
     (case st of (out, max_serial) \<Rightarrow>
        case split_lines reply of
          [] \<Rightarrow> st
        | line # lines \<Rightarrow>
            let ms = strtol line
            in (fold reply_line lines out, if ms > max_serial then ms else max_serial))"

definition backend_name :: "nat \<Rightarrow> string" where
  "backend_name i = [''A'', ''B'', ''C''] ! i"

definition backend_port :: "nat \<Rightarrow> nat" where
  "backend_port i = [21875, 22875, 23875] ! i"

definition sent_line :: "nat \<Rightarrow> string" where
  "sent_line i = ''The main server sent a request to server '' @ backend_name i @ ''.''"

definition received_line :: "bool \<Rightarrow> nat \<Rightarrow> string" where
  "received_line txcoins i =
     (if txcoins then ''The main server received the feedback from server ''
      else ''The main server received transactions from Server '') @
     backend_name i @ '' using UDP over port '' @ to_string (backend_port i) @ ''.''"

fun ask :: "'s udp \<Rightarrow> (nat \<Rightarrow> string list) \<Rightarrow> string \<Rightarrow> nat list \<Rightarrow> mtxn list \<times> int \<Rightarrow> 's \<Rightarrow>
    ((mtxn list \<times> int) \<times> string list \<times> 's) option" where
  "ask udp says req [] acc s = Some (acc, [], s)"
| "ask udp says req (i # is) acc s =
     (case udp_request udp i req s of
        None \<Rightarrow> None
      | Some (reply, s) \<Rightarrow>
          (case ask udp says req is (parse_query_reply reply acc) s of
             None \<Rightarrow> None
           | Some (acc, log, s) \<Rightarrow> Some (acc, says i @ log, s)))"

definition query_all :: "'s udp \<Rightarrow> string \<Rightarrow> string \<Rightarrow> bool \<Rightarrow> mtxn list \<times> int \<Rightarrow> 's \<Rightarrow>
    ((mtxn list \<times> int) \<times> string list \<times> 's) option" where
  "query_all udp enc1 enc2 txcoins acc s =
     ask udp (\<lambda>i. [sent_line i, received_line txcoins i]) (''QUERY '' @ enc1 @ '' '' @ enc2) [0, 1, 2] acc s"

section \<open>Checked arithmetic\<close>

definition ladd :: "int \<Rightarrow> int \<Rightarrow> int option" where
  "ladd a b = (if in_long (a + b) then Some (a + b) else None)"

definition lsub :: "int \<Rightarrow> int \<Rightarrow> int option" where
  "lsub a b = (if in_long (a - b) then Some (a - b) else None)"

definition INITIAL_BALANCE :: int where "INITIAL_BALANCE = 1000"

text \<open>The statements of one round of the balance loop.\<close>

definition balance_step :: "string \<Rightarrow> mtxn \<Rightarrow> int \<Rightarrow> int option" where
  "balance_step user t balance =
     (case (if mt_receiver t = user then ladd balance (mt_amount t) else Some balance) of
        None \<Rightarrow> None
      | Some balance \<Rightarrow> if mt_sender t = user then lsub balance (mt_amount t) else Some balance)"

fun balance_loop :: "string \<Rightarrow> mtxn list \<Rightarrow> int \<Rightarrow> int option" where
  "balance_loop user [] balance = Some balance"
| "balance_loop user (t # ts) balance =
     (case balance_step user t balance of None \<Rightarrow> None | Some balance \<Rightarrow> balance_loop user ts balance)"

section \<open>The client's requests\<close>

text \<open>The reply to a connection; any other result of the \<^verbatim>\<open>send\<close> is ignored.\<close>

definition send_reply :: "bool \<Rightarrow> string \<Rightarrow> string option" where
  "send_reply gone reply = (if gone then None else Some reply)"

definition do_check_wallet :: "'s udp \<Rightarrow> bool \<Rightarrow> string \<Rightarrow> 's \<Rightarrow> (string \<times> string list \<times> 's) option" where
  "do_check_wallet udp gone user s =
     (case query_all udp (enc_str user) ''*'' False ([], 0) s of
        None \<Rightarrow> None
      | Some ((txns, _), log, s) \<Rightarrow>
          (case (if txns = [] then Some ''NOTFOUND''
                 else case balance_loop user txns INITIAL_BALANCE of
                        None \<Rightarrow> None | Some balance \<Rightarrow> Some (''FOUND '' @ int_to_string balance)) of
             None \<Rightarrow> None
           | Some reply \<Rightarrow>
               map_option (\<lambda>reply. (reply, log @ [''The main server sent the current balance to the client.''], s))
                 (send_reply gone reply)))"

definition involves :: "string \<Rightarrow> mtxn \<Rightarrow> bool" where
  "involves name t \<longleftrightarrow> mt_sender t = name \<or> mt_receiver t = name"

definition new_entry :: "int \<Rightarrow> string \<Rightarrow> string \<Rightarrow> int \<Rightarrow> string" where
  "new_entry serial enc_s enc_r amount =
     ''NEW '' @ int_to_string serial @ '' '' @ enc_s @ '' '' @ enc_r @ '' '' @ enc_str (int_to_string amount)"

text \<open>The feasible transfer: the next serial, the entry for the chosen backend, the new balance.\<close>

definition record_transfer :: "'s udp \<Rightarrow> nat \<Rightarrow> int \<Rightarrow> string \<Rightarrow> string \<Rightarrow> int \<Rightarrow> int \<Rightarrow> 's \<Rightarrow> (string \<times> 's) option" where
  "record_transfer udp pick max_serial enc_s enc_r sender_balance amount s =
     (case ladd max_serial 1 of
        None \<Rightarrow> None
      | Some serial \<Rightarrow>
          (case udp_request udp pick (new_entry serial enc_s enc_r amount) s of
             None \<Rightarrow> None
           | Some (_, s) \<Rightarrow>
               (case lsub sender_balance amount of
                  None \<Rightarrow> None
                | Some new_balance \<Rightarrow> Some (''SUCCESS '' @ int_to_string new_balance, s))))"

definition do_txcoins :: "'s udp \<Rightarrow> bool \<Rightarrow> nat \<Rightarrow> string \<Rightarrow> string \<Rightarrow> int \<Rightarrow> 's \<Rightarrow> (string \<times> string list \<times> 's) option" where
  "do_txcoins udp gone pick sender receiver amount s =
     (let enc_s = enc_str sender; enc_r = enc_str receiver
      in case query_all udp enc_s enc_r True ([], 0) s of
           None \<Rightarrow> None
         | Some ((txns, max_serial), log, s) \<Rightarrow>
             (case balance_loop sender txns INITIAL_BALANCE of
                None \<Rightarrow> None
              | Some sender_balance \<Rightarrow>
                  let sender_found = list_ex (involves sender) txns;
                      receiver_found = list_ex (involves receiver) txns
                  in case (if \<not> sender_found \<and> \<not> receiver_found then Some (''MISSINGBOTH'', s)
                           else if \<not> sender_found then Some (''MISSINGSENDER'', s)
                           else if \<not> receiver_found then Some (''MISSINGRECEIVER'', s)
                           else if sender_balance < amount
                             then Some (''INSUFFICIENT '' @ int_to_string sender_balance, s)
                           else record_transfer udp pick max_serial enc_s enc_r sender_balance amount s) of
                       None \<Rightarrow> None
                     | Some (reply, s) \<Rightarrow>
                         map_option (\<lambda>reply.
                             (reply, log @ [''The main server sent the result of the transaction to the client.''], s))
                           (send_reply gone reply)))"

text \<open>\<open>recvd\<close> is what the one \<^verbatim>\<open>recv\<close> returned, empty when it failed or the peer closed.\<close>

definition TCP_PORT_CLIENT :: nat where "TCP_PORT_CLIENT = 25875"

definition handle_client :: "'s udp \<Rightarrow> bool \<Rightarrow> nat \<Rightarrow> string \<Rightarrow> 's \<Rightarrow> (string option \<times> string list \<times> 's) option" where
  "handle_client udp gone pick recvd s =
     (if recvd = [] then Some (None, [], s)
      else
        let request = cstr (take (BUF_SIZE - 1) recvd);
            (op, rest) = word_or_empty request
        in if op = ''CHECK_WALLET'' then
             (let (user, _) = word_or_empty rest
              in map_option (\<lambda>(reply, log, s).
                   (Some reply, (''The main server received input='' @ quoted user @
                      '' from the client using TCP over port '' @ to_string TCP_PORT_CLIENT @ ''.'') # log, s))
                 (do_check_wallet udp gone user s))
           else if op = ''TXCOINS'' then
             (let (sender, rest) = word_or_empty rest; (receiver, rest) = word_or_empty rest;
                  (amt, _) = word_or_empty rest
              in map_option (\<lambda>(reply, log, s).
                   (Some reply, (''The main server received from '' @ quoted sender @ '' to transfer '' @ amt @
                      '' coins to '' @ quoted receiver @ '' using TCP over port '' @
                      to_string TCP_PORT_CLIENT @ ''.'') # log, s))
                 (do_txcoins udp gone pick sender receiver (strtol amt) s))
           else Some (None, [], s))"

section \<open>The monitor's request\<close>

text \<open>
  \<^verbatim>\<open>std::sort\<close> leaves the order of equal serials open, so it is the argument \<open>sorter\<close>.  \<open>reached\<close> is how
  many characters of \<^verbatim>\<open>txchain.txt\<close> reached the file, \<open>None\<close> if it could not be opened.
\<close>

definition statement_line :: "mtxn \<Rightarrow> string" where
  "statement_line t = int_to_string (mt_serial t) @ '' '' @ mt_sender t @ '' '' @ mt_receiver t @ '' '' @
     int_to_string (mt_amount t) @ [newline]"

definition do_txlist :: "'s udp \<Rightarrow> bool \<Rightarrow> (mtxn list \<Rightarrow> mtxn list) \<Rightarrow> nat option \<Rightarrow> fcontent \<Rightarrow> 's \<Rightarrow>
    (string \<times> fcontent \<times> 's) option" where
  "do_txlist udp gone sorter reached old s =
     (case ask udp (\<lambda>_. []) ''ALL'' [0, 1, 2] ([], 0) s of
        None \<Rightarrow> None
      | Some ((all, _), _, s) \<Rightarrow>
          let out = concat (map statement_line (sorter all))
          in map_option (\<lambda>reply. (reply, case reached of None \<Rightarrow> old | Some k \<Rightarrow> Some (take k out), s))
               (send_reply gone ''OK''))"

definition TCP_PORT_MONITOR :: nat where "TCP_PORT_MONITOR = 26875"

definition handle_monitor :: "'s udp \<Rightarrow> bool \<Rightarrow> (mtxn list \<Rightarrow> mtxn list) \<Rightarrow> nat option \<Rightarrow> string \<Rightarrow> fcontent \<Rightarrow> 's \<Rightarrow>
    (string option \<times> string list \<times> fcontent \<times> 's) option" where
  "handle_monitor udp gone sorter reached recvd old s =
     (if recvd = [] \<or> take 6 (cstr (take (BUF_SIZE - 1) recvd)) \<noteq> ''TXLIST'' then Some (None, [], old, s)
      else map_option (\<lambda>(reply, file, s).
             (Some reply, [''The main server received a sorted list request from the monitor using TCP over port '' @
                to_string TCP_PORT_MONITOR @ ''.''], file, s))
           (do_txlist udp gone sorter reached old s))"

text \<open>
  One round of the main loop: the listeners with a connection waiting, the client's first; for each what it
  sent and whether it is gone at the reply.
\<close>

definition serve_ready :: "'s udp \<Rightarrow> (mtxn list \<Rightarrow> mtxn list) \<Rightarrow> nat \<Rightarrow> nat option \<Rightarrow>
    (string \<times> bool) option \<Rightarrow> (string \<times> bool) option \<Rightarrow> fcontent \<times> 's \<Rightarrow> (string option \<times> string option \<times> string list \<times> fcontent \<times> 's) option" where
  "serve_ready udp sorter pick reached client monitor world =
     (case world of (file, s) \<Rightarrow>
        case (case client of None \<Rightarrow> Some (None, [], s) | Some (recvd, gone) \<Rightarrow> handle_client udp gone pick recvd s) of
          None \<Rightarrow> None
        | Some (r1, log1, s) \<Rightarrow>
            (case (case monitor of
                     None \<Rightarrow> Some (None, [], file, s)
                   | Some (recvd, gone) \<Rightarrow> handle_monitor udp gone sorter reached recvd file s) of
               None \<Rightarrow> None
             | Some (r2, log2, file, s) \<Rightarrow> Some (r1, r2, log1 @ log2, file, s)))"

section \<open>Client and monitor\<close>

definition CLIENT_BUF :: nat where "CLIENT_BUF = 4096"

text \<open>The request the client sends; without one or three arguments it exits.\<close>

definition client_msg :: "string list \<Rightarrow> string option" where
  "client_msg args =
     (case args of
        [user] \<Rightarrow> Some (take (CLIENT_BUF - 1) (''CHECK_WALLET '' @ user))
      | [sender, receiver, amount] \<Rightarrow>
          Some (take (CLIENT_BUF - 1) (''TXCOINS '' @ sender @ '' '' @ receiver @ '' '' @ amount))
      | _ \<Rightarrow> None)"

definition client_answer :: "string list \<Rightarrow> string \<Rightarrow> string list" where
  "client_answer args recvd =
     (let reply = cstr (take (CLIENT_BUF - 1) recvd)
      in case args of
           [user] \<Rightarrow>
             (if take 5 reply = ''FOUND''
                then [''The current balance of '' @ quoted user @ '' is : '' @ int_to_string (strtol (drop 5 reply)) @ '' txcoins.'']
              else [quoted user @ '' is not a part of the network.''])
         | [sender, receiver, amount] \<Rightarrow>
             (if take 7 reply = ''SUCCESS''
                then [quoted sender @ '' successfully transferred '' @ amount @ '' txcoins to '' @ quoted receiver @
                      ''. The current balance of '' @ quoted sender @ '' is : '' @
                      int_to_string (strtol (drop 7 reply)) @ '' txcoins.'']
              else if take 12 reply = ''INSUFFICIENT''
                then [quoted sender @ '' was unable to transfer '' @ amount @ '' txcoins to '' @ quoted receiver @
                      '' because of insufficient balance. The current balance of '' @ quoted sender @ '' is : '' @
                      int_to_string (strtol (drop 12 reply)) @ '' txcoins.'']
              else if reply = ''MISSINGSENDER''
                then [''Unable to proceed with the transaction as '' @ quoted sender @ '' is not part of the network.'']
              else if reply = ''MISSINGRECEIVER''
                then [''Unable to proceed with the transaction as '' @ quoted receiver @ '' is not part of the network.'']
              else if reply = ''MISSINGBOTH''
                then [''Unable to proceed with the transaction as '' @ quoted sender @ '' and '' @ quoted receiver @
                      '' are not part of the network.'']
              else [])
         | _ \<Rightarrow> [])"

text \<open>The exit code and the lines of the client; \<open>reply\<close> is what its \<^verbatim>\<open>recv\<close> returned.\<close>

definition client_run :: "string list \<Rightarrow> string \<Rightarrow> int \<times> string list" where
  "client_run args reply =
     (let up = ''The client is up and running.'';
          asked = (case args of
             [user] \<Rightarrow> [quoted user @ '' sent a balance enquiry request to the main server.'']
           | [sender, receiver, amount] \<Rightarrow>
               [quoted sender @ '' has requested to transfer '' @ amount @ '' txcoins to '' @ quoted receiver]
           | _ \<Rightarrow> [])
      in if client_msg args = None then (1, [])
         else if reply = [] then (1, up # asked)
         else (0, up # asked @ client_answer args reply))"

definition monitor_run :: "string list \<Rightarrow> string \<Rightarrow> int \<times> string list" where
  "monitor_run args reply =
     (if args \<noteq> [''TXLIST''] then (1, [])
      else (0, [''The monitor is up and running.'', ''Monitor sent a sorted list request to the main server.''] @
        (if reply = [] then []
         else [''Successfully received a sorted list of transactions from the main server.''])))"

end
