(* ===== verification/Book.thy ===== *)
theory Book
  imports Main_Server "HOL-Library.Multiset"
begin

text \<open>
  The main server against any three row servers.  The abstract state is the book, the decrypted
  transactions of the rows; the locale \<open>row_servers\<close> states what the main server relies on (the
  answers to its three requests), and its lemmas show that the balance enquiry, the transfer and the
  statement are the operations on the book their names promise.
\<close>

section \<open>The book\<close>

definition book_of :: "string list \<Rightarrow> mtxn list" where
  "book_of rows = List.map_filter decode_row rows"

definition book_at :: "(nat \<Rightarrow> string list) \<Rightarrow> mtxn list" where
  "book_at rows = concat (map (\<lambda>i. book_of (rows i)) [0, 1, 2])"

definition serial_at :: "(nat \<Rightarrow> string list) \<Rightarrow> int" where
  "serial_at rows = fold (\<lambda>i m. max m (top_serial (rows i))) [0, 1, 2] 0"

definition clean_row :: "string \<Rightarrow> bool" where
  "clean_row line \<longleftrightarrow> line \<noteq> [] \<and> newline \<notin> set line \<and> CHR 0x00 \<notin> set line"

text \<open>A user name: a word short enough for a request.\<close>

definition user_name :: "string \<Rightarrow> bool" where
  "user_name u \<longleftrightarrow> blank_free u \<and> CHR 0x00 \<notin> set u \<and> length u \<le> 1000"

section \<open>Encryption\<close>

lemma code_of_less: "code_of c < 256"
  by (simp add: code_of_def)

lemma code_of_char [simp]: "n < 256 \<Longrightarrow> code_of (char_of n) = n"
  by (simp add: code_of_def take_bit_nat_def of_char_of)

lemma code_eq: "c = d \<longleftrightarrow> code_of c = code_of d"
  by (simp add: code_of_def)

text \<open>The code of a shifted letter or digit; \<open>range_of\<close> is the first code and the size of its range.\<close>

definition range_of :: "nat \<Rightarrow> (nat \<times> nat) option" where
  "range_of n = (if 97 \<le> n \<and> n \<le> 122 then Some (97, 26) else if 65 \<le> n \<and> n \<le> 90 then Some (65, 26)
     else if 48 \<le> n \<and> n \<le> 57 then Some (48, 10) else None)"

lemma enc_code: "code_of (enc_char c) = (case range_of (code_of c) of None \<Rightarrow> code_of c
    | Some (a, k) \<Rightarrow> a + (code_of c - a + 3) mod k)"
  by (simp add: enc_char_def Let_def range_of_def)

lemma dec_code: "code_of (dec_char c) = (case range_of (code_of c) of None \<Rightarrow> code_of c
    | Some (a, k) \<Rightarrow> a + (code_of c - a + (k - 3)) mod k)"
  by (simp add: dec_char_def Let_def range_of_def)

lemma range_in: "range_of n = Some (a, k) \<Longrightarrow> a \<le> n \<and> n < a + k \<and> 3 \<le> k \<and> (\<forall>j. range_of (a + j mod k) = Some (a, k))"
  by (auto simp: range_of_def split: if_splits)

lemma rotate_back: "a \<le> n \<Longrightarrow> n < a + k \<Longrightarrow> i + j = k \<Longrightarrow> a + ((a + (n - a + i) mod k) - a + j) mod k = (n :: nat)"
proof -
  assume h: "a \<le> n" "n < a + k" "i + j = k"
  have "((n - a + i) mod k + j) mod k = (n - a + (i + j)) mod k" by (simp add: mod_add_left_eq add.assoc)
  also have "\<dots> = (n - a) mod k" unfolding h(3) by (rule mod_add_self2)
  also have "\<dots> = n - a" using h by (intro mod_less) linarith
  finally show ?thesis using h(1) by simp
qed

lemma dec_enc_char [simp]: "dec_char (enc_char c) = c"
proof (cases "range_of (code_of c)")
  case (Some p)
  then obtain a k where p: "range_of (code_of c) = Some (a, k)" by (cases p) simp
  with range_in [OF p] rotate_back [of a "code_of c" k 3 "k - 3"] show ?thesis
    by (simp add: code_eq dec_code enc_code)
qed (simp add: code_eq dec_code enc_code)

lemma enc_dec_char [simp]: "enc_char (dec_char c) = c"
proof (cases "range_of (code_of c)")
  case (Some p)
  then obtain a k where p: "range_of (code_of c) = Some (a, k)" by (cases p) simp
  with range_in [OF p] rotate_back [of a "code_of c" k "k - 3" 3] show ?thesis
    by (simp add: code_eq dec_code enc_code add.commute [of a 3])
qed (simp add: code_eq dec_code enc_code)

lemma dec_enc [simp]: "dec_str (enc_str s) = s" and enc_dec [simp]: "enc_str (dec_str s) = s"
  by (simp_all add: dec_str_def enc_str_def comp_def)

lemma dec_eq_iff: "dec_str e = s \<longleftrightarrow> e = enc_str s"
  by auto

lemma range_enc: "range_of (code_of (enc_char c)) = range_of (code_of c)"
proof (cases "range_of (code_of c)")
  case (Some p)
  then obtain a k where p: "range_of (code_of c) = Some (a, k)" by (cases p) simp
  with range_in [OF p] show ?thesis by (simp add: enc_code)
qed (simp add: enc_code)

lemma enc_char_outside: "range_of (code_of d) = None \<Longrightarrow> enc_char c = d \<longleftrightarrow> c = d"
  using range_enc [of c] by (auto simp: code_eq enc_code)

lemma blank_outside: "is_blank d \<Longrightarrow> range_of (code_of d) = None"
  by (auto simp: is_blank_def range_of_def code_of_def)

lemma enc_char_kind: "is_blank (enc_char c) = is_blank c" "enc_char c = CHR 0x00 \<longleftrightarrow> c = CHR 0x00"
  "enc_char c = CHR ''*'' \<longleftrightarrow> c = CHR ''*''"
proof -
  show "is_blank (enc_char c) = is_blank c" using enc_char_outside blank_outside by metis
qed (simp_all add: enc_char_outside range_of_def code_of_def)

lemma enc_blank_free [simp]: "blank_free (enc_str s) = blank_free s"
  by (simp add: blank_free_def enc_str_def enc_char_kind)

lemma enc_no_null [simp]: "CHR 0x00 \<in> set (enc_str s) \<longleftrightarrow> CHR 0x00 \<in> set s"
proof -
  have "CHR 0x00 \<in> set (enc_str s) \<longleftrightarrow> (\<exists>c \<in> set s. enc_char c = CHR 0x00)" by (auto simp: enc_str_def image_iff) metis
  then show ?thesis by (simp add: enc_char_kind)
qed

lemma length_enc [simp]: "length (enc_str s) = length s"
  by (simp add: enc_str_def)

lemma enc_star: "enc_str s = ''*'' \<longleftrightarrow> s = ''*''"
  by (cases s) (auto simp: enc_str_def enc_char_kind)

section \<open>What the main server reads from a reply\<close>

lemma reply_lines: "list_all (\<lambda>l. l \<noteq> []) ls \<Longrightarrow> fold reply_line ls out = out @ book_of ls"
  by (induction ls arbitrary: out)
    (auto simp: reply_line_def book_of_def List.map_filter_simps split: option.splits)

lemma split_lines_plain: "newline \<notin> set l \<Longrightarrow> l \<noteq> [] \<Longrightarrow> split_lines l = [l]"
proof -
  assume l: "newline \<notin> set l" "l \<noteq> []"
  have "takeWhile (\<lambda>c. c \<noteq> newline) l = l" "dropWhile (\<lambda>c. c \<noteq> newline) l = []"
    using l(1) by (auto simp: takeWhile_eq_all_conv dropWhile_eq_Nil_conv)
  then have "split_lines l = l # split_lines (drop 1 [])"
    using l(2) by (simp only: split_lines.simps [of l] if_False)
  then show ?thesis by (simp add: split_lines_Nil)
qed

lemma split_reply:
  "newline \<notin> set l \<Longrightarrow> l \<noteq> [] \<Longrightarrow> list_all clean_row ls \<Longrightarrow> split_lines (l @ lines_after ls) = l # ls"
proof (induction ls arbitrary: l)
  case Nil
  then show ?case by (simp add: split_lines_plain)
next
  case (Cons k ls)
  have k: "newline \<notin> set k" "k \<noteq> []" "list_all clean_row ls" using Cons.prems(3) by (auto simp: clean_row_def [of k])
  have t: "takeWhile (\<lambda>c. c \<noteq> newline) (l @ newline # k @ lines_after ls) = l"
    "dropWhile (\<lambda>c. c \<noteq> newline) (l @ newline # k @ lines_after ls) = newline # k @ lines_after ls"
    using Cons.prems(1) by (auto simp: takeWhile_append dropWhile_append)
  show ?case
    using Cons.prems(2) Cons.IH [OF k] by (simp add: split_lines.simps [of "l @ newline # k @ lines_after ls"] t)
qed

lemma parse_reply:
  assumes "list_all clean_row rows" "in_long n"
  shows "parse_query_reply (int_to_string n @ lines_after (filter P rows)) (out, m) =
    (out @ book_of (filter P rows), max m n)"
proof -
  have "newline \<notin> set (int_to_string n)" using int_to_string_no_blank blank_newline by blast
  moreover have ls: "list_all clean_row (filter P rows)" using assms(1) by (auto simp: list_all_iff)
  ultimately have "split_lines (int_to_string n @ lines_after (filter P rows)) = int_to_string n # filter P rows"
    by (simp add: split_reply)
  moreover have "list_all (\<lambda>l. l \<noteq> []) (filter P rows)" using ls by (auto simp: list_all_iff clean_row_def)
  ultimately show ?thesis
    by (simp add: parse_query_reply_def reply_lines strtol_text [OF assms(2)] max_def)
qed

lemma book_of_matches:
  "book_of (filter (row_matches (enc_str u) (enc_str v)) rows) =
     filter (\<lambda>t. involves u t \<or> v \<noteq> ''*'' \<and> involves v t) (book_of rows)"
  by (induction rows)
    (auto simp: book_of_def List.map_filter_simps row_matches_def decode_row_def involves_def dec_eq_iff enc_star
      split: option.splits)

lemma book_of_ok: "book_of (filter row_ok rows) = book_of rows"
  by (induction rows) (auto simp: book_of_def List.map_filter_simps row_ok_def decode_row_def split: option.splits)

lemma book_at_matches:
  "book_at (\<lambda>i. filter (row_matches (enc_str u) (enc_str v)) (rows i)) =
     filter (\<lambda>t. involves u t \<or> v \<noteq> ''*'' \<and> involves v t) (book_at rows)"
  by (simp add: book_at_def book_of_matches)

lemma book_of_append: "book_of (xs @ ys) = book_of xs @ book_of ys"
  by (induction xs) (simp_all add: book_of_def List.map_filter_simps split: option.split)

lemma serial_at_nonneg: "0 \<le> serial_at rows"
  by (simp add: serial_at_def max_def)

lemma serial_at_top:
  assumes "t \<in> set (book_at rows)"
  shows "mt_serial t \<le> serial_at rows"
proof -
  obtain i where "i \<in> {0, 1, 2}" "t \<in> set (book_of (rows i))"
    using assms by (auto simp: book_at_def)
  then obtain line where i: "i \<in> {0, 1, 2}" "line \<in> set (rows i)" "decode_row line = Some t"
    by (auto simp: book_of_def List.map_filter_def)
  then have "mt_serial t \<le> top_serial (rows i)"
    using top_serial_bounds(3) [OF i(2)] by (auto simp: decode_row_def split: option.splits)
  with i(1) show ?thesis by (auto simp: serial_at_def)
qed

section \<open>Words and numbers of the requests\<close>

lemma read_request_words:
  "blank_free a \<Longrightarrow> word_or_empty (a @ CHR '' '' # rest) = (a, CHR '' '' # rest)"
  "blank_free a \<Longrightarrow> word_or_empty (CHR '' '' # a @ CHR '' '' # rest) = (a, CHR '' '' # rest)"
  "blank_free a \<Longrightarrow> word_or_empty (CHR '' '' # a) = (a, [])"
  "blank_free a \<Longrightarrow> word_or_empty a = (a, [])"
  using read_word_text [of a "CHR '' '' # rest"] read_word_last [of a] by (simp_all add: word_or_empty_def)

lemma op_words: "blank_free ''QUERY''" "blank_free ''NEW''" "blank_free ''ALL''" "blank_free ''*''"
  "blank_free ''CHECK_WALLET''" "blank_free ''TXCOINS''"
  by (simp_all add: blank_free_def is_blank_def)

lemma filter_lines_le:
  "(\<And>l. P l \<Longrightarrow> Q l) \<Longrightarrow> length (lines_after (filter P rows)) \<le> length (lines_after (filter Q rows))"
  by (induction rows) (auto intro: le_SucI add_mono)

lemma reply_no_null:
  assumes "list_all clean_row rows"
  shows "CHR 0x00 \<notin> set (int_to_string n @ lines_after (filter P rows))"
proof -
  have "CHR 0x00 \<notin> set (int_to_string n)"
    by (auto simp: int_to_string_digits dest!: to_string_digits simp: is_digit_def)
  moreover have "CHR 0x00 \<notin> set (lines_after (filter P rows))"
    using assms by (auto simp: list_all_iff clean_row_def newline_def)
  ultimately show ?thesis by simp
qed

lemma request_read:
  assumes "user_name u" "blank_free op" "length op \<le> 20" "CHR 0x00 \<notin> set op"
  shows "cstr (take (BUF_SIZE - Suc 0) (op @ '' '' @ u)) = op @ '' '' @ u"
    "word_or_empty (op @ '' '' @ u) = (op, '' '' @ u)" "word_or_empty ('' '' @ u) = (u, [])"
proof -
  have "sendable (op @ '' '' @ u)" using assms by (simp add: sendable_def MAX_DATAGRAM_def user_name_def)
  then show "cstr (take (BUF_SIZE - Suc 0) (op @ '' '' @ u)) = op @ '' '' @ u" by (rule received(2))
  show "word_or_empty (op @ '' '' @ u) = (op, '' '' @ u)" "word_or_empty ('' '' @ u) = (u, [])"
    using read_request_words(1) [of op u] read_request_words(3) [of u] assms by (simp_all add: user_name_def)
qed

lemma filter_none: "filter P ts = [] \<longleftrightarrow> \<not> list_ex P ts"
  by (induction ts) auto

lemma to_string_length: "n < 10 ^ Suc k \<Longrightarrow> length (to_string n) \<le> Suc k"
proof (induction k arbitrary: n)
  case 0
  then show ?case by (simp add: to_string.simps)
next
  case (Suc k)
  then have "n div 10 < 10 ^ Suc k" by simp
  from Suc.IH [OF this] show ?case by (subst to_string.simps) simp
qed

lemma number_text:
  assumes "in_long n"
  shows "length (int_to_string n) \<le> 20" "CHR 0x00 \<notin> set (int_to_string n)" "strtol (CHR '' '' # int_to_string n) = n"
proof -
  have "nat \<bar>n\<bar> < 10 ^ Suc 18" using assms by (simp add: in_long_def) linarith
  from to_string_length [OF this] show "length (int_to_string n) \<le> 20"
    by (cases "n < 0") (simp_all add: int_to_string_digits)
  show "CHR 0x00 \<notin> set (int_to_string n)" using reply_no_null [of "[]" n "\<lambda>_. True"] by simp
  have "strtol (CHR '' '' # int_to_string n) = strtol (int_to_string n)" by (simp add: strtol_def sign_digits_def)
  then show "strtol (CHR '' '' # int_to_string n) = n" using strtol_text [OF assms] by simp
qed

lemma number_reply:
  assumes "in_long n" "length w \<le> 20" "CHR 0x00 \<notin> set w"
  shows "cstr (take (CLIENT_BUF - Suc 0) (w @ '' '' @ int_to_string n)) = w @ '' '' @ int_to_string n"
  using assms(2,3) number_text(1,2) [OF assms(1)]
  by (auto simp: CLIENT_BUF_def cstr_def takeWhile_eq_all_conv)

section \<open>Encrypted rows\<close>

definition stored_row :: "mtxn \<Rightarrow> string" where
  "stored_row t = row_text (mt_serial t) (enc_str (mt_sender t)) (enc_str (mt_receiver t)) (enc_str (int_to_string (mt_amount t)))"

definition txn_ok :: "mtxn \<Rightarrow> bool" where
  "txn_ok t \<longleftrightarrow> in_long (mt_serial t) \<and> in_long (mt_amount t) \<and> user_name (mt_sender t) \<and> user_name (mt_receiver t)"

lemma number_blank_free: "blank_free (int_to_string n)"
  using int_to_string_no_blank by (auto simp: blank_free_def)

lemma stored_words:
  "txn_ok t \<Longrightarrow> blank_free (enc_str (mt_sender t)) \<and> blank_free (enc_str (mt_receiver t)) \<and>
     blank_free (enc_str (int_to_string (mt_amount t)))"
  by (simp add: txn_ok_def user_name_def number_blank_free)

lemma parse_stored_row:
  "txn_ok t \<Longrightarrow> parse_row (stored_row t) =
     Some (mt_serial t, enc_str (mt_sender t), enc_str (mt_receiver t), enc_str (int_to_string (mt_amount t)))"
  using stored_words [of t] by (simp add: stored_row_def parse_row_text txn_ok_def)

lemma decode_stored_row: "txn_ok t \<Longrightarrow> decode_row (stored_row t) = Some t"
  by (simp add: decode_row_def parse_stored_row strtol_text txn_ok_def)

lemma clean_stored_row:
  assumes "txn_ok t"
  shows "clean_row (stored_row t)" "length (stored_row t) \<le> 2043"
proof -
  have n: "length (int_to_string (mt_serial t)) \<le> 20" "length (int_to_string (mt_amount t)) \<le> 20"
    "CHR 0x00 \<notin> set (int_to_string (mt_serial t))" "CHR 0x00 \<notin> set (int_to_string (mt_amount t))"
    using assms number_text(1,2) by (simp_all add: txn_ok_def)
  show "clean_row (stored_row t)"
    using row_text_one_line [of _ _ _ "mt_serial t"] stored_words [OF assms] n assms
    by (simp add: clean_row_def stored_row_def) (simp add: row_text_def txn_ok_def user_name_def)
  show "length (stored_row t) \<le> 2043"
    using n assms by (simp add: stored_row_def row_text_def txn_ok_def user_name_def)
qed

lemma book_of_stored: "txn_ok t \<Longrightarrow> book_of [stored_row t] = [t]"
  by (simp add: book_of_def List.map_filter_simps decode_stored_row)

section \<open>Balances\<close>

definition received_by :: "string \<Rightarrow> mtxn \<Rightarrow> int" where
  "received_by user t = (if mt_receiver t = user then mt_amount t else 0)"

definition paid_by :: "string \<Rightarrow> mtxn \<Rightarrow> int" where
  "paid_by user t = (if mt_sender t = user then mt_amount t else 0)"

definition balance_of :: "string \<Rightarrow> mtxn list \<Rightarrow> int" where
  "balance_of user ts = INITIAL_BALANCE + (\<Sum>t \<leftarrow> ts. received_by user t - paid_by user t)"

definition volume :: "mtxn list \<Rightarrow> int" where
  "volume ts = (\<Sum>t \<leftarrow> ts. \<bar>mt_amount t\<bar>)"

lemma volume_nonneg: "0 \<le> volume ts"
  by (induction ts) (simp_all add: volume_def)

lemma balance_loop_sum:
  "\<bar>balance\<bar> + volume ts < 2 ^ 63 \<Longrightarrow>
   balance_loop user ts balance = Some (balance + (\<Sum>t \<leftarrow> ts. received_by user t - paid_by user t))"
proof (induction ts arbitrary: balance)
  case Nil
  then show ?case by simp
next
  case (Cons t ts)
  have v: "volume (t # ts) = \<bar>mt_amount t\<bar> + volume ts" by (simp add: volume_def)
  let ?b = "balance + (received_by user t - paid_by user t)"
  have "balance_step user t balance = Some ?b"
    using Cons.prems volume_nonneg [of ts] unfolding v
    by (auto simp: balance_step_def ladd_def lsub_def in_long_def received_by_def paid_by_def)
  moreover have "\<bar>?b\<bar> + volume ts < 2 ^ 63"
    using Cons.prems unfolding v by (auto simp: received_by_def paid_by_def)
  ultimately show ?case using Cons.IH [of ?b] by simp
qed

lemma balance_filter:
  "(\<And>t. involves user t \<Longrightarrow> P t) \<Longrightarrow> balance_of user (filter P ts) = balance_of user ts"
  by (induction ts) (auto simp: balance_of_def received_by_def paid_by_def involves_def)

lemma volume_filter: "volume (filter P ts) \<le> volume ts"
  by (induction ts) (auto simp: volume_def)

lemma balance_computed:
  assumes "1000 + volume ts < 2 ^ 63" "\<And>t. involves user t \<Longrightarrow> P t"
  shows "balance_loop user (filter P ts) INITIAL_BALANCE = Some (balance_of user ts)"
proof -
  have "\<bar>INITIAL_BALANCE\<bar> + volume (filter P ts) < 2 ^ 63"
    using assms(1) volume_filter [of P ts] by (simp add: INITIAL_BALANCE_def)
  from balance_loop_sum [OF this, of user] show ?thesis
    using balance_filter [of user P ts, OF assms(2)] by (simp add: balance_of_def)
qed

lemma balance_range: "\<bar>balance_of user ts\<bar> \<le> 1000 + volume ts"
proof -
  have "\<bar>\<Sum>t \<leftarrow> ts. received_by user t - paid_by user t\<bar> \<le> volume ts"
    by (induction ts) (auto simp: volume_def received_by_def paid_by_def)
  then show ?thesis by (simp add: balance_of_def INITIAL_BALANCE_def)
qed

lemma balance_mset: "mset ts = mset us \<Longrightarrow> balance_of u ts = balance_of u us"
  by (simp add: balance_of_def flip: sum_mset_sum_list)

lemma balance_entered:
  assumes "mset ts = add_mset t (mset us)"
  shows "balance_of u ts = balance_of u us + received_by u t - paid_by u t"
proof -
  have "mset ts = mset (t # us)" using assms by simp
  from balance_mset [OF this] show ?thesis by (simp add: balance_of_def)
qed

lemma list_ex_filter: "(\<And>t. Q t \<Longrightarrow> P t) \<Longrightarrow> list_ex Q (filter P ts) = list_ex Q ts"
  by (induction ts) auto

section \<open>The outcome of a transfer\<close>

text \<open>The reply of a transfer and the state it leaves, given the book.\<close>

definition transfer_reply :: "mtxn list \<Rightarrow> string \<Rightarrow> string \<Rightarrow> int \<Rightarrow> string" where
  "transfer_reply ts sender receiver amount =
     (let known = (\<lambda>u. list_ex (involves u) ts); balance = balance_of sender ts
      in if \<not> known sender \<and> \<not> known receiver then ''MISSINGBOTH''
         else if \<not> known sender then ''MISSINGSENDER''
         else if \<not> known receiver then ''MISSINGRECEIVER''
         else if balance < amount then ''INSUFFICIENT'' @ '' '' @ int_to_string balance
         else ''SUCCESS'' @ '' '' @ int_to_string (balance - amount))"

definition feasible :: "mtxn list \<Rightarrow> string \<Rightarrow> string \<Rightarrow> int \<Rightarrow> bool" where
  "feasible ts sender receiver amount \<longleftrightarrow>
     list_ex (involves sender) ts \<and> list_ex (involves receiver) ts \<and> amount \<le> balance_of sender ts"

definition next_entry :: "int \<Rightarrow> string \<Rightarrow> string \<Rightarrow> int \<Rightarrow> mtxn" where
  "next_entry serial sender receiver amount =
     \<lparr>mt_serial = serial + 1, mt_sender = sender, mt_receiver = receiver, mt_amount = amount\<rparr>"

lemma next_entry_ok:
  assumes "user_name sender" "user_name receiver" "1000 + volume (book_at rows) + \<bar>amount\<bar> < 2 ^ 63"
    and "serial_at rows + 1 < 2 ^ 63"
  shows "txn_ok (next_entry (serial_at rows) sender receiver amount)"
proof -
  have "in_long amount" using assms(3) volume_nonneg [of "book_at rows"] unfolding in_long_def by linarith
  then show ?thesis
    using assms serial_at_nonneg [of rows] by (simp add: txn_ok_def next_entry_def in_long_def)
qed

section \<open>The interface of the row servers\<close>

text \<open>
  Three servers behind a datagram exchange: \<open>rows s i\<close> is what server \<open>i\<close> holds in the state \<open>s\<close>,
  and \<open>entered t i s\<close> the state after it took the row of \<open>t\<close>.
\<close>

definition row_query :: "string \<Rightarrow> string \<Rightarrow> string" where
  "row_query a b = ''QUERY '' @ a @ '' '' @ b"

locale row_servers =
  fixes udp :: "'s udp"
    and rows :: "'s \<Rightarrow> nat \<Rightarrow> string list"
    and ok :: "'s \<Rightarrow> bool"
    and entered :: "mtxn \<Rightarrow> nat \<Rightarrow> 's \<Rightarrow> 's"
  assumes rows_clean: "ok s \<Longrightarrow> i < 3 \<Longrightarrow> list_all clean_row (rows s i)"
    and answer_query: "ok s \<Longrightarrow> i < 3 \<Longrightarrow> blank_free a \<Longrightarrow> blank_free b \<Longrightarrow> sendable (row_query a b) \<Longrightarrow>
      udp_request udp i (row_query a b) s = Some (handle_query a b (rows s i), s)"
    and answer_all: "ok s \<Longrightarrow> i < 3 \<Longrightarrow> udp_request udp i ''ALL'' s = Some (handle_all (rows s i), s)"
    and answer_new: "ok s \<Longrightarrow> i < 3 \<Longrightarrow> txn_ok t \<Longrightarrow>
      udp_request udp i (''NEW '' @ stored_row t) s = Some (''OK'', entered t i s)"
    and rows_entered: "ok s \<Longrightarrow> i < 3 \<Longrightarrow> j < 3 \<Longrightarrow>
      rows (entered t i s) j = (if j = i then rows s j @ [stored_row t] else rows s j)"
begin

text \<open>A round of requests answered with the rows that satisfy \<open>P\<close>.\<close>

lemma ask_each:
  assumes ok: "ok s" and q: "\<And>i. i < 3 \<Longrightarrow> udp_request udp i req s =
      Some (int_to_string (top_serial (rows s i)) @ lines_after (filter P (rows s i)), s)"
  shows "\<forall>i \<in> set js. i < 3 \<Longrightarrow> ask udp says req js (out, m) s =
    Some ((out @ concat (map (\<lambda>i. book_of (filter P (rows s i))) js),
       fold (\<lambda>i m. max m (top_serial (rows s i))) js m), concat (map says js), s)"
proof (induction js arbitrary: out m)
  case Nil
  then show ?case by simp
next
  case (Cons i js)
  then have i: "i < 3" by simp
  show ?case
    using Cons by (simp add: q [OF i] parse_reply [OF rows_clean [OF ok i] top_serial_bounds(1)])
qed

lemma query_round:
  assumes "ok s" "user_name u" "v = ''*'' \<or> user_name v"
  shows "query_all udp (enc_str u) (enc_str v) txcoins ([], 0) s =
    Some ((filter (\<lambda>t. involves u t \<or> v \<noteq> ''*'' \<and> involves v t) (book_at (rows s)), serial_at (rows s)),
      concat (map (\<lambda>i. [sent_line i, received_line txcoins i]) [0, 1, 2]), s)"
proof -
  have v: "blank_free (enc_str v)" "length v \<le> 1000" "CHR 0x00 \<notin> set (enc_str v)"
    using assms(3) by (auto simp: user_name_def op_words)
  have "sendable (row_query (enc_str u) (enc_str v))" "blank_free (enc_str u)"
    using assms(2) v by (simp_all add: row_query_def sendable_def user_name_def MAX_DATAGRAM_def)
  note q = answer_query [OF assms(1) _ this(2) v(1) this(1), unfolded handle_query_eq]
  have "concat (map (\<lambda>i. book_of (filter (row_matches (enc_str u) (enc_str v)) (rows s i))) [0, 1, 2]) =
      filter (\<lambda>t. involves u t \<or> v \<noteq> ''*'' \<and> involves v t) (book_at (rows s))"
    using book_at_matches [of u v "rows s"] by (simp add: book_at_def)
  then show ?thesis
    using ask_each [OF assms(1) q, of "[0, 1, 2]"]
    by (simp add: query_all_def row_query_def serial_at_def del: ask.simps concat.simps list.map)
qed

lemma statement_round:
  assumes "ok s"
  shows "ask udp (\<lambda>_. []) ''ALL'' [0, 1, 2] ([], 0) s = Some ((book_at (rows s), serial_at (rows s)), [], s)"
  using ask_each [OF assms answer_all [OF assms, unfolded handle_all_eq], of "[0, 1, 2]" "\<lambda>_. []" "[]" 0]
  by (simp add: book_of_ok book_at_def serial_at_def del: ask.simps)

lemma check_wallet_reply:
  assumes "ok s" "user_name user" "1000 + volume (book_at (rows s)) < 2 ^ 63"
  shows "do_check_wallet udp False user s =
    Some (if list_ex (involves user) (book_at (rows s))
        then ''FOUND '' @ int_to_string (balance_of user (book_at (rows s))) else ''NOTFOUND'',
      concat (map (\<lambda>i. [sent_line i, received_line False i]) [0, 1, 2]) @
        [''The main server sent the current balance to the client.''], s)"
proof -
  have star: "enc_str ''*'' = ''*''" by (simp add: enc_star)
  show ?thesis
    using query_round [OF assms(1,2), of "''*''" False] balance_computed [OF assms(3), of user "involves user"]
    by (simp add: do_check_wallet_def star filter_none send_reply_def)
qed

lemma book_entered:
  assumes "ok s" "txn_ok t" "i < 3"
  shows "mset (book_at (rows (entered t i s))) = add_mset t (mset (book_at (rows s)))"
proof -
  have "i = 0 \<or> i = 1 \<or> i = 2" using assms(3) by linarith
  then show ?thesis
    using rows_entered [OF assms(1,3), of _ t]
    by (auto simp: book_at_def book_of_append book_of_stored [OF assms(2)])
qed

lemma transfer_outcome:
  assumes ok: "ok s" and pick: "pick < 3" and names: "user_name sender" "user_name receiver" "receiver \<noteq> ''*''"
    and range: "1000 + volume (book_at (rows s)) + \<bar>amount\<bar> < 2 ^ 63" "serial_at (rows s) + 1 < 2 ^ 63"
  shows "do_txcoins udp False pick sender receiver amount s =
    Some (transfer_reply (book_at (rows s)) sender receiver amount,
      concat (map (\<lambda>i. [sent_line i, received_line True i]) [0, 1, 2]) @
        [''The main server sent the result of the transaction to the client.''],
      if feasible (book_at (rows s)) sender receiver amount
      then entered (next_entry (serial_at (rows s)) sender receiver amount) pick s else s)"
proof -
  let ?B = "book_at (rows s)" and ?n = "serial_at (rows s)"
  let ?P = "\<lambda>t. involves sender t \<or> involves receiver t" and ?t = "next_entry ?n sender receiver amount"
  have q: "query_all udp (enc_str sender) (enc_str receiver) True ([], 0) s =
      Some ((filter ?P ?B, ?n), concat (map (\<lambda>i. [sent_line i, received_line True i]) [0, 1, 2]), s)"
    using query_round [OF ok names(1), of receiver True] names by simp
  have "1000 + volume ?B < 2 ^ 63" using range(1) by linarith
  from balance_computed [OF this, of sender ?P]
  have b: "balance_loop sender (filter ?P ?B) INITIAL_BALANCE = Some (balance_of sender ?B)" by simp
  have known: "list_ex (involves sender) (filter ?P ?B) = list_ex (involves sender) ?B"
    "list_ex (involves receiver) (filter ?P ?B) = list_ex (involves receiver) ?B"
    by (simp_all add: list_ex_filter)
  have t: "txn_ok ?t" by (rule next_entry_ok [OF names(1,2) range])
  have entry: "new_entry (?n + 1) (enc_str sender) (enc_str receiver) amount = ''NEW '' @ stored_row ?t"
    by (simp add: new_entry_def stored_row_def next_entry_def row_text_def)
  have add: "ladd ?n 1 = Some (?n + 1)"
    using range(2) serial_at_nonneg [of "rows s"] by (simp add: ladd_def in_long_def)
  have "in_long (balance_of sender ?B - amount)"
    using balance_range [of sender ?B] range(1) unfolding in_long_def by linarith
  then have new: "lsub (balance_of sender ?B) amount = Some (balance_of sender ?B - amount)"
    by (simp add: lsub_def)
  have rec: "record_transfer udp pick ?n (enc_str sender) (enc_str receiver) (balance_of sender ?B) amount s =
      Some (''SUCCESS '' @ int_to_string (balance_of sender ?B - amount), entered ?t pick s)"
    unfolding record_transfer_def add option.case entry answer_new [OF ok pick t] prod.case new by simp
  show ?thesis
    by (simp add: do_txcoins_def send_reply_def q b known rec transfer_reply_def feasible_def Let_def)
qed

end

end
