(* ===== verification/Network_V1.thy ===== *)
theory Network_V1
  imports Book
begin

text \<open>
  The first version as a whole: the main server over its three backends, which are row servers in the
  sense of theory \<open>Book\<close>.  The properties restate what the main server does with the book for the
  requests of the client and the monitor.
\<close>

section \<open>The cluster\<close>

text \<open>
  The backends A, B and C behind the datagram exchange.  A request or a reply over the largest
  datagram is not sent, and then the main server waits for ever.
\<close>

definition cluster_udp :: "nat option \<Rightarrow> backend list udp" where
  "cluster_udp reached i req bs =
     (if length req > MAX_DATAGRAM then None
      else let (reply, _, b) = ([serverA_step, serverB_step, serverC_step] ! i) reached req (bs ! i)
           in if length reply > MAX_DATAGRAM then None else Some (Some reply, bs[i := b]))"

definition book :: "backend list \<Rightarrow> mtxn list" where
  "book bs = book_at (\<lambda>i. be_rows (bs ! i))"

definition last_serial :: "backend list \<Rightarrow> int" where
  "last_serial bs = serial_at (\<lambda>i. be_rows (bs ! i))"

definition cluster_ok :: "backend list \<Rightarrow> bool" where
  "cluster_ok bs \<longleftrightarrow> length bs = 3 \<and>
     list_all (\<lambda>b. list_all clean_row (be_rows b) \<and> length (handle_all (be_rows b)) \<le> MAX_DATAGRAM) bs"

section \<open>The backends answer\<close>

lemma backend_query:
  assumes "blank_free n1" "blank_free n2" "sendable (''QUERY '' @ n1 @ '' '' @ n2)"
  shows "backend_reply reached (''QUERY '' @ n1 @ '' '' @ n2) b = (handle_query n1 n2 (be_rows b), b)"
  using received [OF assms(3)] read_request_words(1) [OF op_words(1), of "n1 @ '' '' @ n2"]
    read_request_words(2) [OF assms(1), of n2] read_request_words(3) [OF assms(2)]
  by (simp add: backend_reply_def)

lemma backend_all: "backend_reply reached ''ALL'' b = (handle_all (be_rows b), b)"
proof -
  have "sendable ''ALL''" by (simp add: sendable_def MAX_DATAGRAM_def)
  from received [OF this] show ?thesis
    using read_request_words(4) [OF op_words(3)] by (simp add: backend_reply_def)
qed

lemma server_steps:
  "i < 3 \<Longrightarrow> ([serverA_step, serverB_step, serverC_step] ! i) reached req b =
     (fst (backend_reply reached req b),
      [''The Server'' @ backend_name i @ '' received a request from the Main Server.'',
       ''The Server'' @ backend_name i @ '' finished sending the response to the Main Server.''],
      snd (backend_reply reached req b))"
  by (auto simp: less_Suc_eq numeral_eq_Suc serverA_step_def serverB_step_def serverC_step_def backend_step_def
      backend_name_def serverA_def serverB_def serverC_def split: prod.splits)

lemma cluster_request:
  assumes "i < 3" "backend_reply reached req (bs ! i) = (reply, b)" "length req \<le> MAX_DATAGRAM" "sendable reply"
  shows "udp_request (cluster_udp reached) i req bs = Some (reply, bs[i := b])"
  using received(1) [OF assms(4)] assms
  by (simp add: udp_request_def cluster_udp_def server_steps sendable_def)

lemma backend_of:
  assumes "cluster_ok bs" "i < 3"
  shows "list_all clean_row (be_rows (bs ! i))" "length (handle_all (be_rows (bs ! i))) \<le> MAX_DATAGRAM"
proof -
  have "bs ! i \<in> set bs" using assms by (simp add: cluster_ok_def)
  then show "list_all clean_row (be_rows (bs ! i))" "length (handle_all (be_rows (bs ! i))) \<le> MAX_DATAGRAM"
    using assms(1) by (simp_all add: cluster_ok_def list_all_iff)
qed

lemma rows_sendable:
  assumes "cluster_ok bs" "i < 3" "\<And>line. P line \<Longrightarrow> row_ok line"
  shows "sendable (int_to_string (top_serial (be_rows (bs ! i))) @ lines_after (filter P (be_rows (bs ! i))))"
proof -
  have "length (lines_after (filter P (be_rows (bs ! i)))) \<le> length (lines_after (filter row_ok (be_rows (bs ! i))))"
    by (rule filter_lines_le) (rule assms(3))
  then show ?thesis
    using backend_of(2) [OF assms(1,2)] reply_no_null [OF backend_of(1) [OF assms(1,2)]]
    by (simp add: sendable_def handle_all_eq)
qed

lemma cluster_query:
  assumes "cluster_ok bs" "i < 3" "blank_free a" "blank_free b" "sendable (row_query a b)"
  shows "udp_request (cluster_udp reached) i (row_query a b) bs = Some (handle_query a b (be_rows (bs ! i)), bs)"
proof -
  have "row_matches a b line \<Longrightarrow> row_ok line" for line
    by (auto simp: row_matches_def row_ok_def split: option.splits)
  from rows_sendable [OF assms(1,2) this] have "sendable (handle_query a b (be_rows (bs ! i)))"
    by (simp add: handle_query_eq)
  then show ?thesis
    using cluster_request [OF assms(2) backend_query [OF assms(3,4)], of bs] assms(5)
    by (simp add: row_query_def sendable_def)
qed

lemma cluster_all:
  assumes "cluster_ok bs" "i < 3"
  shows "udp_request (cluster_udp reached) i ''ALL'' bs = Some (handle_all (be_rows (bs ! i)), bs)"
  using cluster_request [OF assms(2) backend_all] rows_sendable [OF assms, of row_ok]
  by (simp add: handle_all_eq MAX_DATAGRAM_def)

definition with_row :: "nat option \<Rightarrow> mtxn \<Rightarrow> backend \<Rightarrow> backend" where
  "with_row reached t b =
     \<lparr>be_rows = be_rows b @ [stored_row t],
       be_file = (case reached of None \<Rightarrow> be_file b
         | Some k \<Rightarrow> Some ((case be_file b of None \<Rightarrow> [] | Some f \<Rightarrow> f) @ take k (stored_row t @ [newline])))\<rparr>"

lemma backend_new:
  assumes "txn_ok t"
  shows "backend_reply reached (''NEW '' @ stored_row t) b =
    (''OK'', with_row reached t b)"
proof -
  note c = clean_stored_row [OF assms]
  have "sendable (''NEW '' @ stored_row t)" using c by (simp add: sendable_def clean_row_def MAX_DATAGRAM_def)
  from received [OF this] have msg: "cstr (take (BUF_SIZE - Suc 0) (''NEW '' @ stored_row t)) = ''NEW '' @ stored_row t" by simp
  have "takeWhile (\<lambda>c. c \<noteq> newline) (CHR '' '' # stored_row t) = CHR '' '' # stored_row t"
    using c(1) by (auto simp: clean_row_def takeWhile_eq_all_conv newline_def)
  moreover have "handle_new reached (stored_row t) b = (''OK'', with_row reached t b)"
    by (simp add: handle_new_def with_row_def parse_stored_row [OF assms] Let_def flip: stored_row_def split: option.split)
  ultimately show ?thesis
    using msg read_request_words(1) [OF op_words(2), of "stored_row t"] by (simp add: backend_reply_def)
qed

definition entered :: "nat option \<Rightarrow> mtxn \<Rightarrow> nat \<Rightarrow> backend list \<Rightarrow> backend list" where
  "entered reached t pick bs = bs[pick := with_row reached t (bs ! pick)]"

lemma cluster_new:
  assumes "txn_ok t" "pick < 3"
  shows "udp_request (cluster_udp reached) pick (''NEW '' @ stored_row t) bs = Some (''OK'', entered reached t pick bs)"
proof -
  have len: "length (''NEW '' @ stored_row t) \<le> MAX_DATAGRAM"
    using clean_stored_row(2) [OF assms(1)] by (simp add: MAX_DATAGRAM_def)
  have "sendable ''OK''" by (simp add: sendable_def MAX_DATAGRAM_def)
  note request = cluster_request [OF assms(2) backend_new [OF assms(1)] len this]
  show ?thesis unfolding entered_def request ..
qed

lemma rows_entered:
  assumes "cluster_ok bs" "i < 3" "j < 3"
  shows "be_rows (entered reached t i bs ! j) = (if j = i then be_rows (bs ! j) @ [stored_row t] else be_rows (bs ! j))"
  using assms by (simp add: entered_def with_row_def cluster_ok_def)

interpretation v1: row_servers "cluster_udp reached" "\<lambda>bs i. be_rows (bs ! i)" cluster_ok "entered reached" for reached
  by unfold_locales (simp_all only: backend_of(1) cluster_query cluster_all cluster_new rows_entered)

section \<open>The sample\<close>

text \<open>Three backends with one row each, for the witnesses.\<close>

definition sample_txns :: "mtxn list" where
  "sample_txns = [\<lparr>mt_serial = 5, mt_sender = ''Chinmay'', mt_receiver = ''Oliver'', mt_amount = 129\<rparr>,
     \<lparr>mt_serial = 1, mt_sender = ''Rachael'', mt_receiver = ''John'', mt_amount = 45\<rparr>,
     \<lparr>mt_serial = 9, mt_sender = ''Ali'', mt_receiver = ''Luke'', mt_amount = 155\<rparr>]"

definition sample_cluster :: "backend list" where
  "sample_cluster = map (\<lambda>t. \<lparr>be_rows = [stored_row t], be_file = None\<rparr>) sample_txns"

lemma user_names [simp]: "user_name ''Chinmay''" "user_name ''Oliver''" "user_name ''Rachael''" "user_name ''John''"
  "user_name ''Ali''" "user_name ''Luke''"
  by (simp_all add: user_name_def blank_free_def is_blank_def)

lemma sample_txns_ok: "list_all txn_ok sample_txns"
  by (simp add: sample_txns_def txn_ok_def in_long_def)

lemma sample_book: "book sample_cluster = sample_txns"
  using sample_txns_ok by (simp add: book_def book_at_def sample_cluster_def sample_txns_def book_of_stored)

lemma sample_cluster_ok: "cluster_ok sample_cluster"
proof -
  have "length (handle_all [stored_row t]) \<le> MAX_DATAGRAM" if t: "txn_ok t" for t
  proof -
    have "length (int_to_string (top_serial [stored_row t])) \<le> 20" by (rule number_text(1) [OF top_serial_bounds(1)])
    then show ?thesis using clean_stored_row(2) [OF t] parse_stored_row [OF t]
      by (simp add: handle_all_eq row_ok_def MAX_DATAGRAM_def)
  qed
  with sample_txns_ok clean_stored_row(1) show ?thesis
    by (simp add: cluster_ok_def sample_cluster_def list_all_iff) (simp add: sample_txns_def)
qed

lemma sample_volume: "volume sample_txns = 329"
  by (simp add: volume_def sample_txns_def)

section \<open>Client requests\<close>

text \<open>What the main server does with the two requests of a client.\<close>

lemma client_check:
  assumes "cluster_ok bs" "user_name user" "1000 + volume (book bs) < 2 ^ 63"
  shows "\<exists>log. handle_client (cluster_udp reached) False pick (''CHECK_WALLET'' @ '' '' @ user) bs =
    Some (Some (if list_ex (involves user) (book bs) then ''FOUND'' @ '' '' @ int_to_string (balance_of user (book bs))
      else ''NOTFOUND''), log, bs)"
  using v1.check_wallet_reply [OF assms [unfolded book_def], of reached] request_read [OF assms(2) op_words(5)]
  by (simp add: handle_client_def book_def)

definition next_txn :: "backend list \<Rightarrow> string \<Rightarrow> string \<Rightarrow> int \<Rightarrow> mtxn" where
  "next_txn bs = next_entry (last_serial bs)"

lemma next_txn_ok:
  assumes "user_name sender" "user_name receiver"
    and "1000 + volume (book bs) + \<bar>amount\<bar> < 2 ^ 63" "last_serial bs + 1 < 2 ^ 63"
  shows "txn_ok (next_txn bs sender receiver amount)"
  unfolding next_txn_def last_serial_def by (rule next_entry_ok [OF assms [unfolded book_def last_serial_def]])

lemma client_transfer:
  assumes "cluster_ok bs" "pick < 3" "user_name sender" "user_name receiver" "receiver \<noteq> ''*''"
    and range: "1000 + volume (book bs) + \<bar>amount\<bar> < 2 ^ 63" "last_serial bs + 1 < 2 ^ 63"
  shows "\<exists>log. handle_client (cluster_udp reached) False pick
      (''TXCOINS '' @ sender @ '' '' @ receiver @ '' '' @ int_to_string amount) bs =
    Some (Some (transfer_reply (book bs) sender receiver amount), log,
      if feasible (book bs) sender receiver amount then entered reached (next_txn bs sender receiver amount) pick bs else bs)"
proof -
  let ?amt = "int_to_string amount"
  have amount: "in_long amount" using next_txn_ok [OF assms(3,4) range] by (simp add: txn_ok_def next_txn_def next_entry_def)
  have msg: "sendable (''TXCOINS '' @ sender @ '' '' @ receiver @ '' '' @ ?amt)"
    using assms(3,4) number_text(1,2) [OF amount] by (simp add: sendable_def MAX_DATAGRAM_def user_name_def)
  have rd: "word_or_empty (''TXCOINS '' @ sender @ '' '' @ receiver @ '' '' @ ?amt) =
      (''TXCOINS'', '' '' @ sender @ '' '' @ receiver @ '' '' @ ?amt)"
    "word_or_empty ('' '' @ sender @ '' '' @ receiver @ '' '' @ ?amt) = (sender, '' '' @ receiver @ '' '' @ ?amt)"
    "word_or_empty ('' '' @ receiver @ '' '' @ ?amt) = (receiver, '' '' @ ?amt)" "word_or_empty ('' '' @ ?amt) = (?amt, [])"
    using read_request_words(1) [OF op_words(6), of "sender @ '' '' @ receiver @ '' '' @ ?amt"]
      read_request_words(2) [of sender "receiver @ '' '' @ ?amt"] read_request_words(2) [of receiver ?amt]
      read_request_words(3) [OF number_blank_free [of amount]] assms(3,4) by (simp_all add: user_name_def)
  show ?thesis
    using v1.transfer_outcome [OF assms(1-5) range [unfolded book_def last_serial_def], of reached] received(2) [OF msg] rd
    by (simp add: handle_client_def strtol_text [OF amount] book_def last_serial_def next_txn_def)
qed

section \<open>The balance enquiry\<close>

text \<open>
  The balance enquiry of the first version answers from the book.  Over three backends whose
  replies fit a datagram, the main server replies \<open>NOTFOUND\<close> to a name in no transaction of the three
  block files, and otherwise \<open>FOUND\<close> with 1000 plus what the user received less what the user sent;
  the client prints this number, and no block file changes.
\<close>

theorem balance_enquiry:
  assumes "cluster_ok bs" "user_name user" "1000 + volume (book bs) < 2 ^ 63"
  shows "\<exists>request reply log. client_msg [user] = Some request \<and>
    handle_client (cluster_udp reached) False pick request bs = Some (Some reply, log, bs) \<and>
    client_answer [user] reply =
      (if list_ex (involves user) (book bs)
       then [''The current balance of '' @ quoted user @ '' is : '' @ int_to_string (balance_of user (book bs)) @ '' txcoins.'']
       else [quoted user @ '' is not a part of the network.''])"
proof -
  have msg: "client_msg [user] = Some (''CHECK_WALLET'' @ '' '' @ user)"
    using assms(2) by (simp add: client_msg_def CLIENT_BUF_def user_name_def)
  let ?n = "balance_of user (book bs)"
  let ?reply = "if list_ex (involves user) (book bs) then ''FOUND'' @ '' '' @ int_to_string ?n else ''NOTFOUND''"
  have n: "in_long ?n" using balance_range [of user "book bs"] assms(3) unfolding in_long_def by linarith
  have "\<exists>log. handle_client (cluster_udp reached) False pick (''CHECK_WALLET'' @ '' '' @ user) bs = Some (Some ?reply, log, bs)"
    using client_check [OF assms] .
  moreover have "client_answer [user] ?reply =
      (if list_ex (involves user) (book bs)
       then [''The current balance of '' @ quoted user @ '' is : '' @ int_to_string ?n @ '' txcoins.'']
       else [quoted user @ '' is not a part of the network.''])"
    using number_reply [OF n, of "''FOUND''"] number_text(3) [OF n]
    by (simp add: client_answer_def CLIENT_BUF_def cstr_def)
  ultimately show ?thesis using msg by blast
qed

theorem balance_enquiry_witness:
  "\<exists>request reply log. client_msg [''Oliver''] = Some request \<and>
    handle_client (cluster_udp None) False 0 request sample_cluster = Some (Some reply, log, sample_cluster) \<and>
    client_answer [''Oliver''] reply = [''The current balance of '' @ quoted ''Oliver'' @ '' is : '' @ int_to_string 1129 @ '' txcoins.'']"
proof -
  have v: "1000 + volume (book sample_cluster) < 2 ^ 63" by (simp add: sample_book sample_volume)
  have "balance_of ''Oliver'' (book sample_cluster) = 1129" "list_ex (involves ''Oliver'') (book sample_cluster)"
    by (simp_all add: sample_book sample_txns_def involves_def balance_of_def received_by_def paid_by_def
        INITIAL_BALANCE_def)
  with balance_enquiry [OF sample_cluster_ok user_names(2) v, of None 0] show ?thesis by simp
qed

section \<open>The transfer\<close>

text \<open>
  C39. A transfer of the first version is the transfer its reply names.  The main server rejects a
  transfer of an unknown party or above the balance and changes nothing.  Otherwise the chosen backend, and no
  other, gets exactly one row more, behind its others, whose serial number is above all in the book; every balance
  moves by the amount from the sender to the receiver, and the reply carries the sender's balance less the
  amount.  This is the sender's new balance, unless the sender is the receiver: then no balance changes,
  and the reply is off by the amount.  The client stays connected until the reply.
\<close>

theorem transfer_request:
  assumes "cluster_ok bs" "pick < 3" "user_name sender" "user_name receiver" "receiver \<noteq> ''*''"
    and "1000 + volume (book bs) + \<bar>amount\<bar> < 2 ^ 63" "last_serial bs + 1 < 2 ^ 63"
  shows "\<exists>log bs'. handle_client (cluster_udp reached) False pick
      (''TXCOINS '' @ sender @ '' '' @ receiver @ '' '' @ int_to_string amount) bs =
      Some (Some (transfer_reply (book bs) sender receiver amount), log, bs') \<and>
    (if feasible (book bs) sender receiver amount
     then (let t = next_txn bs sender receiver amount
           in length bs' = 3 \<and> be_rows (bs' ! pick) = be_rows (bs ! pick) @ [stored_row t] \<and>
              (\<forall>i. i \<noteq> pick \<longrightarrow> bs' ! i = bs ! i) \<and>
              mset (book bs') = add_mset t (mset (book bs)) \<and>
              list_all (\<lambda>x. mt_serial x < mt_serial t) (book bs) \<and>
              (\<forall>u. balance_of u (book bs') = balance_of u (book bs) +
                 (if u = receiver then amount else 0) - (if u = sender then amount else 0)) \<and>
              transfer_reply (book bs) sender receiver amount = ''SUCCESS '' @
                int_to_string (balance_of sender (book bs') - (if sender = receiver then amount else 0)))
     else bs' = bs)"
proof -
  let ?t = "next_txn bs sender receiver amount"
  let ?bs = "if feasible (book bs) sender receiver amount then entered reached ?t pick bs else bs"
  have t: "txn_ok ?t" by (rule next_txn_ok [OF assms(3,4,6,7)])
  note client = client_transfer [OF assms, of reached]
  have m: "mset (book (entered reached ?t pick bs)) = add_mset ?t (mset (book bs))"
    unfolding book_def by (rule v1.book_entered [OF assms(1) t assms(2)])
  have s: "list_all (\<lambda>x. mt_serial x < mt_serial ?t) (book bs)"
    using serial_at_top [of _ "\<lambda>i. be_rows (bs ! i)"]
    by (force simp: list_all_iff next_txn_def next_entry_def book_def last_serial_def)
  have "balance_of u (book (entered reached ?t pick bs)) = balance_of u (book bs) +
      (if u = receiver then amount else 0) - (if u = sender then amount else 0)" for u
    unfolding balance_entered [OF m] by (simp add: next_txn_def next_entry_def received_by_def paid_by_def)
  moreover have "length (entered reached ?t pick bs) = 3" "(\<forall>i. i \<noteq> pick \<longrightarrow> entered reached ?t pick bs ! i = bs ! i)"
    "be_rows (entered reached ?t pick bs ! pick) = be_rows (bs ! pick) @ [stored_row ?t]"
    using assms(1,2) by (simp_all add: entered_def cluster_ok_def with_row_def)
  ultimately have "if feasible (book bs) sender receiver amount
     then (let t = ?t
           in length ?bs = 3 \<and> be_rows (?bs ! pick) = be_rows (bs ! pick) @ [stored_row t] \<and>
              (\<forall>i. i \<noteq> pick \<longrightarrow> ?bs ! i = bs ! i) \<and>
              mset (book ?bs) = add_mset t (mset (book bs)) \<and> list_all (\<lambda>x. mt_serial x < mt_serial t) (book bs) \<and>
              (\<forall>u. balance_of u (book ?bs) = balance_of u (book bs) +
                 (if u = receiver then amount else 0) - (if u = sender then amount else 0)) \<and>
              transfer_reply (book bs) sender receiver amount = ''SUCCESS '' @
                int_to_string (balance_of sender (book ?bs) - (if sender = receiver then amount else 0)))
     else ?bs = bs"
    using m s unfolding Let_def by (simp add: feasible_def transfer_reply_def)
  with client show ?thesis by blast
qed

theorem transfer_request_witness:
  "\<exists>log bs'. handle_client (cluster_udp None) False 1 (''TXCOINS '' @ ''Ali'' @ '' '' @ ''John'' @ '' '' @ int_to_string 100) sample_cluster =
      Some (Some (''SUCCESS'' @ '' '' @ int_to_string 745), log, bs') \<and>
    balance_of ''John'' (book bs') = 1145 \<and> length (be_rows (bs' ! 1)) = Suc (length (be_rows (sample_cluster ! 1)))"
proof -
  have range: "1000 + volume (book sample_cluster) + \<bar>100\<bar> < 2 ^ 63" by (simp add: sample_book sample_volume)
  have serial: "last_serial sample_cluster = 9"
    by (simp add: last_serial_def serial_at_def sample_cluster_def sample_txns_def top_serial_def top_from_def
        parse_stored_row txn_ok_def in_long_def)
  then have "last_serial sample_cluster + 1 < 2 ^ 63" by simp
  note run = transfer_request [OF sample_cluster_ok _ user_names(5,4) _ range this, of 1 None]
  have book: "feasible (book sample_cluster) ''Ali'' ''John'' 100"
    "transfer_reply (book sample_cluster) ''Ali'' ''John'' 100 = ''SUCCESS'' @ '' '' @ int_to_string 745"
    "balance_of ''John'' (book sample_cluster) = 1045"
    by (simp_all add: sample_book sample_txns_def feasible_def transfer_reply_def involves_def balance_of_def
        received_by_def paid_by_def INITIAL_BALANCE_def)
  obtain log bs' where c: "handle_client (cluster_udp None) False 1
        (''TXCOINS '' @ ''Ali'' @ '' '' @ ''John'' @ '' '' @ int_to_string 100) sample_cluster =
        Some (Some (''SUCCESS'' @ '' '' @ int_to_string 745), log, bs')"
    and b: "balance_of ''John'' (book bs') = balance_of ''John'' (book sample_cluster) + 100"
      "length (be_rows (bs' ! 1)) = Suc (length (be_rows (sample_cluster ! 1)))"
    using run unfolding book(2) if_P [OF book(1)] Let_def by auto
  show ?thesis by (intro exI conjI, rule c) (use b book(3) in simp_all)
qed

text \<open>
  Two consequences of the outcome: an amount below zero is feasible whatever the receiver has, and
  takes it from the receiver; and a transfer of a user to itself reports a balance it does not have.
\<close>

lemma negative_transfer_takes:
  assumes "list_ex (involves sender) ts" "list_ex (involves receiver) ts" "amount \<le> 0" "0 \<le> balance_of sender ts"
  shows "feasible ts sender receiver amount"
  using assms by (simp add: feasible_def)

lemma self_transfer_report:
  assumes "feasible (book bs) u u amount" "txn_ok (next_txn bs u u amount)" "cluster_ok bs" "pick < 3"
  shows "transfer_reply (book bs) u u amount = ''SUCCESS '' @ int_to_string (balance_of u (book bs) - amount) \<and>
    balance_of u (book (entered reached (next_txn bs u u amount) pick bs)) = balance_of u (book bs)"
  using assms(1) balance_entered [OF v1.book_entered [OF assms(3,2,4)], of u]
  by (simp add: feasible_def transfer_reply_def next_txn_def next_entry_def received_by_def paid_by_def book_def)

section \<open>The statement\<close>

definition sorts_by_serial :: "(mtxn list \<Rightarrow> mtxn list) \<Rightarrow> bool" where
  "sorts_by_serial sorter \<longleftrightarrow> (\<forall>ts. mset (sorter ts) = mset ts \<and> sorted (map mt_serial (sorter ts)))"

text \<open>
  C40. The statement lists the book.  On \<^verbatim>\<open>TXLIST\<close> the main server writes the transactions of the three
  block files, decrypted and one per line in the order of their serial numbers, and confirms; with
  distinct serial numbers this order does not depend on the sorting algorithm.  No backend changes.
\<close>

theorem statement_of_book:
  assumes "cluster_ok bs" "sorts_by_serial sorter" "distinct (map mt_serial (book bs))"
    and "k \<ge> length (concat (map statement_line (sort_key mt_serial (book bs))))"
  shows "\<exists>log. handle_monitor (cluster_udp reached) False sorter (Some k) ''TXLIST'' old bs =
    Some (Some ''OK'', log, Some (concat (map statement_line (sort_key mt_serial (book bs)))), bs)"
proof -
  have s: "mset (sorter (book bs)) = mset (book bs)" "sorted (map mt_serial (sorter (book bs)))"
    using assms(2) by (simp_all add: sorts_by_serial_def)
  have d: "distinct (map mt_serial ts)" if "mset ts = mset (book bs)" for ts
    using mset_eq_imp_distinct_iff [of "map mt_serial ts" "map mt_serial (book bs)"] that assms(3) by simp
  have "sorter (book bs) = sort_key mt_serial (book bs)"
    by (rule seq_sorted_unique [where f = mt_serial])
      (use s d [OF s(1)] d [of "sort_key mt_serial (book bs)"] mset_eq_setD [OF s(1)] in \<open>simp_all add: strict_sorted_iff\<close>)
  moreover have "sendable ''TXLIST''" by (simp add: sendable_def MAX_DATAGRAM_def)
  ultimately show ?thesis
    using v1.statement_round [OF assms(1)] assms(4) received [of "''TXLIST''"]
    by (simp add: handle_monitor_def do_txlist_def send_reply_def book_def del: ask.simps)
qed

theorem statement_of_book_witness:
  "let text = concat (map statement_line (sort_key mt_serial sample_txns))
   in \<exists>log. handle_monitor (cluster_udp None) False (sort_key mt_serial) (Some (length text)) ''TXLIST'' None sample_cluster =
     Some (Some ''OK'', log, Some text, sample_cluster)"
proof -
  have "sorts_by_serial (sort_key mt_serial)" by (simp add: sorts_by_serial_def)
  moreover have "distinct (map mt_serial sample_txns)" by (simp add: sample_txns_def)
  ultimately show ?thesis
    unfolding Let_def by (rule statement_of_book [OF sample_cluster_ok, unfolded sample_book, OF _ _ order.refl])
qed

end
