(* ===== verification/Programs_V1.thy ===== *)
theory Programs_V1
  imports Network_V1
begin

text \<open>
  The programs of the first version from start to exit: the sockets they open, the errors they stop
  with, and their loops over what arrives.  The last section shows that the loop of the main server
  over its three backends is one ledger, whatever backends its random choices pick.
\<close>

section \<open>System calls\<close>

text \<open>A call that may fail with the text of its error; \<^verbatim>\<open>perror\<close> prints it behind a label.\<close>

datatype call = Call_OK | Call_Fails string

definition perror :: "string \<Rightarrow> string \<Rightarrow> string" where
  "perror label e = label @ '': '' @ e"

text \<open>Calls in the order they are made; the first that fails ends the program with its message.\<close>

fun try_calls :: "(string \<times> call) list \<Rightarrow> string option" where
  "try_calls [] = None"
| "try_calls ((label, Call_OK) # calls) = try_calls calls"
| "try_calls ((label, Call_Fails e) # calls) = Some (perror label e)"

text \<open>How far a program got: its exit code if it has ended, and the lines of its two outputs.\<close>

record outcome_v1 =
  ov_exit :: "int option"
  ov_out :: "string list"
  ov_err :: "string list"

definition stops :: "string list \<Rightarrow> string \<Rightarrow> outcome_v1" where
  "stops out e = \<lparr>ov_exit = Some 1, ov_out = out, ov_err = [e]\<rparr>"

section \<open>The backends\<close>

datatype arrival = Recv_Fails | Datagram "nat option" string

text \<open>The receive loop: the replies, the printed lines, the state.\<close>

fun backend_loop :: "string \<Rightarrow> arrival list \<Rightarrow> backend \<Rightarrow> string list \<times> string list \<times> backend" where
  "backend_loop srv [] b = ([], [], b)"
| "backend_loop srv (Recv_Fails # as) b = backend_loop srv as b"
| "backend_loop srv (Datagram reached d # as) b =
     (let (reply, lines, b) = backend_step srv reached d b;
          (replies, log, b) = backend_loop srv as b
      in (reply # replies, lines @ log, b))"

definition backend_main :: "backend_conf \<Rightarrow> call \<Rightarrow> call \<Rightarrow> (string \<Rightarrow> fcontent) \<Rightarrow> arrival list \<Rightarrow>
    outcome_v1 \<times> string list \<times> backend" where
  "backend_main conf sock bound fs as =
     (let (up, b) = backend_boot conf fs; label = ''server'' @ bc_name conf
      in case try_calls [(label @ '': socket'', sock), (label @ '': bind'', bound)] of
           Some e \<Rightarrow> (stops [] e, [], b)
         | None \<Rightarrow>
             let (replies, log, b) = backend_loop (bc_name conf) as b
             in (\<lparr>ov_exit = None, ov_out = up # log, ov_err = []\<rparr>, replies, b))"

definition serverA_main :: "call \<Rightarrow> call \<Rightarrow> (string \<Rightarrow> fcontent) \<Rightarrow> arrival list \<Rightarrow> outcome_v1 \<times> string list \<times> backend" where
  "serverA_main = backend_main serverA"

definition serverB_main :: "call \<Rightarrow> call \<Rightarrow> (string \<Rightarrow> fcontent) \<Rightarrow> arrival list \<Rightarrow> outcome_v1 \<times> string list \<times> backend" where
  "serverB_main = backend_main serverB"

definition serverC_main :: "call \<Rightarrow> call \<Rightarrow> (string \<Rightarrow> fcontent) \<Rightarrow> arrival list \<Rightarrow> outcome_v1 \<times> string list \<times> backend" where
  "serverC_main = backend_main serverC"

section \<open>The main server\<close>

definition init_udp :: "call \<Rightarrow> call \<Rightarrow> string option" where
  "init_udp sock bound = try_calls [(''serverM: udp socket'', sock), (''serverM: udp bind'', bound)]"

definition make_tcp_listener :: "string \<Rightarrow> call \<Rightarrow> call \<Rightarrow> call \<Rightarrow> string option" where
  "make_tcp_listener label sock bound listening = try_calls [(label, sock), (label, bound), (label, listening)]"

text \<open>
  What \<^verbatim>\<open>accept\<close> and the one \<^verbatim>\<open>recv\<close> give for a listener: not ready, an error, or the bytes received with
  whether the peer is gone at the reply, which ends the server.
\<close>

datatype conn = Not_Ready | Accept_Fails string | Accepted string bool

definition conn_input :: "conn \<Rightarrow> (string \<times> bool) option" where
  "conn_input c = (case c of Accepted recvd gone \<Rightarrow> Some (recvd, gone) | _ \<Rightarrow> None)"

definition conn_error :: "string \<Rightarrow> conn \<Rightarrow> string list" where
  "conn_error label c = (case c of Accept_Fails e \<Rightarrow> [perror label e] | _ \<Rightarrow> [])"

text \<open>What \<^verbatim>\<open>select\<close> wakes up with; \<open>Ready\<close> carries \<open>pick\<close> and \<open>reached\<close> of the round.\<close>

datatype wakeup = Interrupted | Select_Fails string | Ready nat "nat option" conn conn

fun serve_loop :: "'s udp \<Rightarrow> (mtxn list \<Rightarrow> mtxn list) \<Rightarrow> wakeup list \<Rightarrow> fcontent \<times> 's \<Rightarrow>
    (outcome_v1 \<times> (string option \<times> string option) list \<times> fcontent \<times> 's) option" where
  "serve_loop udp sorter [] w = Some (\<lparr>ov_exit = None, ov_out = [], ov_err = []\<rparr>, [], w)"
| "serve_loop udp sorter (Interrupted # ws) w = serve_loop udp sorter ws w"
| "serve_loop udp sorter (Select_Fails e # ws) w = Some (stops [] (perror ''serverM: select'' e), [], w)"
| "serve_loop udp sorter (Ready pick reached c m # ws) w =
     (case serve_ready udp sorter pick reached (conn_input c) (conn_input m) w of
        None \<Rightarrow> None
      | Some (r1, r2, log, w) \<Rightarrow>
          (case serve_loop udp sorter ws w of
             None \<Rightarrow> None
           | Some (ov, replies, w) \<Rightarrow>
               Some (ov\<lparr>ov_out := log @ ov_out ov,
                        ov_err := conn_error ''serverM: accept client'' c @ conn_error ''serverM: accept monitor'' m @ ov_err ov\<rparr>,
                     (r1, r2) # replies, w)))"

text \<open>The calls of the set up: the datagram socket, the two listeners with three calls each.\<close>

definition serverM_main :: "call \<times> call \<Rightarrow> call \<times> call \<times> call \<Rightarrow> call \<times> call \<times> call \<Rightarrow> 's udp \<Rightarrow>
    (mtxn list \<Rightarrow> mtxn list) \<Rightarrow> wakeup list \<Rightarrow> fcontent \<times> 's \<Rightarrow>
    (outcome_v1 \<times> (string option \<times> string option) list \<times> fcontent \<times> 's) option" where
  "serverM_main u c m udp sorter ws w =
     (case u of (u1, u2) \<Rightarrow> case c of (c1, c2, c3) \<Rightarrow> case m of (m1, m2, m3) \<Rightarrow>
        case init_udp u1 u2 of Some e \<Rightarrow> Some (stops [] e, [], w) | None \<Rightarrow>
        case make_tcp_listener ''serverM: client listener'' c1 c2 c3 of Some e \<Rightarrow> Some (stops [] e, [], w) | None \<Rightarrow>
        case make_tcp_listener ''serverM: monitor listener'' m1 m2 m3 of Some e \<Rightarrow> Some (stops [] e, [], w) | None \<Rightarrow>
        map_option (\<lambda>(ov, replies, w). (ov\<lparr>ov_out := ''The main server is up and running.'' # ov_out ov\<rparr>, replies, w))
          (serve_loop udp sorter ws w))"

section \<open>Client and monitor\<close>

text \<open>\<open>reply\<close> is what \<^verbatim>\<open>recv\<close> returned, empty when it failed or the peer closed.\<close>

definition client_main :: "string \<Rightarrow> string list \<Rightarrow> call \<Rightarrow> call \<Rightarrow> call \<Rightarrow> string \<Rightarrow> outcome_v1" where
  "client_main prog args sock conn sent reply =
     (if client_msg args = None
        then stops [] (''Usage: '' @ prog @ '' <username>  |  '' @ prog @ '' <sender> <receiver> <amount>'')
      else case try_calls [(''client: socket'', sock), (''client: connect'', conn), (''client: send'', sent)] of
             Some e \<Rightarrow> stops [''The client is up and running.''] e
           | None \<Rightarrow> (case client_run args reply of (code, out) \<Rightarrow> \<lparr>ov_exit = Some code, ov_out = out, ov_err = []\<rparr>))"

definition monitor_main :: "string \<Rightarrow> string list \<Rightarrow> call \<Rightarrow> call \<Rightarrow> call \<Rightarrow> string \<Rightarrow> outcome_v1" where
  "monitor_main prog args sock conn sent reply =
     (if args \<noteq> [''TXLIST''] then stops [] (''Usage: '' @ prog @ '' TXLIST'')
      else case try_calls [(''monitor: socket'', sock), (''monitor: connect'', conn), (''monitor: send'', sent)] of
             Some e \<Rightarrow> stops [''The monitor is up and running.''] e
           | None \<Rightarrow> (case monitor_run args reply of (code, out) \<Rightarrow> \<lparr>ov_exit = Some code, ov_out = out, ov_err = []\<rparr>))"

section \<open>The loop of the main server is one ledger\<close>

text \<open>
  The abstract program: the last serial number and the transactions, and what a request answers and
  adds.  It knows nothing of the three backends.
\<close>

datatype request_v1 = Check_Wallet string | Tx_Coins string string int

type_synonym ledger_v1 = "int \<times> mtxn list"

fun ledger_step :: "request_v1 \<Rightarrow> ledger_v1 \<Rightarrow> string \<times> ledger_v1" where
  "ledger_step (Check_Wallet u) (n, ts) =
     (if list_ex (involves u) ts then ''FOUND'' @ '' '' @ int_to_string (balance_of u ts) else ''NOTFOUND'', n, ts)"
| "ledger_step (Tx_Coins s r x) (n, ts) =
     (transfer_reply ts s r x, if feasible ts s r x then (n + 1, ts @ [next_entry n s r x]) else (n, ts))"

fun ledger_run :: "request_v1 list \<Rightarrow> ledger_v1 \<Rightarrow> string list \<times> ledger_v1" where
  "ledger_run [] l = ([], l)"
| "ledger_run (q # qs) l =
     (let (reply, l) = ledger_step q l; (replies, l) = ledger_run qs l in (reply # replies, l))"

fun request_text :: "request_v1 \<Rightarrow> string" where
  "request_text (Check_Wallet u) = ''CHECK_WALLET'' @ '' '' @ u"
| "request_text (Tx_Coins s r x) = ''TXCOINS '' @ s @ '' '' @ r @ '' '' @ int_to_string x"

definition request_round :: "request_v1 \<times> nat \<Rightarrow> wakeup" where
  "request_round q = (case q of (q, pick) \<Rightarrow> Ready pick None (Accepted (request_text q) False) Not_Ready)"

definition book_text :: "mtxn list \<Rightarrow> nat" where
  "book_text ts = (\<Sum>t \<leftarrow> ts. Suc (length (stored_row t)))"

text \<open>The backends hold the ledger, in rows as the main server writes them, in whatever distribution.\<close>

definition holds_ledger :: "ledger_v1 \<Rightarrow> backend list \<Rightarrow> bool" where
  "holds_ledger l bs \<longleftrightarrow> length bs = 3 \<and> fst l = last_serial bs \<and>
     (\<exists>parts. length parts = 3 \<and> mset (snd l) = mset (concat parts) \<and> list_all txn_ok (snd l) \<and>
        (\<forall>i<3. be_rows (bs ! i) = map stored_row (parts ! i)))"

text \<open>Requests with proper names, whose amounts keep the sums in range of the final ledger.\<close>

fun request_ok :: "ledger_v1 \<Rightarrow> request_v1 \<Rightarrow> bool" where
  "request_ok l (Check_Wallet u) = user_name u"
| "request_ok l (Tx_Coins s r x) =
     (user_name s \<and> user_name r \<and> r \<noteq> ''*'' \<and> 1000 + volume (snd l) + \<bar>x\<bar> < 2 ^ 63)"

definition ledger_fits :: "ledger_v1 \<Rightarrow> bool" where
  "ledger_fits l \<longleftrightarrow> fst l + 1 < 2 ^ 63 \<and> 1000 + volume (snd l) < 2 ^ 63 \<and> book_text (snd l) + 20 \<le> MAX_DATAGRAM"

subsection \<open>Facts about one round\<close>

lemma three: "length parts = 3 \<Longrightarrow> \<exists>a b c. parts = [a, b, c]"
  by (auto simp: length_Suc_conv numeral_3_eq_3)

lemma book_of_stored_rows: "list_all txn_ok ts \<Longrightarrow> book_of (map stored_row ts) = ts"
  by (induction ts) (simp_all add: book_of_def List.map_filter_simps decode_stored_row)

lemma rows_ok: "list_all txn_ok ts \<Longrightarrow> filter row_ok (map stored_row ts) = map stored_row ts"
  by (induction ts) (simp_all add: row_ok_def parse_stored_row)

lemma lines_after_stored: "length (lines_after (map stored_row ts)) = book_text ts"
  by (induction ts) (simp_all add: book_text_def)

lemmas lines_after_stored' [simp] = lines_after_stored [unfolded map_map]

lemma book_text_mset: "mset ts = mset us \<Longrightarrow> book_text ts = book_text us"
  by (simp add: book_text_def flip: sum_mset_sum_list)

lemma holds_parts:
  assumes "holds_ledger l bs"
  obtains a b c where "mset (snd l) = mset (a @ b @ c)" "list_all txn_ok (a @ b @ c)"
    "be_rows (bs ! 0) = map stored_row a" "be_rows (bs ! 1) = map stored_row b" "be_rows (bs ! 2) = map stored_row c"
proof -
  obtain parts where p: "length parts = 3" "mset (snd l) = mset (concat parts)" "list_all txn_ok (snd l)"
    "\<forall>i<3. be_rows (bs ! i) = map stored_row (parts ! i)"
    using assms by (auto simp: holds_ledger_def)
  obtain a b c where abc: "parts = [a, b, c]" using three [OF p(1)] by blast
  have "list_all txn_ok (a @ b @ c)" using p(2,3) mset_eq_setD [OF p(2)] by (simp add: abc list_all_iff)
  with that [of a b c] p show thesis by (simp add: abc numeral_2_eq_2)
qed

lemma holds_book:
  assumes "holds_ledger l bs"
  shows "mset (book bs) = mset (snd l)"
proof -
  obtain a b c where h: "mset (snd l) = mset (a @ b @ c)" "list_all txn_ok (a @ b @ c)"
    "be_rows (bs ! 0) = map stored_row a" "be_rows (bs ! 1) = map stored_row b" "be_rows (bs ! 2) = map stored_row c"
    using assms by (rule holds_parts)
  have "list_all txn_ok a" "list_all txn_ok b" "list_all txn_ok c" using h(2) by simp_all
  then show ?thesis using h(1,3-5) by (simp add: book_def book_at_def book_of_stored_rows numeral_2_eq_2)
qed

lemma holds_cluster_ok:
  assumes h: "holds_ledger l bs" and fits: "book_text (snd l) + 20 \<le> MAX_DATAGRAM"
  shows "cluster_ok bs"
proof -
  obtain a b c where p: "mset (snd l) = mset (a @ b @ c)" "list_all txn_ok (a @ b @ c)"
    "be_rows (bs ! 0) = map stored_row a" "be_rows (bs ! 1) = map stored_row b" "be_rows (bs ! 2) = map stored_row c"
    using h by (rule holds_parts)
  have row: "list_all clean_row (map stored_row ts) \<and> length (handle_all (map stored_row ts)) \<le> MAX_DATAGRAM"
    if ts: "list_all txn_ok ts" "book_text ts \<le> book_text (snd l)" for ts
  proof
    show "list_all clean_row (map stored_row ts)" using ts(1) clean_stored_row(1) by (simp add: list_all_iff)
    have "length (int_to_string (top_serial (map stored_row ts))) \<le> 20" by (rule number_text(1) [OF top_serial_bounds(1)])
    then show "length (handle_all (map stored_row ts)) \<le> MAX_DATAGRAM"
      using ts(2) fits by (simp add: handle_all_eq rows_ok [OF ts(1)] lines_after_stored)
  qed
  have size: "book_text (snd l) = book_text a + book_text b + book_text c"
    unfolding book_text_mset [OF p(1)] by (simp add: book_text_def)
  obtain x y z where bs: "bs = [x, y, z]" using h three [of bs] by (auto simp: holds_ledger_def)
  have "be_rows x = map stored_row a" "be_rows y = map stored_row b" "be_rows z = map stored_row c"
    using p(3-5) by (simp_all add: bs numeral_2_eq_2)
  then show ?thesis using row p(2) size by (simp add: cluster_ok_def bs)
qed

lemma top_serial_snoc:
  assumes "txn_ok t"
  shows "top_serial (rows @ [stored_row t]) = max (top_serial rows) (mt_serial t)"
  by (simp add: top_serial_def top_from_def parse_stored_row [OF assms])

lemma last_serial_entered:
  assumes "length bs = 3" "pick < 3" "txn_ok t" "mt_serial t = last_serial bs + 1"
  shows "last_serial (entered reached t pick bs) = last_serial bs + 1"
proof -
  obtain x y z where bs: "bs = [x, y, z]" using three [OF assms(1)] by blast
  have "pick = 0 \<or> pick = 1 \<or> pick = 2" using assms(2) by linarith
  then show ?thesis
    using assms(4) by (auto simp: bs last_serial_def serial_at_def entered_def with_row_def top_serial_snoc [OF assms(3)] max_def)
qed

lemma holds_entered:
  assumes h: "holds_ledger (n, ts) bs" and pick: "pick < 3" and t: "txn_ok t" "mt_serial t = n + 1"
  shows "holds_ledger (n + 1, ts @ [t]) (entered reached t pick bs)"
proof -
  obtain parts where p: "length parts = 3" "mset ts = mset (concat parts)" "list_all txn_ok ts"
    "\<forall>i<3. be_rows (bs ! i) = map stored_row (parts ! i)" and bs: "length bs = 3" "n = last_serial bs"
    using h by (auto simp: holds_ledger_def)
  obtain a b c where abc: "parts = [a, b, c]" using three [OF p(1)] by blast
  let ?parts = "parts[pick := parts ! pick @ [t]]"
  have "pick = 0 \<or> pick = 1 \<or> pick = 2" using pick by linarith
  then have "mset (ts @ [t]) = mset (concat ?parts)" using p(2) by (auto simp: abc)
  moreover have "\<forall>i<3. be_rows (entered reached t pick bs ! i) = map stored_row (?parts ! i)"
    using p(1,4) bs(1) pick by (auto simp: entered_def with_row_def nth_list_update)
  moreover have "n + 1 = last_serial (entered reached t pick bs)"
    using last_serial_entered [OF bs(1) pick t(1)] t(2) bs(2) by simp
  ultimately show ?thesis
    using p(1,3) t(1) bs(1) unfolding holds_ledger_def by (auto simp: entered_def intro!: exI [of _ ?parts])
qed

lemma replies_mset:
  assumes "mset ts = mset us"
  shows "transfer_reply ts s r x = transfer_reply us s r x" "feasible ts s r x = feasible us s r x"
    "list_ex P ts = list_ex P us" "balance_of u ts = balance_of u us" "volume ts = volume us"
proof -
  have ex: "list_ex P ts = list_ex P us" for P
    using mset_eq_setD [OF assms] by (metis list_ex_iff)
  note b = balance_mset [OF assms]
  show "list_ex P ts = list_ex P us" "balance_of u ts = balance_of u us" by (fact ex b)+
  show "transfer_reply ts s r x = transfer_reply us s r x" "feasible ts s r x = feasible us s r x"
    by (simp_all add: transfer_reply_def feasible_def ex b)
  show "volume ts = volume us" using assms by (simp add: volume_def flip: sum_mset_sum_list)
qed

subsection \<open>The ledger only grows\<close>

definition ledger_le :: "ledger_v1 \<Rightarrow> ledger_v1 \<Rightarrow> bool" where
  "ledger_le l l' \<longleftrightarrow> fst l \<le> fst l' \<and> volume (snd l) \<le> volume (snd l') \<and> book_text (snd l) \<le> book_text (snd l')"

lemma ledger_step_le: "ledger_le l (snd (ledger_step q l))"
  by (cases l; cases q) (auto simp: ledger_le_def volume_def book_text_def)

lemma ledger_run_le: "ledger_le l (snd (ledger_run qs l))"
proof (induction qs arbitrary: l)
  case Nil
  then show ?case by (simp add: ledger_le_def)
next
  case (Cons q qs)
  have "ledger_le (snd (ledger_step q l)) (snd (ledger_run qs (snd (ledger_step q l))))" by (rule Cons)
  with ledger_step_le [of l q] show ?case
    by (auto simp: ledger_le_def Let_def split: prod.splits intro: order.trans)
qed

lemma ledger_le_ok:
  assumes "ledger_le l l'"
  shows "ledger_fits l' \<Longrightarrow> ledger_fits l" "request_ok l' q \<Longrightarrow> request_ok l q"
  using assms by (auto simp: ledger_le_def ledger_fits_def) (cases q; auto)

subsection \<open>The refinement\<close>

lemma round_ledger:
  assumes h: "holds_ledger l bs" and fits: "ledger_fits l" and ok: "request_ok l q" and pick: "pick < 3"
  shows "\<exists>log bs'. serve_ready (cluster_udp reached) sorter pick None (Some (request_text q, False)) None (file, bs) =
      Some (Some (fst (ledger_step q l)), None, log, file, bs') \<and> holds_ledger (snd (ledger_step q l)) bs'"
proof -
  obtain n ts where l: "l = (n, ts)" by (cases l)
  have m: "mset (book bs) = mset ts" using holds_book [OF h] by (simp add: l)
  note eq = replies_mset [OF m]
  have cl: "cluster_ok bs" by (rule holds_cluster_ok [OF h]) (use fits in \<open>simp add: ledger_fits_def\<close>)
  have n: "last_serial bs = n" using h by (simp add: holds_ledger_def l)
  have client: "\<exists>log bs'. handle_client (cluster_udp reached) False pick (request_text q) bs =
      Some (Some (fst (ledger_step q l)), log, bs') \<and> holds_ledger (snd (ledger_step q l)) bs'"
  proof (cases q)
    case (Check_Wallet u)
    have "\<exists>log. handle_client (cluster_udp reached) False pick (''CHECK_WALLET'' @ '' '' @ u) bs =
        Some (Some (if list_ex (involves u) (book bs) then ''FOUND'' @ '' '' @ int_to_string (balance_of u (book bs))
          else ''NOTFOUND''), log, bs)"
      by (rule client_check [OF cl]) (use ok fits in \<open>simp_all add: Check_Wallet ledger_fits_def l eq(5)\<close>)
    from this [unfolded eq(3,4)] show ?thesis using h by (auto simp: Check_Wallet l)
  next
    case (Tx_Coins s r x)
    have names: "user_name s" "user_name r" "r \<noteq> ''*''" and v: "1000 + volume (book bs) + \<bar>x\<bar> < 2 ^ 63"
      and top: "last_serial bs + 1 < 2 ^ 63"
      using ok fits by (simp_all add: Tx_Coins l eq(5) ledger_fits_def n)
    have t: "txn_ok (next_txn bs s r x)" "mt_serial (next_txn bs s r x) = n + 1" "next_txn bs s r x = next_entry n s r x"
      using next_txn_ok [OF names(1,2) v top] by (simp_all add: next_txn_def next_entry_def n)
    show ?thesis
      using client_transfer [OF cl pick names v top, of reached] h
        holds_entered [OF h [unfolded l] pick t(1,2), of reached]
      by (auto simp: Tx_Coins l eq(1,2) t(3))
  qed
  then show ?thesis by (auto simp: serve_ready_def)
qed

lemma round_simp: "request_round (q, pick) = Ready pick None (Accepted (request_text q) False) Not_Ready"
  by (simp add: request_round_def)

lemma loop_ledger:
  assumes "holds_ledger l bs" "ledger_fits l'" "l' = snd (ledger_run (map fst qs) l)"
    and "\<forall>(q, pick) \<in> set qs. request_ok l' q \<and> pick < 3"
  shows "\<exists>out bs'. serve_loop (cluster_udp reached) sorter (map request_round qs) (file, bs) =
      Some (\<lparr>ov_exit = None, ov_out = out, ov_err = []\<rparr>, map (\<lambda>r. (Some r, None)) (fst (ledger_run (map fst qs) l)), file, bs') \<and>
    holds_ledger l' bs'"
  using assms
proof (induction qs arbitrary: l bs)
  case Nil
  then show ?case by simp
next
  case (Cons qp qs)
  obtain q pick where q: "qp = (q, pick)" by (cases qp)
  let ?l = "snd (ledger_step q l)"
  have l': "l' = snd (ledger_run (map fst qs) ?l)" using Cons.prems(3) by (simp add: q Let_def split: prod.split)
  have le: "ledger_le l l'" unfolding Cons.prems(3) by (rule ledger_run_le)
  obtain log bs1 where r: "serve_ready (cluster_udp reached) sorter pick None (Some (request_text q, False)) None (file, bs) =
      Some (Some (fst (ledger_step q l)), None, log, file, bs1)" "holds_ledger ?l bs1"
    using round_ledger [OF Cons.prems(1) ledger_le_ok(1) [OF le Cons.prems(2)], of q pick reached sorter "file"]
      ledger_le_ok(2) [OF le] Cons.prems(4) q by auto
  obtain out bs2 where "serve_loop (cluster_udp reached) sorter (map request_round qs) (file, bs1) =
      Some (\<lparr>ov_exit = None, ov_out = out, ov_err = []\<rparr>, map (\<lambda>r. (Some r, None)) (fst (ledger_run (map fst qs) ?l)), file, bs2)"
    "holds_ledger l' bs2"
    using Cons.IH [OF r(2) Cons.prems(2) l'] Cons.prems(4) by auto
  then show ?case
    using r(1) by (simp add: q round_simp conn_input_def conn_error_def Let_def case_prod_beta)
qed

text \<open>
  C38. The main server over its three backends is one ledger.  Once its sockets are open, its loop
  answers any sequence of balance enquiries and transfers as the ledger that keeps all transactions in
  one list, whichever backends its random choices pick, if no client is gone at its reply; and afterwards the three backends together
  hold exactly this ledger; provided the final ledger fits a datagram and the range of a \<^verbatim>\<open>long\<close>.
\<close>

theorem main_server_is_ledger:
  assumes "holds_ledger l bs" "ledger_fits (snd (ledger_run (map fst qs) l))"
    and "\<forall>(q, pick) \<in> set qs. request_ok (snd (ledger_run (map fst qs) l)) q \<and> pick < 3"
  shows "\<exists>out bs'. serverM_main (Call_OK, Call_OK) (Call_OK, Call_OK, Call_OK) (Call_OK, Call_OK, Call_OK)
      (cluster_udp reached) sorter (map request_round qs) (file, bs) =
      Some (\<lparr>ov_exit = None, ov_out = out, ov_err = []\<rparr>,
        map (\<lambda>r. (Some r, None)) (fst (ledger_run (map fst qs) l)), file, bs') \<and>
    holds_ledger (snd (ledger_run (map fst qs) l)) bs'"
proof -
  obtain out bs' where "serve_loop (cluster_udp reached) sorter (map request_round qs) (file, bs) =
      Some (\<lparr>ov_exit = None, ov_out = out, ov_err = []\<rparr>, map (\<lambda>r. (Some r, None)) (fst (ledger_run (map fst qs) l)), file, bs')"
    "holds_ledger (snd (ledger_run (map fst qs) l)) bs'"
    using loop_ledger [OF assms(1,2) refl assms(3)] by blast
  then show ?thesis by (simp add: serverM_main_def init_udp_def make_tcp_listener_def)
qed

lemma book_text_le: "list_all txn_ok ts \<Longrightarrow> book_text ts \<le> length ts * 2044"
  using clean_stored_row(2) by (induction ts) (fastforce simp: book_text_def)+

lemma sample_holds: "holds_ledger (9, sample_txns) sample_cluster"
proof -
  have "last_serial sample_cluster = 9"
    by (simp add: last_serial_def serial_at_def sample_cluster_def sample_txns_def top_serial_def top_from_def
        parse_stored_row txn_ok_def in_long_def)
  moreover have "\<forall>i<3. be_rows (sample_cluster ! i) = map stored_row (map (\<lambda>t. [t]) sample_txns ! i)"
    by (auto simp: sample_cluster_def sample_txns_def less_Suc_eq numeral_3_eq_3)
  ultimately show ?thesis
    using sample_txns_ok unfolding holds_ledger_def
    by (auto intro!: exI [of _ "map (\<lambda>t. [t]) sample_txns"]) (simp_all add: sample_cluster_def sample_txns_def)
qed

theorem main_server_is_ledger_witness:
  "\<exists>out bs'. serverM_main (Call_OK, Call_OK) (Call_OK, Call_OK, Call_OK) (Call_OK, Call_OK, Call_OK)
      (cluster_udp None) (\<lambda>ts. ts) (map request_round [(Tx_Coins ''Ali'' ''John'' 100, 1), (Check_Wallet ''John'', 0)]) (None, sample_cluster) =
      Some (\<lparr>ov_exit = None, ov_out = out, ov_err = []\<rparr>,
        [(Some (''SUCCESS'' @ '' '' @ int_to_string 745), None), (Some (''FOUND'' @ '' '' @ int_to_string 1145), None)], None, bs')"
proof -
  let ?qs = "[(Tx_Coins ''Ali'' ''John'' 100, 1), (Check_Wallet ''John'', 0)]"
  let ?t = "next_entry 9 ''Ali'' ''John'' 100"
  have run: "ledger_run (map fst ?qs) (9, sample_txns) =
      ([''SUCCESS'' @ '' '' @ int_to_string 745, ''FOUND'' @ '' '' @ int_to_string 1145], 10, sample_txns @ [?t])"
    by (simp add: sample_txns_def feasible_def transfer_reply_def involves_def balance_of_def received_by_def paid_by_def
        INITIAL_BALANCE_def next_entry_def)
  have "list_all txn_ok (sample_txns @ [?t])" using sample_txns_ok by (simp add: txn_ok_def next_entry_def in_long_def)
  from book_text_le [OF this] have "book_text (sample_txns @ [?t]) \<le> 4 * 2044" by (simp add: sample_txns_def)
  moreover have v: "volume (sample_txns @ [?t]) = 429" by (simp add: volume_def sample_txns_def next_entry_def)
  ultimately have "ledger_fits (10, sample_txns @ [?t])" by (simp add: ledger_fits_def MAX_DATAGRAM_def)
  with main_server_is_ledger [OF sample_holds, of ?qs None "\<lambda>ts. ts" None] v show ?thesis
    unfolding run by (simp del: append.simps) blast
qed

end
