(* ===== verification/Mine_Bench.thy ===== *)
theory Mine_Bench
  imports Cli
begin

text \<open>
  The difficulty benchmark (\<^verbatim>\<open>tools/mine_bench.cpp\<close>): searches over candidates with nothing but a
  coinbase on top of genesis.  What the clock measured for a search is the argument \<open>secs\<close>, as a number
  of ticks; the printing of the row is left out.  The lemmas show that the searches measured are searches
  for blocks a chain of that difficulty accepts, and that the row is ordered.
\<close>

text \<open>The number of samples and the difficulties of the command line.\<close>

definition bench_args :: "string list \<Rightarrow> int \<times> u32 list" where
  "bench_args argv =
     (if length argv \<ge> 2 then to_int32 (strtol (argv ! 1)) else 6,
      if length argv \<ge> 3 then map (\<lambda>a. ucast (strtoull a)) (drop 2 argv) else [12, 16, 20])"

definition bench_miner :: address where "bench_miner = replicate 20 0x33"

definition bench_base :: candidate where
  "bench_base =
     (let h = blk_header genesisBlock
      in buildCandidate bench_miner 0 (block_hash h) (bh_timestamp h) (bh_timestamp h + 1) (new_mempool 4096) (\<lambda>_. no_account))"

definition bench_candidate :: "nat \<Rightarrow> candidate" where
  "bench_candidate s =
     bench_base\<lparr>cd_hdr := (cd_hdr bench_base)\<lparr>bh_timestamp := bh_timestamp (blk_header genesisBlock) + 1 + word_of_nat s\<rparr>\<rparr>"

text \<open>The samples \<open>s\<close> with their measured times; \<open>None\<close> if a search does not end.\<close>

fun bench_samples :: "(nat \<Rightarrow> int) \<Rightarrow> u32 \<Rightarrow> nat list \<Rightarrow> int list option" where
  "bench_samples secs D [] = Some []"
| "bench_samples secs D (s # ss) =
     (case mine (\<lambda>_. False) (bench_candidate s) D of
        None \<Rightarrow> None
      | Some None \<Rightarrow> bench_samples secs D ss
      | Some (Some b) \<Rightarrow> map_option (\<lambda>ts. secs s # ts) (bench_samples secs D ss))"

definition bench_row :: "int list \<Rightarrow> int \<times> int \<times> int" where
  "bench_row secs =
     (let secs = sort secs
      in if secs = [] then (0, 0, 0) else (hd secs, secs ! (length secs div 2), last secs))"

fun bench_rows :: "(u32 \<Rightarrow> nat \<Rightarrow> int) \<Rightarrow> int \<Rightarrow> u32 list \<Rightarrow> (u32 \<times> int \<times> int \<times> int) list option" where
  "bench_rows secs samples [] = Some []"
| "bench_rows secs samples (D # Ds) =
     (case bench_samples (secs D) D [0..<nat samples] of
        None \<Rightarrow> None
      | Some ts \<Rightarrow> map_option (\<lambda>rows. (D, bench_row ts) # rows) (bench_rows secs samples Ds))"

definition mine_bench :: "(u32 \<Rightarrow> nat \<Rightarrow> int) \<Rightarrow> string list \<Rightarrow> (int \<times> (u32 \<times> int \<times> int \<times> int) list) option" where
  "mine_bench secs argv =
     (let (samples, difficulties) = bench_args argv
      in map_option (\<lambda>rows. (0, rows)) (bench_rows secs samples difficulties))"

section \<open>What is measured\<close>

lemma bench_candidate_built:
  "bench_candidate s = buildCandidate bench_miner (height (new_chain D R)) (tipHash (new_chain D R))
     (bh_timestamp (blk_header (last (ch_blocks (new_chain D R))))) (bh_timestamp (blk_header genesisBlock) + 1 + word_of_nat s)
     (new_mempool 4096) f" if "s < 2 ^ 60"
proof -
  have s: "(word_of_nat s :: u64) < 2 ^ 60"
    using that by (simp add: word_less_nat_alt unat_of_nat)
  have "(1704067200 :: u64) + 1 \<le> 1704067200 + 1 + word_of_nat s"
    using s by (simp add: word_le_nat_alt word_less_nat_alt unat_word_ariths)
  then show ?thesis
    by (simp add: bench_candidate_def bench_base_def buildCandidate_def Let_def height_def tipHash_def
        pending_txns_def sortedBySeq_def new_mempool_def List.map_filter_simps GENESIS_TIMESTAMP_def max_def)
qed

lemma bench_searches_valid_blocks:
  assumes "mine (\<lambda>_. False) (bench_candidate s) D = Some (Some b)" "s < 2 ^ 60"
    and "bh_timestamp (blk_header genesisBlock) < bh_timestamp (blk_header b)" "bh_timestamp (blk_header b) \<le> now_s + MAX_CLOCK_SKEW_S"
  shows "\<exists>w. tip_accepts vf (new_chain D COINBASE_REWARD) b now_s w"
  by (rule mined_connects [OF mempool_inv_new bench_candidate_built [OF assms(2)] refl])
    (use assms in simp_all)

lemma bench_row_ordered: "case bench_row ts of (lo, md, hi) \<Rightarrow> lo \<le> md \<and> md \<le> hi"
proof (cases "sort ts = []")
  case False
  let ?n = "length (sort ts)"
  have "0 < length ts" using False by (metis length_sort length_greater_0_conv)
  have "hd (sort ts) = sort ts ! 0" "last (sort ts) = sort ts ! (?n - 1)"
    using False by (simp_all add: hd_conv_nth last_conv_nth)
  moreover have "sort ts ! 0 \<le> sort ts ! (?n div 2)" "sort ts ! (?n div 2) \<le> sort ts ! (?n - 1)"
    using \<open>0 < length ts\<close> by (auto intro!: sorted_nth_mono)
  ultimately show ?thesis using False by (simp add: bench_row_def Let_def)
qed (simp add: bench_row_def)

end
