(* ===== verification/Frame.thy ===== *)
theory Frame
  imports Sys
begin

text \<open>
  The length-prefixed frame codec of the network layer (\<^verbatim>\<open>net/frame.hpp\<close>, \<^verbatim>\<open>p2p/frame.cpp\<close>):
  nine bytes of header (magic, type, big-endian length), then the payload, over a byte stream that
  may split and join messages.  A message type is the byte of the header: the cast to the
  enumeration keeps values outside it.

  The lemmas show that a frame is read back from any chunking of its bytes, and that a bad header
  is rejected before its body is read.
\<close>

definition FRAME_MAGIC :: "byte list" where "FRAME_MAGIC = [0x54, 0x58, 0x43, 0x31]"
definition MAX_FRAME_LEN :: u32 where "MAX_FRAME_LEN = 2 * 1024 * 1024"
definition FRAME_HEADER_LEN :: nat where "FRAME_HEADER_LEN = 9"

datatype frame_error = BAD_MAGIC | OVERSIZE | SHORT_READ | IO_ERROR

record frame =
  fr_type :: byte
  fr_payload :: "byte list"

section \<open>Operations\<close>

text \<open>\<open>got\<close> is the buffer filled so far; at the end of the stream a read fails.\<close>

function read_exact :: "nat \<Rightarrow> byte read_event list \<Rightarrow> byte list \<Rightarrow>
    ((frame_error + byte list) \<times> byte read_event list) option" where
  "read_exact n evs got =
     (if length got < n then
        case recv (n - length got) evs of
          None \<Rightarrow> None
        | Some (Closed, evs) \<Rightarrow> Some (Inl SHORT_READ, evs)
        | Some (Interrupted, evs) \<Rightarrow> read_exact n evs got
        | Some (Failed, evs) \<Rightarrow> Some (Inl IO_ERROR, evs)
        | Some (Got c, evs) \<Rightarrow> read_exact n evs (got @ c)
      else Some (Inr got, evs))"
  by pat_completeness auto
termination
  by (relation "measure (\<lambda>(n, evs, got). (n - length got) + length evs)")
    (auto simp: recv_def split: list.splits read_event.splits if_splits)

declare read_exact.simps [simp del]

definition frame_length :: "byte list \<Rightarrow> u32" where
  "frame_length hdr =
     push_bit 24 (ucast (hdr ! 5)) OR push_bit 16 (ucast (hdr ! 6)) OR push_bit 8 (ucast (hdr ! 7)) OR ucast (hdr ! 8)"

definition read_frame :: "byte read_event list \<Rightarrow> ((frame_error + frame) \<times> byte read_event list) option" where
  "read_frame evs =
     (case read_exact FRAME_HEADER_LEN evs [] of
        None \<Rightarrow> None
      | Some (Inl e, evs) \<Rightarrow> Some (Inl e, evs)
      | Some (Inr hdr, evs) \<Rightarrow>
          if hdr ! 0 \<noteq> FRAME_MAGIC ! 0 \<or> hdr ! 1 \<noteq> FRAME_MAGIC ! 1 \<or>
             hdr ! 2 \<noteq> FRAME_MAGIC ! 2 \<or> hdr ! 3 \<noteq> FRAME_MAGIC ! 3
          then Some (Inl BAD_MAGIC, evs)
          else
            let typ = hdr ! 4; len = frame_length hdr
            in if len > MAX_FRAME_LEN then Some (Inl OVERSIZE, evs)
               else if len = 0 then Some (Inr \<lparr>fr_type = typ, fr_payload = []\<rparr>, evs)
               else case read_exact (unat len) evs [] of
                      None \<Rightarrow> None
                    | Some (Inl e, evs) \<Rightarrow> Some (Inl e, evs)
                    | Some (Inr payload, evs) \<Rightarrow> Some (Inr \<lparr>fr_type = typ, fr_payload = payload\<rparr>, evs))"

definition frame_header :: "byte \<Rightarrow> u32 \<Rightarrow> byte list" where
  "frame_header typ len =
     [FRAME_MAGIC ! 0, FRAME_MAGIC ! 1, FRAME_MAGIC ! 2, FRAME_MAGIC ! 3, typ,
      ucast (drop_bit 24 len AND 0xFF), ucast (drop_bit 16 len AND 0xFF),
      ucast (drop_bit 8 len AND 0xFF), ucast (len AND 0xFF)]"

text \<open>Its \<^verbatim>\<open>send\<close> suppresses the signal where the platform can: a closed connection is then \<open>W_ERR\<close>.\<close>

definition write_all :: "write_result list \<Rightarrow> byte list \<Rightarrow> byte list \<Rightarrow> ((frame_error + unit) \<times> byte list) option" where
  "write_all ws buf out =
     map_option (\<lambda>(ok, out). (if ok then Inr () else Inl IO_ERROR, out)) (write_loop ws buf out)"

text \<open>The result and the bytes that went out; the two writes have their own call results.\<close>

definition write_frame :: "write_result list \<Rightarrow> write_result list \<Rightarrow> byte \<Rightarrow> byte list \<Rightarrow>
    ((frame_error + unit) \<times> byte list) option" where
  "write_frame ws1 ws2 typ payload =
     (if length payload > unat MAX_FRAME_LEN then Some (Inl OVERSIZE, [])
      else
        let len = word_of_nat (length payload)
        in case write_all ws1 (frame_header typ len) [] of
             None \<Rightarrow> None
           | Some (Inl err, out) \<Rightarrow> Some (Inl err, out)
           | Some (Inr _, out) \<Rightarrow> if payload = [] then Some (Inr (), out) else write_all ws2 payload out)"

section \<open>Reading from any chunking\<close>

lemma read_exact_clean:
  "clean evs \<Longrightarrow> n \<le> length got + length (stream_of evs) \<Longrightarrow> length got \<le> n \<Longrightarrow>
   \<exists>evs'. read_exact n evs got = Some (Inr (got @ take (n - length got) (stream_of evs)), evs') \<and>
     clean evs' \<and> stream_of evs' = drop (n - length got) (stream_of evs)"
proof (induction n evs got rule: read_exact.induct)
  case (1 n evs got)
  show ?case
  proof (cases "length got < n")
    case False
    with 1(5) have "length got = n" by simp
    then show ?thesis using 1(3) by (subst read_exact.simps) simp
  next
    case True
    show ?thesis
    proof (cases evs)
      case Nil
      with 1(4) True show ?thesis by simp
    next
      case (Cons e evs')
      show ?thesis
      proof (cases e)
        case (R_DATA c)
        define m where "m = min (n - length got) (length c)"
        define evs2 where "evs2 = (if length c \<le> n - length got then evs' else R_DATA (drop (n - length got) c) # evs')"
        have r: "recv (n - length got) evs = Some (Got (take m c), evs2)"
          using 1(3) Cons R_DATA True by (auto simp: recv_def m_def evs2_def)
        have str: "stream_of evs = take m c @ stream_of evs2" and cl: "clean evs2"
          using 1(3) Cons R_DATA True by (auto simp: m_def evs2_def)
        have lens: "n \<le> length (got @ take m c) + length (stream_of evs2)" "length (got @ take m c) \<le> n"
          using 1(4) True str by (auto simp: m_def)
        from 1(1) [OF True r refl refl cl lens] show ?thesis
          using True r str by (subst read_exact.simps) (auto simp: m_def)
      next
        case R_EINTR
        have r: "recv (n - length got) evs = Some (Interrupted, evs')" using Cons R_EINTR by (simp add: recv_def)
        from 1(2) [OF True r refl refl] 1(3-5) Cons R_EINTR True r show ?thesis
          by (subst read_exact.simps) simp
      qed (use 1(3) Cons in simp_all)
    qed
  qed
qed

definition frame_bytes :: "frame \<Rightarrow> byte list" where
  "frame_bytes f = frame_header (fr_type f) (word_of_nat (length (fr_payload f))) @ fr_payload f"

lemma length_frame_header [simp]: "length (frame_header t n) = 9"
  by (simp add: frame_header_def)

lemma ucast_and_byte: "(ucast (w AND 0xFF) :: byte) = ucast (w :: u32)"
proof -
  have "w AND 0xFF = take_bit 8 w" by (simp add: take_bit_eq_mask mask_eq_exp_minus_1)
  then show ?thesis by (intro bit_word_eqI) (simp add: bit_simps)
qed

lemma frame_length_header: "frame_length (frame_header t n) = n"
proof -
  have "be_bytes 4 n = [ucast (drop_bit 24 n), ucast (drop_bit 16 n), ucast (drop_bit 8 n), ucast n]"
    by (simp add: be_bytes_def upt_rec)
  then have "frame_length (frame_header t n) = of_be (be_bytes 4 n)"
    by (simp add: frame_length_def frame_header_def ucast_and_byte of_be_def ac_simps)
  then show ?thesis by (simp add: of_be_be_bytes)
qed

lemma frame_header_magic:
  "frame_header t n ! 0 = FRAME_MAGIC ! 0" "frame_header t n ! Suc 0 = FRAME_MAGIC ! Suc 0"
  "frame_header t n ! 2 = FRAME_MAGIC ! 2" "frame_header t n ! 3 = FRAME_MAGIC ! 3"
  "frame_header t n ! 4 = t"
  by (simp_all add: frame_header_def)

lemma unat_frame_length:
  "length p \<le> unat MAX_FRAME_LEN \<Longrightarrow> unat (word_of_nat (length p) :: u32) = length p"
  by (simp add: MAX_FRAME_LEN_def unat_of_nat)

lemma read_frame_bytes:
  assumes clean: "clean evs" and bytes: "stream_of evs = frame_bytes f @ rest"
    and fits: "length (fr_payload f) \<le> unat MAX_FRAME_LEN"
  shows "\<exists>evs'. read_frame evs = Some (Inr f, evs') \<and> clean evs' \<and> stream_of evs' = rest"
proof -
  let ?len = "word_of_nat (length (fr_payload f)) :: u32"
  let ?hdr = "frame_header (fr_type f) ?len"
  have n: "unat ?len = length (fr_payload f)" using fits by (rule unat_frame_length)
  obtain evs1 where h: "read_exact FRAME_HEADER_LEN evs [] = Some (Inr ?hdr, evs1)"
    "clean evs1" "stream_of evs1 = fr_payload f @ rest"
    using read_exact_clean [OF clean, of FRAME_HEADER_LEN "[]"] bytes
    by (auto simp: frame_bytes_def FRAME_HEADER_LEN_def)
  have ok: "\<not> ?len > MAX_FRAME_LEN" using fits n by (simp add: word_less_nat_alt)
  show ?thesis
  proof (cases "fr_payload f = []")
    case True
    then show ?thesis
      using h by (simp add: read_frame_def frame_header_magic frame_length_header Let_def)
  next
    case False
    then have nz: "?len \<noteq> 0" using n by (auto simp flip: unat_eq_zero)
    obtain evs2 where "read_exact (length (fr_payload f)) evs1 [] = Some (Inr (fr_payload f), evs2)"
      "clean evs2" "stream_of evs2 = rest"
      using read_exact_clean [OF h(2), of "length (fr_payload f)" "[]"] h(3) by auto
    then show ?thesis
      using h(1) ok nz n by (simp add: read_frame_def frame_header_magic frame_length_header Let_def)
  qed
qed

lemma write_all_Inr: "write_all ws buf out = Some (Inr (), out') \<Longrightarrow> out' = out @ buf"
  by (auto simp: write_all_def split: if_splits dest: write_loop_result)

lemma write_frame_bytes:
  assumes "write_frame ws1 ws2 t p = Some (Inr (), out)"
  shows "out = frame_bytes \<lparr>fr_type = t, fr_payload = p\<rparr>" "length p \<le> unat MAX_FRAME_LEN"
  using assms
  by (auto simp: write_frame_def frame_bytes_def Let_def split: if_splits option.splits sum.splits dest!: write_all_Inr)

text \<open>
  C22. A frame that \<^verbatim>\<open>write_frame\<close> reports as sent survives the byte stream: whatever chunks its
  bytes arrive in, with other bytes behind them, \<^verbatim>\<open>read_frame\<close> returns exactly its type and payload
  and leaves exactly the other bytes.
\<close>

theorem frame_roundtrip:
  assumes "write_frame ws1 ws2 t p = Some (Inr (), out)" and "clean evs" "stream_of evs = out @ rest"
  shows "\<exists>evs'. read_frame evs = Some (Inr \<lparr>fr_type = t, fr_payload = p\<rparr>, evs') \<and> clean evs' \<and> stream_of evs' = rest"
  using read_frame_bytes [of evs "\<lparr>fr_type = t, fr_payload = p\<rparr>" rest] write_frame_bytes [OF assms(1)] assms(2,3)
  by simp

theorem frame_roundtrip_witness:
  "\<exists>evs'. read_frame [R_DATA [0x54, 0x58, 0x43], R_EINTR, R_DATA [0x31, 5, 0, 0, 0], R_DATA [2, 7, 8, 9]] =
     Some (Inr \<lparr>fr_type = 5, fr_payload = [7, 8]\<rparr>, evs') \<and> clean evs' \<and> stream_of evs' = [9]"
proof (rule frame_roundtrip)
  show "write_frame [W_N 4, W_EINTR, W_N 5] [W_N 2] 5 [7, 8] =
      Some (Inr (), [0x54, 0x58, 0x43, 0x31, 5, 0, 0, 0, 2, 7, 8])"
    by (simp add: write_frame_def write_all_def frame_header_def FRAME_MAGIC_def MAX_FRAME_LEN_def Let_def)
qed simp_all

lemma read_exact_short:
  "clean evs \<Longrightarrow> length got + length (stream_of evs) < n \<Longrightarrow>
   read_exact n (evs @ [R_EOF]) got = Some (Inl SHORT_READ, [R_EOF])"
proof (induction evs arbitrary: got)
  case Nil
  then show ?case by (subst read_exact.simps) (simp add: recv_def)
next
  case (Cons e evs)
  then show ?case
    by (cases e; subst read_exact.simps) (auto simp: recv_def)
qed

text \<open>
  What is refused, and when: a header without the magic, or one that declares more than two
  mebibytes, is rejected after exactly nine bytes, before any of the body is read; a stream that
  ends inside a frame is a short read.
\<close>

theorem frame_rejections:
  assumes clean: "clean evs" and len: "9 \<le> length (stream_of evs)"
    and short: "clean torn" "length (stream_of torn) < 9"
  shows "(\<exists>evs'. stream_of evs' = drop 9 (stream_of evs) \<and>
      (let hdr = take 9 (stream_of evs)
       in if take 4 hdr \<noteq> FRAME_MAGIC then read_frame evs = Some (Inl BAD_MAGIC, evs')
          else frame_length hdr \<le> MAX_FRAME_LEN \<or> read_frame evs = Some (Inl OVERSIZE, evs'))) \<and>
    read_frame (torn @ [R_EOF]) = Some (Inl SHORT_READ, [R_EOF])"
proof (rule conjI)
  let ?hdr = "take 9 (stream_of evs)"
  obtain evs1 where h: "read_exact FRAME_HEADER_LEN evs [] = Some (Inr ?hdr, evs1)"
    "stream_of evs1 = drop 9 (stream_of evs)"
    using read_exact_clean [OF clean, of FRAME_HEADER_LEN "[]"] len by (auto simp: FRAME_HEADER_LEN_def)
  have "take 4 ?hdr = [?hdr ! 0, ?hdr ! 1, ?hdr ! 2, ?hdr ! 3]"
    using len by (intro nth_equalityI) (auto simp: less_Suc_eq numeral_eq_Suc)
  then have magic: "take 4 ?hdr = FRAME_MAGIC \<longleftrightarrow> (?hdr ! 0 = FRAME_MAGIC ! 0 \<and> ?hdr ! 1 = FRAME_MAGIC ! 1 \<and>
      ?hdr ! 2 = FRAME_MAGIC ! 2 \<and> ?hdr ! 3 = FRAME_MAGIC ! 3)"
    by (simp only: FRAME_MAGIC_def) simp
  show "\<exists>evs'. stream_of evs' = drop 9 (stream_of evs) \<and>
      (let hdr = take 9 (stream_of evs)
       in if take 4 hdr \<noteq> FRAME_MAGIC then read_frame evs = Some (Inl BAD_MAGIC, evs')
          else frame_length hdr \<le> MAX_FRAME_LEN \<or> read_frame evs = Some (Inl OVERSIZE, evs'))"
  proof (intro exI conjI)
    show "let hdr = ?hdr
       in if take 4 hdr \<noteq> FRAME_MAGIC then read_frame evs = Some (Inl BAD_MAGIC, evs1)
          else frame_length hdr \<le> MAX_FRAME_LEN \<or> read_frame evs = Some (Inl OVERSIZE, evs1)"
      unfolding Let_def magic using h(1) by (auto simp: read_frame_def Let_def not_le)
  qed (rule h(2))
next
  show "read_frame (torn @ [R_EOF]) = Some (Inl SHORT_READ, [R_EOF])"
    using read_exact_short [OF short(1), of "[]" FRAME_HEADER_LEN] short(2)
    by (simp add: read_frame_def FRAME_HEADER_LEN_def)
qed

theorem frame_rejections_witness:
  "\<exists>evs'. read_frame [R_DATA [0x54, 0x58, 0x43, 0x31, 6, 0xFF, 0, 0, 0, 1, 2]] = Some (Inl OVERSIZE, evs')"
proof -
  have m: "take 4 [0x54, 0x58, 0x43, 0x31, 6, 0xFF, 0, 0, 0, 1, 2 :: byte] = FRAME_MAGIC"
    by (simp add: FRAME_MAGIC_def)
  have l: "\<not> frame_length [0x54, 0x58, 0x43, 0x31, 6, 0xFF, 0, 0, 0] \<le> MAX_FRAME_LEN"
    by (simp add: frame_length_def MAX_FRAME_LEN_def)
  show ?thesis
    using frame_rejections [of "[R_DATA [0x54, 0x58, 0x43, 0x31, 6, 0xFF, 0, 0, 0, 1, 2]]" "[]"] m l
    by (auto simp: Let_def)
qed

end
