(* ===== verification/Operators.thy ===== *)
theory Operators
  imports Frame Validate Mempool
begin

text \<open>
  The small operators of the data types: the codes of the enumerations, the comparison of the
  structures member by member, the hash of the mempool's tables, the result type of the frame codec and the
  names of the modules.  The lemmas justify what the rest of the development takes for granted: the comparisons are
  equality, the two enumerations of reasons agree, a result is a sum.
\<close>

section \<open>Enumerations\<close>

text \<open>The underlying values of \<^verbatim>\<open>Reason\<close>, \<^verbatim>\<open>AdmitResult\<close> and \<^verbatim>\<open>MsgType\<close>.\<close>

fun reason_code :: "reason \<Rightarrow> byte" where
  "reason_code OK = 0"
| "reason_code BAD_LINK = 1"
| "reason_code BAD_TXNS_HASH = 2"
| "reason_code BAD_POW = 3"
| "reason_code BAD_SIG = 4"
| "reason_code BAD_ADDR = 5"
| "reason_code STALE_NONCE = 6"
| "reason_code INSUFFICIENT_FUNDS = 7"
| "reason_code BAD_SUPPLY = 8"

fun admit_code :: "admit_result \<Rightarrow> byte" where
  "admit_code A_OK = 0"
| "admit_code A_BAD_SIG = 4"
| "admit_code A_BAD_ADDR = 5"
| "admit_code A_STALE_NONCE = 6"
| "admit_code A_INSUFFICIENT_FUNDS = 7"
| "admit_code A_UNPARSEABLE = 100"
| "admit_code A_DUPLICATE = 101"
| "admit_code A_MEMPOOL_FULL = 102"
| "admit_code A_PENDING_SLOT_BUSY = 103"

datatype msg_type = VERSION | VERACK | INV | GETDATA | TX | BLOCK | GETHEADERS | HEADERS | GETADDR | ADDR

fun msg_code :: "msg_type \<Rightarrow> byte" where
  "msg_code VERSION = 1"
| "msg_code VERACK = 2"
| "msg_code INV = 3"
| "msg_code GETDATA = 4"
| "msg_code TX = 5"
| "msg_code BLOCK = 6"
| "msg_code GETHEADERS = 7"
| "msg_code HEADERS = 8"
| "msg_code GETADDR = 9"
| "msg_code ADDR = 10"

text \<open>
  An admission outcome has the code of a reason exactly where it has its name: the bridge keeps code and
  name, and the outcomes of the pool alone are codes of no reason.
\<close>

lemma admit_code_reason: "admit_code a = reason_code r \<longleftrightarrow> admit_result_name a = reasonName r"
  by (cases a; cases r) simp_all

lemma bridge_keeps_code:
  "reason_to_admit r \<noteq> A_UNPARSEABLE \<Longrightarrow>
    admit_code (reason_to_admit r) = reason_code r \<and> admit_result_name (reason_to_admit r) = reasonName r"
  by (cases r) simp_all

lemma codes_distinct: "inj reason_code" "inj admit_code" "inj msg_code"
proof -
  show "inj reason_code"
  proof (rule injI)
    show "a = b" if "reason_code a = reason_code b" for a b using that by (cases a; cases b) simp_all
  qed
  show "inj admit_code"
  proof (rule injI)
    show "a = b" if "admit_code a = admit_code b" for a b using that by (cases a; cases b) simp_all
  qed
  show "inj msg_code"
  proof (rule injI)
    show "a = b" if "msg_code a = msg_code b" for a b using that by (cases a; cases b) simp_all
  qed
qed

text \<open>The built-in comparison of a scoped enumeration is that of the underlying values.\<close>

instantiation reason :: linorder
begin

definition less_eq_reason :: "reason \<Rightarrow> reason \<Rightarrow> bool" where
  "less_eq_reason a b \<longleftrightarrow> reason_code a \<le> reason_code b"

definition less_reason :: "reason \<Rightarrow> reason \<Rightarrow> bool" where
  "less_reason a b \<longleftrightarrow> reason_code a < reason_code b"

instance
  by standard (use codes_distinct(1) in \<open>auto simp: less_eq_reason_def less_reason_def dest: injD\<close>)

end

instantiation admit_result :: linorder
begin

definition less_eq_admit_result :: "admit_result \<Rightarrow> admit_result \<Rightarrow> bool" where
  "less_eq_admit_result a b \<longleftrightarrow> admit_code a \<le> admit_code b"

definition less_admit_result :: "admit_result \<Rightarrow> admit_result \<Rightarrow> bool" where
  "less_admit_result a b \<longleftrightarrow> admit_code a < admit_code b"

instance
  by standard (use codes_distinct(2) in \<open>auto simp: less_eq_admit_result_def less_admit_result_def dest: injD\<close>)

end

text \<open>The outcomes of the pool alone come behind all others, and the bridge is monotone on the reasons of the gate.\<close>

lemma local_outcomes: "A_UNPARSEABLE \<le> a \<longleftrightarrow> admit_result_name a \<notin> range reasonName"
proof -
  have "admit_result_name a \<in> range reasonName \<longleftrightarrow> (\<exists>r. admit_code a = reason_code r)"
    by (auto simp: admit_code_reason)
  moreover have "(\<exists>r. admit_code a = reason_code r) \<longleftrightarrow> admit_code a < 100"
  proof
    assume "\<exists>r. admit_code a = reason_code r"
    then obtain r where "admit_code a = reason_code r" by blast
    then show "admit_code a < 100" by (cases r) simp_all
  next
    assume "admit_code a < 100"
    then show "\<exists>r. admit_code a = reason_code r"
      by (cases a) (auto intro: exI [of _ OK] exI [of _ BAD_SIG] exI [of _ BAD_ADDR] exI [of _ STALE_NONCE] exI [of _ INSUFFICIENT_FUNDS])
  qed
  ultimately show ?thesis by (simp add: less_eq_admit_result_def not_less)
qed

lemma bridged_reasons: "reason_to_admit r < A_UNPARSEABLE \<longleftrightarrow> r = OK \<or> BAD_SIG \<le> r \<and> r \<le> INSUFFICIENT_FUNDS"
  by (cases r) (simp_all add: less_admit_result_def less_eq_reason_def word_le_nat_alt word_less_nat_alt)

section \<open>Comparison of structures\<close>

definition txn_eq :: "txn \<Rightarrow> txn \<Rightarrow> bool" where
  "txn_eq a b \<longleftrightarrow> tx_ver a = tx_ver b \<and> tx_from a = tx_from b \<and> tx_to a = tx_to b \<and>
     tx_amount a = tx_amount b \<and> tx_nonce a = tx_nonce b \<and> tx_pubkey a = tx_pubkey b \<and> tx_sig a = tx_sig b"

definition header_eq :: "block_header \<Rightarrow> block_header \<Rightarrow> bool" where
  "header_eq a b \<longleftrightarrow> bh_index a = bh_index b \<and> bh_timestamp a = bh_timestamp b \<and>
     bh_prevHash a = bh_prevHash b \<and> bh_txnsHash a = bh_txnsHash b \<and> bh_nonce a = bh_nonce b"

definition block_eq :: "block \<Rightarrow> block \<Rightarrow> bool" where
  "block_eq a b \<longleftrightarrow> header_eq (blk_header a) (blk_header b) \<and> list_all2 txn_eq (blk_txns a) (blk_txns b)"

definition account_eq :: "account_state \<Rightarrow> account_state \<Rightarrow> bool" where
  "account_eq a b \<longleftrightarrow> acc_balance a = acc_balance b \<and> acc_nonce a = acc_nonce b"

definition verify_result_eq :: "verify_result \<Rightarrow> verify_result \<Rightarrow> bool" where
  "verify_result_eq a b \<longleftrightarrow> vr_ok a = vr_ok b \<and> vr_failIndex a = vr_failIndex b \<and>
     vr_reason a = vr_reason b \<and> vr_detail a = vr_detail b"

definition frame_eq :: "frame \<Rightarrow> frame \<Rightarrow> bool" where
  "frame_eq a b \<longleftrightarrow> fr_type a = fr_type b \<and> fr_payload a = fr_payload b"

lemma txn_eq_iff: "txn_eq a b \<longleftrightarrow> a = b"
  by (cases a, cases b) (simp add: txn_eq_def)

lemma header_eq_iff: "header_eq a b \<longleftrightarrow> a = b"
  by (cases a, cases b) (simp add: header_eq_def)

lemma block_eq_iff: "block_eq a b \<longleftrightarrow> a = b"
proof -
  have "txn_eq = (=)" by (simp add: fun_eq_iff txn_eq_iff)
  then show ?thesis by (cases a, cases b) (simp add: block_eq_def header_eq_iff list.rel_eq)
qed

lemma struct_eq_iff:
  "account_eq a b \<longleftrightarrow> a = b" "verify_result_eq v w \<longleftrightarrow> v = w" "frame_eq f g \<longleftrightarrow> f = g"
  by (auto simp: account_eq_def verify_result_eq_def frame_eq_def)

section \<open>The hash of the pool's tables\<close>

definition FNV_PRIME :: u64 where "FNV_PRIME = 1099511628211"

definition array_hash :: "byte list \<Rightarrow> u64" where
  "array_hash a = fold (\<lambda>b h. (h XOR ucast b) * FNV_PRIME) a 1469598103934665603"

text \<open>The prime is odd, so a step loses nothing: keys that differ in one byte never share a hash.\<close>

lemma fnv_prime_cancel: "x * FNV_PRIME = y * FNV_PRIME \<longleftrightarrow> x = y"
proof
  have inv: "FNV_PRIME * 0xce965057aff6957b = 1" by (simp add: FNV_PRIME_def)
  assume "x * FNV_PRIME = y * FNV_PRIME"
  then have "x * (FNV_PRIME * 0xce965057aff6957b) = y * (FNV_PRIME * 0xce965057aff6957b)"
    by (simp only: mult.assoc [symmetric])
  then show "x = y" by (simp only: inv mult_1_right)
qed simp

lemma fnv_inj: "fold (\<lambda>b h. (h XOR ucast b) * FNV_PRIME) bs h = fold (\<lambda>b h. (h XOR ucast b) * FNV_PRIME) bs h' \<Longrightarrow> h = h'"
proof (induction bs arbitrary: h h')
  case (Cons b bs)
  from Cons.IH [of "(h XOR ucast b) * FNV_PRIME" "(h' XOR ucast b) * FNV_PRIME"] Cons.prems
  have "h XOR ucast b = h' XOR ucast b" by (simp add: fnv_prime_cancel)
  then have "(h XOR ucast b) XOR ucast b = (h' XOR ucast b) XOR ucast b" by simp
  then show ?case by (simp add: xor.assoc)
qed simp

lemma array_hash_one_byte:
  assumes "array_hash (pre @ x # post) = array_hash (pre @ y # post)"
  shows "x = y"
proof -
  define h where "h = fold (\<lambda>b h. (h XOR ucast b) * FNV_PRIME) pre 1469598103934665603"
  have "(h XOR ucast x) * FNV_PRIME = (h XOR ucast y) * FNV_PRIME"
    using assms unfolding array_hash_def fold_append fold_simps o_apply h_def by (rule fnv_inj)
  then have "h XOR ucast x = h XOR ucast y" by (simp only: fnv_prime_cancel)
  then have "(ucast x :: u64) = ucast y" by (auto simp: bit_eq_iff bit_xor_iff)
  moreover have up: "uint (ucast b :: u64) = uint b" for b :: byte by (rule uint_up_ucast) (simp add: is_up)
  ultimately have "uint x = uint y" by (metis up)
  then show ?thesis by (rule word_uint_eqI)
qed

section \<open>Results of the frame codec\<close>

text \<open>\<open>T{}\<close>, the value of a failure, is an argument.\<close>

record 'a frame_result =
  fres_ok :: bool
  fres_error :: frame_error
  fres_value :: 'a

definition fres_success :: "'a \<Rightarrow> 'a frame_result" where
  "fres_success v = \<lparr>fres_ok = True, fres_error = IO_ERROR, fres_value = v\<rparr>"

definition fres_failure :: "'a \<Rightarrow> frame_error \<Rightarrow> 'a frame_result" where
  "fres_failure none e = \<lparr>fres_ok = False, fres_error = e, fres_value = none\<rparr>"

text \<open>The sum the codec's model returns, and its encoding in the structure.\<close>

definition fres_sum :: "'a frame_result \<Rightarrow> frame_error + 'a" where
  "fres_sum r = (if fres_ok r then Inr (fres_value r) else Inl (fres_error r))"

lemma fres_sum_case: "fres_sum (case_sum (fres_failure none) fres_success r) = r"
  by (cases r) (simp_all add: fres_sum_def fres_failure_def fres_success_def)

section \<open>Module names\<close>

datatype core_module = M_chain | M_config | M_crypto | M_log | M_mempool | M_metrics | M_p2p | M_pow | M_rpc
  | M_serialize | M_state

fun core_module_name :: "core_module \<Rightarrow> string" where
  "core_module_name M_chain = ''chain''"
| "core_module_name M_config = ''config''"
| "core_module_name M_crypto = ''crypto''"
| "core_module_name M_log = ''log''"
| "core_module_name M_mempool = ''mempool''"
| "core_module_name M_metrics = ''metrics''"
| "core_module_name M_p2p = ''p2p''"
| "core_module_name M_pow = ''pow''"
| "core_module_name M_rpc = ''rpc''"
| "core_module_name M_serialize = ''serialize''"
| "core_module_name M_state = ''state''"

lemma module_name_inj: "core_module_name m = core_module_name n \<longleftrightarrow> m = n"
  by (cases m; cases n) simp_all

end
