(* ===== verification/Spec2Isabelle.thy ===== *)
theory Spec2Isabelle
  imports Node_Http Node_Life Node_Main Programs_V1 Mine_Bench Operators
begin

text \<open>
  A verification development for TxChain, a C++ teaching ledger in two versions.  Version 1 (the top
  level of the repository) is a main server that keeps no data and asks three backend servers, over
  UDP, for the rows of their block files; a client and a monitor talk to it over TCP.  Version 2
  (\<^verbatim>\<open>src/\<close>, \<^verbatim>\<open>include/\<close>, \<^verbatim>\<open>apps/\<close>) is a proof-of-work chain of accounts: a node process with a chain, a
  pool, a block file and an HTTP surface, and a command line program for wallets, transfers and the
  check of chain files.  The definitions carry the names of the source and follow its order of checks.

  \<^bold>\<open>The theories and the code.\<close>

  \<^item> \<open>Prelude\<close> has the machine types (\<open>u8\<close> \dots \<open>u128\<close> are words), the collections \<open>codec_simps\<close>,
    \<open>ledger_simps\<close>, \<open>chain_simps\<close>, and the generic lemmas.  \<open>Sys\<close> has what \<^verbatim>\<open>write\<close>, \<^verbatim>\<open>send\<close>, \<^verbatim>\<open>read\<close> and
    \<^verbatim>\<open>recv\<close> return, as sequences of results, and the loops over them; a sequence that ends is a call that
    never returns, and the loop is then \<open>None\<close>.
  \<^item> \<open>Sha256\<close>: the vendored \<^verbatim>\<open>third_party/sha256/sha256.c\<close> and its facade \<^verbatim>\<open>crypto/sha256\<close>, with the
    streaming context refined to padding and compression; \<open>Sha256_Eval\<close> evaluates digests in the kernel.
  \<^item> \<open>Codec\<close>: the locales of the byte codecs.  \<open>Canonical\<close>: \<^verbatim>\<open>serialize/types\<close> and
    \<^verbatim>\<open>serialize/canonical\<close>, which interpret them.  \<open>Hashutil\<close>: \<^verbatim>\<open>crypto/hashutil\<close>, hex, the target and the
    128-bit work.  \<open>Json\<close>: \<^verbatim>\<open>serialize/json\<close>.  \<open>Picojson\<close>: the vendored parser
    \<^verbatim>\<open>third_party/json/picojson.h\<close> that reads every JSON text of the program; its lemmas show that it reads
    back plain trees, and what it makes of large numbers.  \<open>Texts\<close>: the JSON texts the program writes against its
    own readers.
  \<^item> \<open>Ledger\<close>: \<^verbatim>\<open>crypto/address\<close> and the account map, with the locale \<open>account_store\<close>.  \<open>Gate\<close>:
    \<^verbatim>\<open>chain/gate\<close>, the one predicate of both validators.  \<open>Genesis\<close>, \<open>Validate\<close>, \<open>Chain\<close>: the files of the
    same names under \<^verbatim>\<open>chain/\<close>; \<open>chain_reach\<close> is the relation of the chains that calls of
    \<^verbatim>\<open>connectBlock\<close> lead to.
  \<^item> \<open>Mempool\<close>: \<^verbatim>\<open>mempool/mempool\<close>, with the locale \<open>pending_set\<close> the block assembly relies on.
    \<open>Candidate\<close> and \<open>Pow\<close>: \<^verbatim>\<open>pow/candidate\<close>, \<^verbatim>\<open>pow/miner\<close>, \<^verbatim>\<open>pow/forkchoice\<close>.
  \<^item> \<open>Store\<close>, \<open>Config\<close>, \<open>Node\<close>: \<^verbatim>\<open>chain/store\<close> and \<^verbatim>\<open>node/node\<close>.  \<open>Frame\<close>: \<^verbatim>\<open>p2p/frame\<close>.
    \<open>Operators\<close>: the comparisons of the structures, the codes of the enumerations, the table hash of the pool
    and the module names.
  \<^item> \<open>Scalar\<close> and \<open>Scalar_Order\<close>: the scalar arithmetic of the vendored Ed25519, \<^verbatim>\<open>sc.c\<close>, limb by limb, and
    its correctness by an interval analysis of the sequence of its operations.  \<open>Sha512\<close>: \<^verbatim>\<open>sha512.c\<close>, with the streaming context refined
    to padding and compression.  \<open>Ref10\<close>: \<^verbatim>\<open>keypair.c\<close>, \<^verbatim>\<open>sign.c\<close>, \<^verbatim>\<open>verify.c\<close> over the two and a parameter for
    the curve.  \<open>Ed25519\<close>: both facades \<^verbatim>\<open>crypto/ed25519_*\<close>, the vendored one over \<open>Ref10\<close>.
  \<^item>  \<open>Wallet\<close>: \<^verbatim>\<open>wallet/wallet\<close>.  \<open>Rpc\<close>, \<open>Http\<close>, \<open>Http_Server\<close>:
    \<^verbatim>\<open>rpc/\<close>.
  \<^item> \<open>Cli\<close>, \<open>Commands\<close>: \<^verbatim>\<open>apps/txchain/main.cpp\<close>; the locale \<open>node_service\<close> is what the \<^verbatim>\<open>send\<close> command
    relies on in a node.  \<open>Txnode\<close>: \<^verbatim>\<open>apps/txnode/main.cpp\<close>, one function per critical section.
    \<open>Executable\<close>, \<open>Node_Run\<close>: the runs of a node as the relation \<open>node_run\<close>, in which requests
    interleave with the sections of the mining modes, and its invariant \<open>node_inv\<close>.  \<open>Node_Sample\<close>,
    \<open>Node_Life\<close>, \<open>Node_Send\<close>, \<open>Node_Http\<close>: a sample run, the properties of all runs, the command line
    program against a running node, which interprets \<open>node_service\<close>, and the request thread.
    \<open>Node_Main\<close>: the main loop over what each of its passes meets, and the whole process.  \<open>Mine_Bench\<close>:
    \<^verbatim>\<open>tools/mine_bench.cpp\<close>.
  \<^item> \<open>Backend\<close>: \<^verbatim>\<open>serverA.cpp\<close>, \<^verbatim>\<open>serverB.cpp\<close>, \<^verbatim>\<open>serverC.cpp\<close>, which differ in name, port and file only.
    \<open>Main_Server\<close>: \<^verbatim>\<open>serverM.cpp\<close>, \<^verbatim>\<open>client.cpp\<close>, \<^verbatim>\<open>monitor.cpp\<close>.  \<open>Book\<close>: the main server against any three
    servers that keep the laws of the locale \<open>row_servers\<close>.  \<open>Network_V1\<close> interprets it on the backends.
    \<open>Programs_V1\<close>: the five programs from their sockets to their exit, and the loop of the main server as
    a refinement of one ledger.

  \<^bold>\<open>What the properties show.\<close>  C1 and C2: the incremental and the replaying validator agree, and what a
  reachable chain satisfies.  C3 to C6: the money supply, its closed form, and the blocks that break it (a
  transfer of an account to itself).  C7 to C10: nonces, no replay, the cached state, and the commitment of
  the tip hash to the whole chain.  C11 and C12: the pool.  C13 to C15: candidates and the nonce search.
  C16 and C17: the JSON texts the program reads back, and what becomes of the decimals of every 64-bit
  integer.  C18 to C21: the block file and
  the boot, with what a lost and a torn append lead to.  C22: frames over arbitrary chunking.  C23 to C25:
  signed transactions, the scalar arithmetic and the hash under the signatures.  C26 and C27: wallets and HTTP over
  arbitrary chunking.  C28 to C30: the commands.  C31 to C37: every run of a node process, its request thread,
  its shut down and restart.  C38 to C40: version 1, whose main server is one ledger.

  \<^bold>\<open>Parameters.\<close>  What is not code of the repository is an argument: \<open>vf\<close> the signature check of a
  node, the curve of the vendored Ed25519 and the functions of libsodium; \<open>ub\<close> the conversion of a double out of
  range; the JSON parser is the argument \<open>parse\<close> of the definitions, for which the properties of files,
  wallets and replies take its model \<open>picojson\<close>; the clock readings \<open>now_s\<close>, \<open>now_ms\<close>; \<open>stop\<close> the answers of the
  cancellation flag of the miner; \<open>io\<close> and \<open>reached\<close> the results of file operations; \<open>udp\<close> the datagram
  exchange, \<open>pick\<close> the random backend, \<open>sorter\<close> the sorting algorithm; \<open>fs\<close> the files a command sees.
  The hypotheses on them are \<open>curve_laws\<close> (multiples of the base point, encoded, form a group of the order \<open>ell\<close>),
  \<open>sodium_sound\<close> and \<open>backend_ok\<close> (a signature made with a seed verifies under its public key, and both have their width; proved
  for the vendored backend), \<open>clock_ok\<close> (the clock is not within the allowed skew of
  the end of the 64-bit range) and \<open>sorts_by_serial\<close>; the witnesses instantiate them.

  \<^bold>\<open>Loops and bounds.\<close>  The nonce search is a \<open>partial_function\<close>: C14 says when it returns.  The read
  loops recurse on the sequence of results and the other loops on their data.  There is no fuel.  Bounds in
  statements are those of the types: fewer than \<open>2 ^ 64\<close> transactions or coins where a counter would
  wrap, \<open>2 ^ 63\<close> for what passes through a signed JSON number or a \<^verbatim>\<open>long\<close> of version 1 (an overflow there
  is undefined, \<open>None\<close> in the model), and one datagram for a reply of a backend.

  \<^bold>\<open>Errors that end a process.\<close>  The JSON parser throws on a number out of the range of a double, and no
  caller catches it: the loaders, the configuration, the wallet and the extractors have results of type \<open>raised\<close>, a
  start of the node is then \<open>Aborts\<close> and a command \<open>Raises\<close>, with the files as they were.  A write to a connection
  the other end has closed raises \<^verbatim>\<open>SIGPIPE\<close> where the call does not suppress it (\<open>W_PIPE\<close> in the HTTP code, \<open>gone\<close> in
  the main server): the operation has no result, \<open>None\<close>, and the properties of exchanges assume the peer stays.

  \<^bold>\<open>Not modelled.\<close>  Threads, locks and signal handlers: the lock makes every critical section one step, and
  steps interleave freely.  The sleep between two passes and the flushing of output.  The death by \<^verbatim>\<open>SIGPIPE\<close> of the
  client and the monitor of version 1 in the \<^verbatim>\<open>send\<close> of their one request.  A status of more digits than an \<^verbatim>\<open>int\<close> holds,
  undefined in the HTTP client, is unbounded here.  The curve and its field in the vendored Ed25519 (\<^verbatim>\<open>ge.c\<close>, \<^verbatim>\<open>fe.c\<close> and their tables)
  and libsodium, which are parameters; its files \<^verbatim>\<open>add_scalar.c\<close>, \<^verbatim>\<open>key_exchange.c\<close> and \<^verbatim>\<open>seed.c\<close>, which are
  not called.  The null, deny and stream entry points of the JSON parser and its serializer, which the
  program does not call.  The tests.
\<close>

end
